(* ===== verification/Prelude.thy ===== *)
theory Prelude
  imports Main "HOL-Library.AList"
begin

text \<open>
  What every component of the development shares: the exceptions of the Python code, a
  state-and-exception monad in which the handlers are written, the \<open>preserves\<close> calculus
  that carries an invariant through such a handler, Python's insertion-ordered dict as an
  association list, and decimal printing and reading of numbers.

  A byte is a \<^typ>\<open>char\<close> (8 bits), a Python \<open>bytes\<close> value a list of them, and a Python
  \<open>str\<close> the list of the bytes of its UTF-8 encoding, so that \<open>encode\<close> is the identity and
  \<open>decode\<close> a validity check.
\<close>

named_theorems preserves_intro
named_theorems py_run

type_synonym bytes = "char list"

subsection \<open>Exceptions and the monad of the handlers\<close>

datatype exn =
    UnicodeDecodeError
  | AttributeError
  | OSError
  | StructError
  | KeyError
  | TypeError
  | ValueError
  | RecursionError
  | OverflowError

text \<open>
  A call that starts in a state either raises or returns, and leaves a state either way:
  what was assigned before a raise stays assigned.
\<close>

type_synonym ('s, 'a) py = "'s \<Rightarrow> (exn + 'a) \<times> 's"

definition pret :: "'a \<Rightarrow> ('s, 'a) py" where
  "pret x = (\<lambda>s. (Inr x, s))"

definition praise :: "exn \<Rightarrow> ('s, 'a) py" where
  "praise e = (\<lambda>s. (Inl e, s))"

definition pbind :: "('s, 'a) py \<Rightarrow> ('a \<Rightarrow> ('s, 'b) py) \<Rightarrow> ('s, 'b) py" where
  "pbind m k = (\<lambda>s. case m s of (Inl e, t) \<Rightarrow> (Inl e, t) | (Inr x, t) \<Rightarrow> k x t)"

definition pseq :: "('s, 'a) py \<Rightarrow> ('s, 'b) py \<Rightarrow> ('s, 'b) py" where
  "pseq m n = pbind m (\<lambda>_. n)"

definition pget :: "('s \<Rightarrow> 'a) \<Rightarrow> ('s, 'a) py" where
  "pget f = (\<lambda>s. (Inr (f s), s))"

definition pmod :: "('s \<Rightarrow> 's) \<Rightarrow> ('s, unit) py" where
  "pmod f = (\<lambda>s. (Inr (), f s))"

definition plift :: "exn + 'a \<Rightarrow> ('s, 'a) py" where
  "plift r = (\<lambda>s. (r, s))"

text \<open>Python's \<open>except Exception\<close>: the state reached by the raise is kept.\<close>

definition pcatch :: "('s, 'a) py \<Rightarrow> ('s, 'a) py \<Rightarrow> ('s, 'a) py" where
  "pcatch m h = (\<lambda>s. case m s of (Inl e, t) \<Rightarrow> h t | (Inr x, t) \<Rightarrow> (Inr x, t))"

fun pfor :: "('a \<Rightarrow> ('s, unit) py) \<Rightarrow> 'a list \<Rightarrow> ('s, unit) py" where
  "pfor f [] = pret ()"
| "pfor f (x # xs) = pseq (f x) (pfor f xs)"

lemma pbind_run [py_run]: "pbind m k s = (case m s of (Inl e, t) \<Rightarrow> (Inl e, t) | (Inr x, t) \<Rightarrow> k x t)"
  by (simp add: pbind_def)

lemma pseq_run [py_run]: "pseq m n s = (case m s of (Inl e, t) \<Rightarrow> (Inl e, t) | (Inr x, t) \<Rightarrow> n t)"
  by (auto simp: pseq_def pbind_def split: prod.splits sum.splits)

lemma pret_run [py_run]: "pret x s = (Inr x, s)"
  by (simp add: pret_def)

lemma praise_run [py_run]: "praise e s = (Inl e, s)"
  by (simp add: praise_def)

lemma pget_run [py_run]: "pget f s = (Inr (f s), s)"
  by (simp add: pget_def)

lemma pmod_run [py_run]: "pmod f s = (Inr (), f s)"
  by (simp add: pmod_def)

lemma plift_run [py_run]: "plift r s = (r, s)"
  by (simp add: plift_def)

lemma plift_Inr [simp]: "plift (Inr x) = pret x"
  by (simp add: plift_def pret_def)

lemma plift_Inl [simp]: "plift (Inl e) = praise e"
  by (simp add: plift_def praise_def)

lemma pbind_Inr: "m s = (Inr x, t) \<Longrightarrow> pbind m k s = k x t"
  by (simp add: pbind_def)

lemma pbind_Inl: "m s = (Inl e, t) \<Longrightarrow> pbind m k s = (Inl e, t)"
  by (simp add: pbind_def)

lemma pseq_Inr: "m s = (Inr x, t) \<Longrightarrow> pseq m n s = n t"
  by (simp add: pseq_def pbind_def)

lemma pseq_Inl: "m s = (Inl e, t) \<Longrightarrow> pseq m n s = (Inl e, t)"
  by (simp add: pseq_def pbind_def)

lemma pbind_pret [simp]: "pbind (pret x) k = k x"
  by (rule ext) (simp add: pbind_def pret_def)

lemma pbind_praise [simp]: "pbind (praise e) k = praise e"
  by (rule ext) (simp add: pbind_def praise_def)

lemma pbind_pget: "pbind (pget f) k s = k (f s) s"
  by (simp add: pbind_def pget_def)

lemma pseq_pret [simp]: "pseq (pret x) n = n"
  by (simp add: pseq_def)

lemma pseq_praise [simp]: "pseq (praise e) n = praise e"
  by (simp add: pseq_def)

lemma pseq_pmod: "pseq (pmod f) n s = n (f s)"
  by (simp add: pseq_def pbind_def pmod_def)

lemma pseq_pret_unit [simp]: "pseq m (pret ()) = (m :: ('s, unit) py)"
  by (rule ext) (auto simp: pseq_def pbind_def pret_def split: prod.splits sum.splits)

lemma pseq_assoc: "pseq (pseq a b) c = pseq a (pseq b c)"
  by (rule ext) (auto simp: pseq_def pbind_def split: prod.splits sum.splits)

lemma pbind_InrD:
  assumes "pbind m k s = (Inr y, u)"
  obtains x t where "m s = (Inr x, t)" and "k x t = (Inr y, u)"
  using assms by (auto simp: pbind_def split: prod.splits sum.splits)

lemma pseq_InrD:
  assumes "pseq m n s = (Inr y, u)"
  obtains x t where "m s = (Inr x, t)" and "n t = (Inr y, u)"
  using assms by (auto simp: pseq_def pbind_def split: prod.splits sum.splits)

lemma pfor_append: "pfor f (xs @ ys) = pseq (pfor f xs) (pfor f ys)"
  by (induction xs) (simp_all add: pseq_assoc)

lemma pfor_map: "pfor f (map g xs) = pfor (\<lambda>x. f (g x)) xs"
  by (induction xs) simp_all

lemma pfor_cong:
  "(\<And>x. x \<in> set xs \<Longrightarrow> f x = g x) \<Longrightarrow> pfor f xs = pfor g xs"
  by (induction xs) auto

subsection \<open>Carrying an invariant through a handler\<close>

text \<open>\<open>preserves P m\<close>: the state \<open>m\<close> leaves satisfies \<open>P\<close> again, also when \<open>m\<close> raises.\<close>

definition preserves :: "('s \<Rightarrow> bool) \<Rightarrow> ('s, 'a) py \<Rightarrow> bool" where
  "preserves P m \<longleftrightarrow> (\<forall>s. P s \<longrightarrow> P (snd (m s)))"

lemma preservesI: "(\<And>s. P s \<Longrightarrow> P (snd (m s))) \<Longrightarrow> preserves P m"
  by (simp add: preserves_def)

lemma preservesD: "preserves P m \<Longrightarrow> P s \<Longrightarrow> P (snd (m s))"
  by (simp add: preserves_def)

lemma preserves_runD: "preserves P m \<Longrightarrow> P s \<Longrightarrow> m s = (r, t) \<Longrightarrow> P t"
  by (metis preservesD snd_conv)

lemma preserves_pret [preserves_intro]: "preserves P (pret x)"
  by (simp add: preserves_def pret_def)

lemma preserves_praise [preserves_intro]: "preserves P (praise e)"
  by (simp add: preserves_def praise_def)

lemma preserves_pget [preserves_intro]: "preserves P (pget f)"
  by (simp add: preserves_def pget_def)

lemma preserves_plift [preserves_intro]: "preserves P (plift r)"
  by (simp add: preserves_def plift_def)

lemma preserves_pmod: "(\<And>s. P s \<Longrightarrow> P (f s)) \<Longrightarrow> preserves P (pmod f)"
  by (simp add: preserves_def pmod_def)

lemma preserves_pbind [preserves_intro]:
  assumes "preserves P m" and "\<And>x. preserves P (k x)"
  shows "preserves P (pbind m k)"
proof (rule preservesI)
  fix s assume "P s"
  show "P (snd (pbind m k s))"
  proof (cases "m s")
    case (Pair r t)
    with \<open>P s\<close> assms(1) have "P t" by (auto dest: preserves_runD)
    with Pair assms(2) show ?thesis by (cases r) (auto simp: pbind_def dest: preservesD)
  qed
qed

lemma preserves_pbind_plift:
  "(\<And>x. r = Inr x \<Longrightarrow> preserves P (k x)) \<Longrightarrow> preserves P (pbind (plift r) k)"
  by (cases r) (simp_all add: preserves_praise)

lemma preserves_pseq [preserves_intro]:
  "preserves P m \<Longrightarrow> preserves P n \<Longrightarrow> preserves P (pseq m n)"
  by (simp add: pseq_def preserves_pbind)

lemma preserves_pcatch [preserves_intro]:
  assumes "preserves P m" and "preserves P h"
  shows "preserves P (pcatch m h)"
proof (rule preservesI)
  fix s assume "P s"
  show "P (snd (pcatch m h s))"
  proof (cases "m s")
    case (Pair r t)
    with \<open>P s\<close> assms(1) have "P t" by (auto dest: preserves_runD)
    with Pair assms(2) show ?thesis by (cases r) (auto simp: pcatch_def dest: preservesD)
  qed
qed

lemma preserves_pfor [preserves_intro]:
  "(\<And>x. x \<in> set xs \<Longrightarrow> preserves P (f x)) \<Longrightarrow> preserves P (pfor f xs)"
  by (induction xs) (auto intro: preserves_intro)

lemma preserves_if [preserves_intro]:
  "(b \<Longrightarrow> preserves P m) \<Longrightarrow> (\<not> b \<Longrightarrow> preserves P n) \<Longrightarrow> preserves P (if b then m else n)"
  by simp


lemma preserves_case_option [preserves_intro]:
  "(x = None \<Longrightarrow> preserves P m) \<Longrightarrow> (\<And>y. x = Some y \<Longrightarrow> preserves P (f y)) \<Longrightarrow>
   preserves P (case x of None \<Rightarrow> m | Some y \<Rightarrow> f y)"
  by (simp split: option.split)

lemma preserves_case_prod [preserves_intro]:
  "(\<And>a b. x = (a, b) \<Longrightarrow> preserves P (f a b)) \<Longrightarrow> preserves P (case x of (a, b) \<Rightarrow> f a b)"
  by (simp split: prod.split)

lemma preserves_case_list [preserves_intro]:
  "(xs = [] \<Longrightarrow> preserves P m) \<Longrightarrow> (\<And>y ys. xs = y # ys \<Longrightarrow> preserves P (f y ys)) \<Longrightarrow>
   preserves P (case xs of [] \<Rightarrow> m | y # ys \<Rightarrow> f y ys)"
  by (simp split: list.split)

text \<open>\<open>avoids e m\<close>: \<open>m\<close> never raises \<open>e\<close>, from any state.\<close>

definition avoids :: "exn \<Rightarrow> ('s, 'a) py \<Rightarrow> bool" where
  "avoids e m \<longleftrightarrow> (\<forall>s. fst (m s) \<noteq> Inl e)"

named_theorems avoids_intro

lemma avoids_basic [avoids_intro]:
  "avoids e (pret x)" "avoids e (pget f)" "avoids e (pmod g)"
  by (simp_all add: avoids_def py_run)

lemma avoids_praise [avoids_intro]: "e \<noteq> e' \<Longrightarrow> avoids e (praise e')"
  by (simp add: avoids_def py_run)

lemma avoids_plift [avoids_intro]: "r \<noteq> Inl e \<Longrightarrow> avoids e (plift r)"
  by (simp add: avoids_def py_run)

lemma avoids_pbind [avoids_intro]:
  assumes "avoids e m" and "\<And>x. avoids e (k x)"
  shows "avoids e (pbind m k)"
  unfolding avoids_def
proof
  fix s
  show "fst (pbind m k s) \<noteq> Inl e"
    using assms by (cases "m s"; cases "fst (m s)") (auto simp: avoids_def pbind_run, metis fst_conv)
qed

lemma avoids_pseq [avoids_intro]: "avoids e m \<Longrightarrow> avoids e n \<Longrightarrow> avoids e (pseq m n)"
  by (simp add: pseq_def avoids_pbind)

lemma avoids_pfor [avoids_intro]:
  "(\<And>x. x \<in> set xs \<Longrightarrow> avoids e (f x)) \<Longrightarrow> avoids e (pfor f xs)"
  by (induction xs) (auto intro: avoids_intro)

lemma avoids_cases [avoids_intro]:
  "(b \<Longrightarrow> avoids e m) \<Longrightarrow> (\<not> b \<Longrightarrow> avoids e n) \<Longrightarrow> avoids e (if b then m else n)"
  "(x = None \<Longrightarrow> avoids e m) \<Longrightarrow> (\<And>y. x = Some y \<Longrightarrow> avoids e (f y)) \<Longrightarrow>
   avoids e (case x of None \<Rightarrow> m | Some y \<Rightarrow> f y)"
  "(\<And>a b. p = (a, b) \<Longrightarrow> avoids e (g a b)) \<Longrightarrow> avoids e (case p of (a, b) \<Rightarrow> g a b)"
  "(xs = [] \<Longrightarrow> avoids e m) \<Longrightarrow> (\<And>y ys. xs = y # ys \<Longrightarrow> avoids e (h y ys)) \<Longrightarrow>
   avoids e (case xs of [] \<Rightarrow> m | y # ys \<Rightarrow> h y ys)"
  by (simp_all split: option.split prod.split list.split)

lemma avoidsD: "avoids e m \<Longrightarrow> fst (m s) \<noteq> Inl e"
  by (simp add: avoids_def)

text \<open>Two loop bodies that agree on the states the loop passes through.\<close>

lemma pfor_eq_on:
  assumes "\<And>x t. x \<in> set xs \<Longrightarrow> P t \<Longrightarrow> f x t = g x t"
    and "\<And>x. x \<in> set xs \<Longrightarrow> preserves P (g x)" and "P s"
  shows "pfor f xs s = pfor g xs s"
  using assms
proof (induction xs arbitrary: s)
  case Nil
  then show ?case by simp
next
  case (Cons x xs)
  obtain r t where run: "g x s = (r, t)" by fastforce
  have "P t" using Cons.prems(2)[of x] Cons.prems(3) run by (auto dest: preserves_runD)
  then have "pfor f xs t = pfor g xs t" by (intro Cons.IH) (use Cons.prems in auto)
  with Cons.prems(1)[of x s] Cons.prems(3) run show ?case
    by (simp add: pseq_run split: sum.split)
qed

subsection \<open>Python's dict\<close>

text \<open>
  A Python dict keeps its keys in insertion order: assigning to a present key keeps its
  place, a new key goes to the end. That is \<^const>\<open>AList.update\<close> on an association
  list. The locale names the laws the components rely on.
\<close>

locale dict =
  fixes lookup :: "'d \<Rightarrow> 'k \<Rightarrow> 'v option"
    and put :: "'k \<Rightarrow> 'v \<Rightarrow> 'd \<Rightarrow> 'd"
    and del :: "'k \<Rightarrow> 'd \<Rightarrow> 'd"
    and keys :: "'d \<Rightarrow> 'k list"
  assumes lookup_put: "lookup (put k v d) = (lookup d)(k \<mapsto> v)"
    and lookup_del: "lookup (del k d) = (lookup d)(k := None)"
    and set_keys: "set (keys d) = dom (lookup d)"
    and distinct_put: "distinct (keys d) \<Longrightarrow> distinct (keys (put k v d))"
    and distinct_del: "distinct (keys d) \<Longrightarrow> distinct (keys (del k d))"
begin

lemma set_keys_put: "set (keys (put k v d)) = insert k (set (keys d))"
  by (simp add: set_keys lookup_put)

lemma set_keys_del: "set (keys (del k d)) = set (keys d) - {k}"
  by (auto simp: set_keys lookup_del)

lemma length_keys_put:
  assumes "distinct (keys d)"
  shows "length (keys (put k v d)) = (if k \<in> set (keys d) then length (keys d) else Suc (length (keys d)))"
proof -
  have "length (keys (put k v d)) = card (set (keys (put k v d)))"
    using assms by (simp add: distinct_card distinct_put)
  also have "\<dots> = (if k \<in> set (keys d) then card (set (keys d)) else Suc (card (set (keys d))))"
    by (simp add: set_keys_put card_insert_if)
  finally show ?thesis using assms by (simp add: distinct_card)
qed

lemma length_keys_del:
  assumes "distinct (keys d)" and "lookup d k = Some v"
  shows "Suc (length (keys (del k d))) = length (keys d)"
proof -
  from assms(2) have k: "k \<in> set (keys d)" by (auto simp: set_keys)
  have "length (keys (del k d)) = card (set (keys d) - {k})"
    using assms(1) by (simp add: distinct_card distinct_del flip: set_keys_del)
  with k assms(1) show ?thesis
    by (simp add: distinct_card) (metis card_Diff_singleton card_gt_0_iff distinct_card
      empty_iff finite_set Suc_pred length_pos_if_in_set)
qed

end

interpretation pydict: dict map_of AList.update AList.delete "map fst"
  by unfold_locales
    (simp_all add: update_conv' delete_conv' dom_map_of_conv_image_fst distinct_update
      distinct_delete)

lemmas dict_simps [simp] =
  pydict.lookup_put pydict.lookup_del pydict.distinct_put pydict.distinct_del

subsection \<open>Text: splitting, stripping, decimal numbers\<close>

text \<open>\<open>s.split(c)\<close> for a one-character separator.\<close>

fun split_on :: "char \<Rightarrow> string \<Rightarrow> string list" where
  "split_on c [] = [[]]"
| "split_on c (x # xs) =
     (if x = c then [] # split_on c xs
      else case split_on c xs of [] \<Rightarrow> [[x]] | y # ys \<Rightarrow> (x # y) # ys)"

text \<open>\<open>c.join(xs)\<close>.\<close>

fun join_with :: "char \<Rightarrow> string list \<Rightarrow> string" where
  "join_with c [] = []"
| "join_with c [x] = x"
| "join_with c (x # y # ys) = x @ c # join_with c (y # ys)"

text \<open>The ASCII characters Python's \<open>str.strip\<close> and \<open>str.split\<close> treat as white space.\<close>

definition is_space :: "char \<Rightarrow> bool" where
  "is_space c \<longleftrightarrow> (let n = (of_char c :: nat) in 9 \<le> n \<and> n \<le> 13 \<or> 28 \<le> n \<and> n \<le> 32)"

definition strip :: "string \<Rightarrow> string" where
  "strip s = rev (dropWhile is_space (rev (dropWhile is_space s)))"

definition starts_with :: "'a list \<Rightarrow> 'a list \<Rightarrow> bool" where
  "starts_with p s \<longleftrightarrow> take (length p) s = p"

lemma starts_with_append [simp]: "starts_with p (p @ s)"
  by (simp add: starts_with_def)

lemma starts_withE: "starts_with p s \<Longrightarrow> (\<And>t. s = p @ t \<Longrightarrow> P) \<Longrightarrow> P"
  unfolding starts_with_def by (metis append_take_drop_id)

lemma split_on_notin: "c \<notin> set s \<Longrightarrow> split_on c s = [s]"
  by (induction s) auto

lemma split_on_append: "c \<notin> set s \<Longrightarrow> split_on c (s @ c # t) = s # split_on c t"
  by (induction s) auto

lemma split_on_nonempty: "split_on c s \<noteq> []"
  by (induction s) (auto split: list.splits)

lemma split_join:
  "xs \<noteq> [] \<Longrightarrow> (\<And>x. x \<in> set xs \<Longrightarrow> c \<notin> set x) \<Longrightarrow> split_on c (join_with c xs) = xs"
  by (induction c xs rule: join_with.induct) (auto simp: split_on_notin split_on_append)

lemma join_split: "join_with c (split_on c s) = s"
proof (induction s)
  case Nil
  then show ?case by simp
next
  case (Cons x s)
  obtain y ys where "split_on c s = y # ys"
    using split_on_nonempty[of c s] by (cases "split_on c s") auto
  with Cons show ?case by (cases ys) auto
qed

definition digit_char :: "nat \<Rightarrow> char" where
  "digit_char d = char_of (48 + d)"

definition char_digit :: "char \<Rightarrow> nat option" where
  "char_digit c = (let n = of_char c in if 48 \<le> n \<and> n \<le> 57 then Some (n - 48) else None)"

lemma char_digit_digit_char [simp]: "d < 10 \<Longrightarrow> char_digit (digit_char d) = Some d"
  by (simp add: char_digit_def digit_char_def Let_def)

text \<open>\<open>str(n)\<close> of a non-negative number.\<close>

fun show_nat :: "nat \<Rightarrow> string" where
  "show_nat n = (if n < 10 then [digit_char n] else show_nat (n div 10) @ [digit_char (n mod 10)])"

declare show_nat.simps [simp del]

fun read_digits :: "nat \<Rightarrow> string \<Rightarrow> nat option" where
  "read_digits acc [] = Some acc"
| "read_digits acc (c # cs) =
     (case char_digit c of None \<Rightarrow> None | Some d \<Rightarrow> read_digits (10 * acc + d) cs)"

definition read_nat :: "string \<Rightarrow> nat option" where
  "read_nat s = (if s = [] then None else read_digits 0 s)"

lemma read_digits_append:
  "read_digits acc (s @ t) = (case read_digits acc s of None \<Rightarrow> None | Some a \<Rightarrow> read_digits a t)"
  by (induction s arbitrary: acc) (auto split: option.splits)

lemma show_nat_nonempty [simp]: "show_nat n \<noteq> []"
  by (subst show_nat.simps) simp

lemma read_digits_show_nat: "read_digits 0 (show_nat n) = Some n"
proof (induction n rule: show_nat.induct)
  case (1 n)
  show ?case
  proof (cases "n < 10")
    case True
    then show ?thesis by (subst show_nat.simps) simp
  next
    case False
    with 1 show ?thesis by (subst show_nat.simps) (simp add: read_digits_append)
  qed
qed

lemma read_show_nat [simp]: "read_nat (show_nat n) = Some n"
  by (simp add: read_nat_def read_digits_show_nat)

lemma show_nat_digits: "set (show_nat n) \<subseteq> digit_char ` {..<10}"
proof (induction n rule: show_nat.induct)
  case (1 n)
  then show ?case by (subst show_nat.simps) auto
qed

lemma digit_char_eq_iff: "d < 10 \<Longrightarrow> e < 10 \<Longrightarrow> digit_char d = digit_char e \<longleftrightarrow> d = e"
  by (metis char_digit_digit_char option.inject)

lemma show_nat_notin: "char_digit c = None \<Longrightarrow> c \<notin> set (show_nat n)"
  using show_nat_digits[of n] by (fastforce simp: image_iff)


subsection \<open>UTF-8\<close>

definition utf8_cont :: "char \<Rightarrow> bool" where
  "utf8_cont c \<longleftrightarrow> (let n = (of_char c :: nat) in 128 \<le> n \<and> n < 192)"

text \<open>
  What \<open>bytes.decode()\<close> accepts: no overlong form, no surrogate, nothing above U+10FFFF.
\<close>

fun utf8_valid :: "bytes \<Rightarrow> bool" where
  "utf8_valid [] = True"
| "utf8_valid (b # rest) =
     (let n = (of_char b :: nat) in
      if n < 128 then utf8_valid rest
      else if 194 \<le> n \<and> n \<le> 223 then
        (case rest of c # r \<Rightarrow> utf8_cont c \<and> utf8_valid r | _ \<Rightarrow> False)
      else if 224 \<le> n \<and> n \<le> 239 then
        (case rest of c # d # r \<Rightarrow> utf8_cont c \<and> utf8_cont d
             \<and> (n = 224 \<longrightarrow> 160 \<le> (of_char c :: nat)) \<and> (n = 237 \<longrightarrow> (of_char c :: nat) < 160)
             \<and> utf8_valid r
         | _ \<Rightarrow> False)
      else if 240 \<le> n \<and> n \<le> 244 then
        (case rest of c # d # e # r \<Rightarrow> utf8_cont c \<and> utf8_cont d \<and> utf8_cont e
             \<and> (n = 240 \<longrightarrow> 144 \<le> (of_char c :: nat)) \<and> (n = 244 \<longrightarrow> (of_char c :: nat) < 144)
             \<and> utf8_valid r
         | _ \<Rightarrow> False)
      else False)"

definition decode :: "bytes \<Rightarrow> exn + string" where
  "decode bs = (if utf8_valid bs then Inr bs else Inl UnicodeDecodeError)"

lemma utf8_valid_ascii: "(\<And>c. c \<in> set bs \<Longrightarrow> (of_char c :: nat) < 128) \<Longrightarrow> utf8_valid bs"
  by (induction bs) auto

lemma decode_ok [simp]: "utf8_valid bs \<Longrightarrow> decode bs = Inr bs"
  by (simp add: decode_def)

end
