(* ===== verification/Wire.thy ===== *)
theory Wire
  imports Prelude
begin

text \<open>
  The tunnel wire framing of \<^verbatim>\<open>proxy/mesh_proxy.py\<close>: the two \<open>struct\<close> formats
  \<open>!BQHH4s\<close> (data, 17 bytes) and \<open>!BQ\<close> (ack, 9 bytes), and the dotted-quad conversions of
  the standard library (\<open>inet_ntoa\<close>, \<open>inet_aton\<close>) that the handlers apply to the four
  target bytes. Both formats are shown to be codecs: what is packed unpacks to the same
  fields, and every byte string of the right width is the packing of its fields.
\<close>

subsection \<open>The interface of a codec\<close>

locale codec =
  fixes enc :: "'a \<Rightarrow> exn + 'b"
    and dec :: "'b \<Rightarrow> exn + 'a"
    and ok :: "'a \<Rightarrow> bool"
  assumes enc_ok: "ok x \<Longrightarrow> \<exists>b. enc x = Inr b"
    and dec_enc: "ok x \<Longrightarrow> enc x = Inr b \<Longrightarrow> dec b = Inr x"
begin

lemma enc_obtain:
  assumes "ok x"
  obtains b where "enc x = Inr b" and "dec b = Inr x"
  using enc_ok[OF assms] dec_enc[OF assms] by blast

lemma enc_inject: "ok x \<Longrightarrow> ok y \<Longrightarrow> enc x = enc y \<Longrightarrow> x = y"
  by (metis enc_obtain sum.inject(2))

end

locale fixed_codec = codec enc dec ok
  for enc :: "'a \<Rightarrow> exn + bytes" and dec and ok +
  fixes width :: nat
  assumes enc_width: "ok x \<Longrightarrow> enc x = Inr b \<Longrightarrow> length b = width"
    and enc_dec: "length b = width \<Longrightarrow> \<exists>x. dec b = Inr x \<and> ok x \<and> enc x = Inr b"
begin

lemma dec_inject:
  "length a = width \<Longrightarrow> length b = width \<Longrightarrow> dec a = dec b \<Longrightarrow> a = b"
  by (metis enc_dec sum.inject(2))

lemma header_payload:
  "ok x \<Longrightarrow> enc x = Inr b \<Longrightarrow> dec (take width (b @ p)) = Inr x \<and> drop width (b @ p) = p"
  using enc_width dec_enc by fastforce

end

subsection \<open>Big-endian unsigned integers\<close>

fun be_bytes :: "nat \<Rightarrow> int \<Rightarrow> bytes" where
  "be_bytes 0 n = []"
| "be_bytes (Suc k) n = be_bytes k (n div 256) @ [char_of n]"

definition be_int :: "bytes \<Rightarrow> int" where
  "be_int bs = foldl (\<lambda>a c. 256 * a + of_char c) 0 bs"

lemma length_be_bytes [simp]: "length (be_bytes k n) = k"
  by (induction k arbitrary: n) auto

lemma be_int_Nil [simp]: "be_int [] = 0"
  by (simp add: be_int_def)

lemma be_int_snoc [simp]: "be_int (bs @ [c]) = 256 * be_int bs + of_char c"
  by (simp add: be_int_def)

lemma be_int_single [simp]: "be_int [c] = of_char c"
  by (simp add: be_int_def)

lemma of_char_bounds: "0 \<le> (of_char c :: int)" "(of_char c :: int) < 256"
proof -
  have "(of_char c :: int) = of_char c mod 256"
    by (simp only: of_char_mod_256)
  then show "0 \<le> (of_char c :: int)" "(of_char c :: int) < 256"
    by (metis pos_mod_sign zero_less_numeral, metis pos_mod_bound zero_less_numeral)
qed

lemma be_int_nonneg [simp]: "0 \<le> be_int bs"
  by (induction bs rule: rev_induct) (simp_all add: of_char_bounds)

lemma be_int_bound: "be_int bs < 256 ^ length bs"
proof (induction bs rule: rev_induct)
  case Nil
  then show ?case by simp
next
  case (snoc c bs)
  then show ?case using of_char_bounds(2)[of c] by simp
qed

lemma be_int_be_bytes: "be_int (be_bytes k n) = n mod 256 ^ k"
proof (induction k arbitrary: n)
  case 0
  then show ?case by simp
next
  case (Suc k)
  have "be_int (be_bytes (Suc k) n) = 256 * (n div 256 mod 256 ^ k) + n mod 256"
    using Suc by simp
  also have "\<dots> = n mod (256 * 256 ^ k)"
    by (simp add: zmod_zmult2_eq)
  finally show ?case by simp
qed

lemma be_bytes_be_int: "be_bytes (length bs) (be_int bs) = bs"
proof (induction bs rule: rev_induct)
  case Nil
  then show ?case by simp
next
  case (snoc c bs)
  have "(256 * be_int bs + of_char c) div 256 = be_int bs"
    using of_char_bounds[of c] by simp
  moreover have "char_of (256 * be_int bs + of_char c) = c"
  proof -
    have "char_of (256 * be_int bs + of_char c) = char_of ((256 * be_int bs + of_char c) mod 256)"
      by (rule char_of_mod_256 [symmetric])
    also have "\<dots> = char_of (of_char c :: int)"
      using of_char_bounds[of c] by simp
    finally show ?thesis by simp
  qed
  ultimately show ?case using snoc by simp
qed


lemma be_int_inject: "length a = length b \<Longrightarrow> be_int a = be_int b \<longleftrightarrow> a = b"
  by (metis be_bytes_be_int)

subsection \<open>The two header formats\<close>

text \<open>Integer codes of \<open>struct\<close>: out of range raises \<open>struct.error\<close>, nothing wraps.\<close>

definition pack_uint :: "nat \<Rightarrow> int \<Rightarrow> exn + bytes" where
  "pack_uint k n = (if 0 \<le> n \<and> n < 256 ^ k then Inr (be_bytes k n) else Inl StructError)"

text \<open>The code \<open>4s\<close>: cut to four bytes or padded with zero bytes.\<close>

definition pack_4s :: "bytes \<Rightarrow> bytes" where
  "pack_4s bs = take 4 (bs @ replicate 4 (CHR 0x00))"

definition DATA_HEADER_size :: nat where "DATA_HEADER_size = 17"

definition ACK_HEADER_size :: nat where "ACK_HEADER_size = 9"

definition ZERO_IP :: bytes where "ZERO_IP = replicate 4 (CHR 0x00)"

fun data_header_pack :: "int \<times> int \<times> int \<times> int \<times> bytes \<Rightarrow> exn + bytes" where
  "data_header_pack (ty, seq, src_port, dst_port, ip) =
     (case pack_uint 1 ty of Inl e \<Rightarrow> Inl e | Inr b1 \<Rightarrow>
      case pack_uint 8 seq of Inl e \<Rightarrow> Inl e | Inr b2 \<Rightarrow>
      case pack_uint 2 src_port of Inl e \<Rightarrow> Inl e | Inr b3 \<Rightarrow>
      case pack_uint 2 dst_port of Inl e \<Rightarrow> Inl e | Inr b4 \<Rightarrow>
      Inr (b1 @ b2 @ b3 @ b4 @ pack_4s ip))"

definition data_header_unpack :: "bytes \<Rightarrow> exn + (int \<times> int \<times> int \<times> int \<times> bytes)" where
  "data_header_unpack bs =
     (if length bs = DATA_HEADER_size
      then Inr (be_int (take 1 bs), be_int (take 8 (drop 1 bs)), be_int (take 2 (drop 9 bs)),
                be_int (take 2 (drop 11 bs)), drop 13 bs)
      else Inl StructError)"

fun ack_header_pack :: "int \<times> int \<Rightarrow> exn + bytes" where
  "ack_header_pack (ty, seq) =
     (case pack_uint 1 ty of Inl e \<Rightarrow> Inl e | Inr b1 \<Rightarrow>
      case pack_uint 8 seq of Inl e \<Rightarrow> Inl e | Inr b2 \<Rightarrow> Inr (b1 @ b2))"

definition ack_header_unpack :: "bytes \<Rightarrow> exn + (int \<times> int)" where
  "ack_header_unpack bs =
     (if length bs = ACK_HEADER_size then Inr (be_int (take 1 bs), be_int (drop 1 bs))
      else Inl StructError)"

text \<open>The field values each format accepts.\<close>

definition is_uint :: "nat \<Rightarrow> int \<Rightarrow> bool" where
  "is_uint k n \<longleftrightarrow> 0 \<le> n \<and> n < 256 ^ k"

fun data_header_ok :: "int \<times> int \<times> int \<times> int \<times> bytes \<Rightarrow> bool" where
  "data_header_ok (ty, seq, src_port, dst_port, ip) \<longleftrightarrow>
     is_uint 1 ty \<and> is_uint 8 seq \<and> is_uint 2 src_port \<and> is_uint 2 dst_port \<and> length ip = 4"

fun ack_header_ok :: "int \<times> int \<Rightarrow> bool" where
  "ack_header_ok (ty, seq) \<longleftrightarrow> is_uint 1 ty \<and> is_uint 8 seq"

lemma is_uint_be_int [simp]: "length bs = k \<Longrightarrow> is_uint k (be_int bs)"
  using be_int_bound[of bs] by (auto simp: is_uint_def)

lemma pack_uint_Inr_iff: "pack_uint k n = Inr b \<longleftrightarrow> is_uint k n \<and> b = be_bytes k n"
  by (auto simp: pack_uint_def is_uint_def)

lemma pack_uint_ok [simp]: "is_uint k n \<Longrightarrow> pack_uint k n = Inr (be_bytes k n)"
  by (simp add: pack_uint_Inr_iff)

lemma be_int_of_uint [simp]: "is_uint k n \<Longrightarrow> be_int (be_bytes k n) = n"
  by (simp add: be_int_be_bytes is_uint_def)

lemma is_uint_1_mod [simp]: "is_uint (Suc 0) n \<Longrightarrow> n mod 256 = n"
  by (simp add: is_uint_def)

lemma is_uint_of_char [simp]: "is_uint (Suc 0) (of_char c)"
  using is_uint_be_int[of "[c]" "Suc 0"] by simp

lemma pack_4s_id [simp]: "length ip = 4 \<Longrightarrow> pack_4s ip = ip"
  by (simp add: pack_4s_def)

lemma length_pack_4s [simp]: "length (pack_4s ip) = 4"
  by (simp add: pack_4s_def)

lemma length_ZERO_IP [simp]: "length ZERO_IP = 4"
  by (simp add: ZERO_IP_def)

lemma be_bytes_take: "length (take k bs) = k \<Longrightarrow> be_bytes k (be_int (take k bs)) = take k bs"
  by (metis be_bytes_be_int)

lemma data_header_length: "data_header_pack x = Inr b \<Longrightarrow> length b = DATA_HEADER_size"
  by (cases x) (auto simp: pack_uint_Inr_iff DATA_HEADER_size_def split: sum.splits)

lemma data_header_roundtrip:
  assumes "data_header_ok x" and "data_header_pack x = Inr b"
  shows "data_header_unpack b = Inr x"
proof -
  obtain ty seq sp dp ip where x: "x = (ty, seq, sp, dp, ip)" by (cases x)
  from assms x have b: "b = be_bytes 1 ty @ be_bytes 8 seq @ be_bytes 2 sp @ be_bytes 2 dp @ ip"
    and len: "length ip = 4" by auto
  from assms(1) x show ?thesis
    by (simp add: data_header_unpack_def DATA_HEADER_size_def b len be_int_of_uint)
qed

lemma data_header_unpack_pack:
  assumes "length b = DATA_HEADER_size"
  shows "\<exists>x. data_header_unpack b = Inr x \<and> data_header_ok x \<and> data_header_pack x = Inr b"
proof -
  let ?x = "(be_int (take 1 b), be_int (take 8 (drop 1 b)), be_int (take 2 (drop 9 b)),
    be_int (take 2 (drop 11 b)), drop 13 b)"
  have l: "length b = 17" using assms by (simp add: DATA_HEADER_size_def)
  have ok: "data_header_ok ?x" by (simp add: l)
  have "take 1 b @ take 8 (drop 1 b) @ take 2 (drop 9 b) @ take 2 (drop 11 b) @ drop 13 b = b"
    using append_take_drop_id[of 2 "drop 11 b"] append_take_drop_id[of 2 "drop 9 b"]
      append_take_drop_id[of 8 "drop 1 b"] append_take_drop_id[of 1 b] by simp
  moreover have "be_bytes 1 (be_int (take 1 b)) = take 1 b"
    by (rule be_bytes_take) (simp add: l)
  then have "data_header_pack ?x =
      Inr (take 1 b @ take 8 (drop 1 b) @ take 2 (drop 9 b) @ take 2 (drop 11 b) @ drop 13 b)"
    using ok by (simp add: l be_bytes_take)
  ultimately show ?thesis using ok assms by (auto simp: data_header_unpack_def)
qed

lemma ack_header_length: "ack_header_pack x = Inr b \<Longrightarrow> length b = ACK_HEADER_size"
  by (cases x) (auto simp: pack_uint_Inr_iff ACK_HEADER_size_def split: sum.splits)

lemma ack_header_roundtrip:
  assumes "ack_header_ok x" and "ack_header_pack x = Inr b"
  shows "ack_header_unpack b = Inr x"
proof -
  obtain ty seq where x: "x = (ty, seq)" by (cases x)
  from assms x have "b = be_bytes 1 ty @ be_bytes 8 seq" by auto
  with assms(1) x show ?thesis
    by (simp add: ack_header_unpack_def ACK_HEADER_size_def)
qed

lemma ack_header_unpack_pack:
  assumes "length b = ACK_HEADER_size"
  shows "\<exists>x. ack_header_unpack b = Inr x \<and> ack_header_ok x \<and> ack_header_pack x = Inr b"
proof -
  have l: "length b = 9" using assms by (simp add: ACK_HEADER_size_def)
  then obtain c r where b: "b = c # r" and r: "length r = 8" by (cases b) auto
  then show ?thesis using assms be_bytes_be_int[of r]
    by (auto simp: ack_header_unpack_def)
qed

text \<open>The bytes of a header, for fields in range.\<close>

fun data_header :: "int \<times> int \<times> int \<times> int \<times> bytes \<Rightarrow> bytes" where
  "data_header (ty, seq, src_port, dst_port, ip) =
     be_bytes 1 ty @ be_bytes 8 seq @ be_bytes 2 src_port @ be_bytes 2 dst_port @ ip"

lemma data_header_pack_ok: "data_header_ok x \<Longrightarrow> data_header_pack x = Inr (data_header x)"
  by (cases x) simp

interpretation data_codec: fixed_codec data_header_pack data_header_unpack data_header_ok
  DATA_HEADER_size
proof unfold_locales
  fix x assume "data_header_ok x"
  then show "\<exists>b. data_header_pack x = Inr b" by (cases x) simp
qed (simp_all add: data_header_roundtrip data_header_length data_header_unpack_pack
  del: data_header_pack.simps data_header_ok.simps split_paired_Ex)

interpretation ack_codec: fixed_codec ack_header_pack ack_header_unpack ack_header_ok
  ACK_HEADER_size
proof unfold_locales
  fix x assume "ack_header_ok x"
  then show "\<exists>b. ack_header_pack x = Inr b" by (cases x) simp
qed (simp_all add: ack_header_roundtrip ack_header_length ack_header_unpack_pack
  del: ack_header_pack.simps ack_header_ok.simps split_paired_Ex)


subsection \<open>Dotted quads\<close>

text \<open>
  \<open>socket.inet_ntoa\<close> takes exactly four bytes. \<open>socket.inet_aton\<close> is modelled on the
  canonical dotted quads, the only argument the handlers pass (it is always a result of
  \<open>inet_ntoa\<close>).
\<close>

definition inet_ntoa :: "bytes \<Rightarrow> exn + string" where
  "inet_ntoa bs =
     (if length bs = 4 then Inr (join_with (CHR ''.'') (map (\<lambda>c. show_nat (of_char c)) bs))
      else Inl OSError)"

definition read_octet :: "string \<Rightarrow> char option" where
  "read_octet s = (case read_nat s of None \<Rightarrow> None
     | Some n \<Rightarrow> if n < 256 \<and> show_nat n = s then Some (char_of n) else None)"

definition inet_aton :: "string \<Rightarrow> exn + bytes" where
  "inet_aton s =
     (let qs = map read_octet (split_on (CHR ''.'') s)
      in if length qs = 4 \<and> None \<notin> set qs then Inr (map the qs) else Inl OSError)"

lemma of_char_nat_less [simp]: "(of_char c :: nat) < 256"
proof -
  have "(of_char c :: nat) = of_char c mod 256" by (simp only: of_char_mod_256)
  then show ?thesis by (metis mod_less_divisor zero_less_numeral)
qed

lemma read_octet_show [simp]: "read_octet (show_nat (of_char c)) = Some c"
  by (simp add: read_octet_def)

lemma inet_roundtrip:
  assumes "inet_ntoa bs = Inr s"
  shows "inet_aton s = Inr bs"
proof -
  let ?parts = "map (\<lambda>c. show_nat (of_char c)) bs"
  from assms have len: "length bs = 4" and s: "s = join_with (CHR ''.'') ?parts"
    by (auto simp: inet_ntoa_def split: if_splits)
  have "split_on (CHR ''.'') s = ?parts"
    unfolding s
  proof (rule split_join)
    show "?parts \<noteq> []" using len by auto
  qed (auto simp: show_nat_notin char_digit_def)
  then show ?thesis by (simp add: inet_aton_def len comp_def)
qed

interpretation inet_codec: codec inet_ntoa inet_aton "\<lambda>b. length b = 4"
  by unfold_locales (simp_all add: inet_ntoa_def inet_roundtrip)

lemma inet_ntoa_neq_Nil: "inet_ntoa bs = Inr s \<Longrightarrow> s \<noteq> []"
  by (cases bs; cases "tl bs") (auto simp: inet_ntoa_def split: if_splits)

subsection \<open>Properties\<close>

text \<open>
  C38: The framing is exact: a data packet is packed if and only if every field fits its width,
  its header is 17 bytes long, and the receiver reads back the same fields and payload.
\<close>

theorem data_packet_roundtrip:
  assumes "length (snd (snd (snd (snd x)))) = 4"
  shows "case data_header_pack x of
      Inl e \<Rightarrow> e = StructError \<and> \<not> data_header_ok x
    | Inr h \<Rightarrow> data_header_ok x \<and> length h = DATA_HEADER_size
        \<and> data_header_unpack (take DATA_HEADER_size (h @ p)) = Inr x
        \<and> drop DATA_HEADER_size (h @ p) = p"
proof (cases "data_header_ok x")
  case True
  then obtain h where h: "data_header_pack x = Inr h" using data_codec.enc_ok by blast
  with True data_codec.header_payload[OF True h, of p] data_header_length[OF h] show ?thesis
    by simp
next
  case False
  obtain ty seq sp dp ip where x: "x = (ty, seq, sp, dp, ip)" by (cases x)
  have "data_header_pack x = Inl StructError"
    using False assms by (auto simp: x pack_uint_def is_uint_def)
  with False show ?thesis by simp
qed

theorem data_packet_roundtrip_witness:
  "data_header_unpack (take DATA_HEADER_size (data_header (0, 7, 5000, 6000, ZERO_IP) @ ''hi''))
    = Inr (0, 7, 5000, 6000, ZERO_IP)"
proof -
  have ok: "data_header_ok (0, 7, 5000, 6000, ZERO_IP)" by (simp add: is_uint_def)
  have "length (snd (snd (snd (snd (0::int, 7::int, 5000::int, 6000::int, ZERO_IP))))) = 4" by simp
  from data_packet_roundtrip[OF this, of "''hi''"] show ?thesis
    unfolding data_header_pack_ok[OF ok] sum.case by blast
qed

end
