(* ===== verification/Base64.thy ===== *)
theory Base64
  imports Wire
begin

text \<open>
  \<open>base64.b64encode\<close> and \<open>base64.b64decode\<close> of the standard library, with which the
  snapshot artifact carries payload bytes through JSON. The decoder is the lenient one
  Python uses by default: characters outside the alphabet are skipped, a padding that
  completes a quad ends the input, a quad left incomplete raises.
\<close>

definition b64_alphabet :: string where
  "b64_alphabet = ''ABCDEFGHIJKLMNOPQRSTUVWXYZabcdefghijklmnopqrstuvwxyz0123456789+/''"

definition b64_char :: "nat \<Rightarrow> char" where
  "b64_char n = b64_alphabet ! n"

fun index_of :: "'a \<Rightarrow> 'a list \<Rightarrow> nat option" where
  "index_of x [] = None"
| "index_of x (y # ys) = (if x = y then Some 0 else map_option Suc (index_of x ys))"

definition b64_val :: "char \<Rightarrow> nat option" where
  "b64_val c = index_of c b64_alphabet"

fun b64encode :: "bytes \<Rightarrow> string" where
  "b64encode [] = []"
| "b64encode [a] =
     (let x = of_char a
      in [b64_char (x div 4), b64_char (x mod 4 * 16), CHR ''='', CHR ''=''])"
| "b64encode [a, b] =
     (let x = of_char a; y = of_char b
      in [b64_char (x div 4), b64_char (x mod 4 * 16 + y div 16), b64_char (y mod 16 * 4),
          CHR ''=''])"
| "b64encode (a # b # c # rest) =
     (let x = of_char a; y = of_char b; z = of_char c
      in [b64_char (x div 4), b64_char (x mod 4 * 16 + y div 16),
          b64_char (y mod 16 * 4 + z div 64), b64_char (z mod 64)] @ b64encode rest)"

text \<open>The scanner's state: position in the quad, padding seen, bits left over.\<close>

fun a2b_base64 :: "nat \<Rightarrow> nat \<Rightarrow> nat \<Rightarrow> string \<Rightarrow> exn + bytes" where
  "a2b_base64 quad_pos pads left [] = (if quad_pos = 0 then Inr [] else Inl ValueError)"
| "a2b_base64 quad_pos pads left (c # cs) =
     (if c = CHR ''='' then
        (if 2 \<le> quad_pos then
           (if 4 \<le> quad_pos + Suc pads then Inr [] else a2b_base64 quad_pos (Suc pads) left cs)
         else a2b_base64 quad_pos pads left cs)
      else case b64_val c of
        None \<Rightarrow> a2b_base64 quad_pos pads left cs
      | Some v \<Rightarrow>
          if quad_pos = 0 then a2b_base64 1 0 v cs
          else if quad_pos = 1 then
            map_sum id ((#) (char_of (left * 4 + v div 16))) (a2b_base64 2 0 (v mod 16) cs)
          else if quad_pos = 2 then
            map_sum id ((#) (char_of (left * 16 + v div 4))) (a2b_base64 3 0 (v mod 4) cs)
          else
            map_sum id ((#) (char_of (left * 64 + v))) (a2b_base64 0 0 0 cs))"

definition b64decode :: "string \<Rightarrow> exn + bytes" where
  "b64decode s = a2b_base64 0 0 0 s"

lemma b64_table: "list_all (\<lambda>n. b64_val (b64_char n) = Some n \<and> b64_char n \<noteq> CHR ''='') [0..<64]"
  by code_simp

lemma b64_val_char [simp]: "n < 64 \<Longrightarrow> b64_val (b64_char n) = Some n"
  and b64_char_not_pad [simp]: "n < 64 \<Longrightarrow> b64_char n \<noteq> CHR ''=''"
  using b64_table by (auto simp: list_all_iff)

lemma sextets:
  fixes x y :: nat
  assumes "x < 256" and "y < 256"
  shows "x div 4 < 64" and "x mod 4 * 16 + y div 16 < 64" and "x mod 4 * 16 < 64"
    and "x mod 16 * 4 + y div 64 < 64" and "x mod 16 * 4 < 64" and "x mod 64 < 64"
    and "y div 16 div 16 = 0" and "y div 16 mod 16 = y div 16"
    and "y div 64 div 4 = 0" and "y div 64 mod 4 = y div 64"
proof -
  have lt: "y div 16 < 16" "y div 64 < 4"
    using assms by (simp_all add: less_mult_imp_div_less)
  then show "y div 16 div 16 = 0" "y div 16 mod 16 = y div 16"
    "y div 64 div 4 = 0" "y div 64 mod 4 = y div 64"
    by (simp_all only: div_less mod_less)
  have "x mod 4 \<le> 3" "x mod 16 \<le> 15" by (simp_all add: less_Suc_eq_le [symmetric])
  with lt show "x mod 4 * 16 + y div 16 < 64" "x mod 16 * 4 + y div 64 < 64"
    "x mod 4 * 16 < 64" "x mod 16 * 4 < 64"
    by linarith+
qed (use assms in simp_all)

lemmas byte_sextets [simp] = sextets [OF of_char_nat_less of_char_nat_less]

lemma b64_roundtrip: "b64decode (b64encode bs) = Inr bs"
proof (induction bs rule: b64encode.induct)
  case 1
  then show ?case by (simp add: b64decode_def)
next
  case (2 a)
  then show ?case by (simp add: b64decode_def Let_def mod_mult_self3)
next
  case (3 a b)
  then show ?case by (simp add: b64decode_def Let_def)
next
  case (4 a b c rest)
  then show ?case by (simp add: b64decode_def Let_def)
qed

interpretation b64_codec: codec "\<lambda>bs. Inr (b64encode bs)" b64decode "\<lambda>_. True"
  by unfold_locales (auto simp: b64_roundtrip)

end
