(* ===== verification/Config.thy ===== *)
theory Config
  imports Base64 "HOL-Library.Word"
begin

unbundle bit_operations_syntax

text \<open>
  \<^verbatim>\<open>proxy/config.py\<close>: the constants of the sidecar and the two settings read from the
  environment, with the IPv4 network test (\<open>ipaddress\<close>) that decides which intercepted
  datagrams are mesh-bound. Times are in milliseconds.
\<close>

definition LOCAL_INTERCEPT_PORT :: int where "LOCAL_INTERCEPT_PORT = 9000"

definition TUNNEL_PORT :: int where "TUNNEL_PORT = 9001"

definition RETRY_TIMEOUT :: int where "RETRY_TIMEOUT = 500"

definition MESH_SUBNET :: string where "MESH_SUBNET = ''10.24.24.0/24''"

definition SNAPSHOT_TIMEOUT :: int where "SNAPSHOT_TIMEOUT = 30000"

definition MAX_SPOOF_SOCKETS :: nat where "MAX_SPOOF_SOCKETS = 512"

definition SOL_IP :: int where "SOL_IP = 0"

definition IP_RECVORIGDSTADDR :: int where "IP_RECVORIGDSTADDR = 20"

text \<open>
  The comprehension that reads \<open>MESH_MEMBERS\<close>; the argument is what
  \<open>os.environ.get\<close> finds.
\<close>

definition parse_mesh_members :: "string option \<Rightarrow> string list" where
  "parse_mesh_members env =
     [strip ip. ip \<leftarrow> split_on (CHR '','')
        (case env of None \<Rightarrow> ''10.24.24.10,10.24.24.11,10.24.24.12'' | Some s \<Rightarrow> s),
      strip ip \<noteq> []]"

lemma parse_mesh_members_default:
  "parse_mesh_members None = [''10.24.24.10'', ''10.24.24.11'', ''10.24.24.12'']"
  by (simp add: parse_mesh_members_def strip_def is_space_def)

lemma strip_idem [simp]: "strip (strip s) = strip s"
proof -
  have drop: "dropWhile P (rev (dropWhile P (rev xs))) = rev (dropWhile P (rev (dropWhile P xs)))"
    for P :: "char \<Rightarrow> bool" and xs
  proof (induction xs)
    case Nil
    then show ?case by simp
  next
    case (Cons x xs)
    show ?case
    proof (cases "P x")
      case True
      then have "rev (dropWhile P (rev (x # xs))) =
          (if \<forall>y\<in>set xs. P y then [] else x # rev (dropWhile P (rev xs)))"
        by (auto simp: dropWhile_append)
      with True Cons show ?thesis
        by (auto simp: dropWhile_eq_Nil_conv) (metis dropWhile_eq_Nil_conv set_dropWhileD)
    next
      case False
      then show ?thesis by (auto simp: dropWhile_append)
    qed
  qed
  show ?thesis by (simp add: strip_def drop dropWhile_idem)
qed


subsection \<open>The mesh network\<close>

text \<open>\<open>ipaddress.ip_address\<close> on a canonical dotted quad.\<close>

definition ip_address :: "string \<Rightarrow> exn + 32 word" where
  "ip_address s = (case inet_aton s of Inl e \<Rightarrow> Inl ValueError | Inr b \<Rightarrow> Inr (word_of_int (be_int b)))"

definition netmask :: "nat \<Rightarrow> 32 word" where
  "netmask plen = NOT (mask (32 - plen))"

text \<open>\<open>ipaddress.ip_network(s, strict=False)\<close>: host bits are masked off. (network, netmask)\<close>

definition ip_network :: "string \<Rightarrow> exn + (32 word \<times> 32 word)" where
  "ip_network s =
     (case split_on (CHR ''/'') s of
        [a, p] \<Rightarrow>
          (case ip_address a of Inl e \<Rightarrow> Inl e
           | Inr w \<Rightarrow> (case read_nat p of None \<Rightarrow> Inl ValueError
              | Some n \<Rightarrow> if n \<le> 32 then Inr (w AND netmask n, netmask n) else Inl ValueError))
      | _ \<Rightarrow> Inl ValueError)"

definition mesh_network :: "exn + (32 word \<times> 32 word)" where
  "mesh_network = ip_network MESH_SUBNET"

text \<open>\<open>ipaddress.ip_address(s) in self.mesh_network\<close>\<close>

definition in_mesh_network :: "string \<Rightarrow> exn + bool" where
  "in_mesh_network s =
     (case mesh_network of Inl e \<Rightarrow> Inl e
      | Inr (net, m) \<Rightarrow> (case ip_address s of Inl e \<Rightarrow> Inl e | Inr w \<Rightarrow> Inr (w AND m = net)))"

lemma mesh_network_eq: "mesh_network = Inr (word_of_int 0x0A181800, word_of_int 0xFFFFFF00)"
proof -
  have parts: "split_on (CHR ''/'') MESH_SUBNET = [''10.24.24.0'', ''24'']"
    by (simp add: MESH_SUBNET_def)
  have net: "inet_ntoa [CHR 0x0A, CHR 0x18, CHR 0x18, CHR 0x00] = Inr ''10.24.24.0''"
    by code_simp
  have val: "be_int [CHR 0x0A, CHR 0x18, CHR 0x18, CHR 0x00] = 0x0A181800"
    by code_simp
  have len: "read_nat ''24'' = Some 24"
    by (simp add: read_nat_def char_digit_def)
  show ?thesis
    unfolding mesh_network_def ip_network_def parts
    by (simp add: ip_address_def inet_roundtrip[OF net] len netmask_def val mask_eq_exp_minus_1)
qed

lemma be_int_quad: "be_int [a, b, c, d] = be_int [a, b, c] * 256 + of_char d"
  using be_int_snoc[of "[a, b, c]" d] by simp

lemma word_mask24_eq_iff:
  "(w :: 32 word) AND word_of_int 0xFFFFFF00 = v AND word_of_int 0xFFFFFF00
     \<longleftrightarrow> uint w div 256 = uint v div 256"
proof -
  have "x AND word_of_int 0xFFFFFF00 = push_bit 8 (drop_bit 8 x)" for x :: "32 word"
  proof -
    have "word_of_int 0xFFFFFF00 = (NOT (mask 8) :: 32 word)"
      by (simp add: mask_eq_exp_minus_1)
    then show ?thesis by (simp add: bit_eq_iff bit_simps) auto
  qed
  moreover have "push_bit 8 (drop_bit 8 x) = push_bit 8 (drop_bit 8 y)
      \<longleftrightarrow> drop_bit 8 x = drop_bit 8 y" for x y :: "32 word"
  proof
    assume "push_bit 8 (drop_bit 8 x) = push_bit 8 (drop_bit 8 y)"
    then have "drop_bit 8 (push_bit 8 (drop_bit 8 x)) = drop_bit 8 (push_bit 8 (drop_bit 8 y))"
      by simp
    moreover have "drop_bit 8 (push_bit 8 (drop_bit 8 z)) = drop_bit 8 z" for z :: "32 word"
      by (rule bit_eqI) (auto simp: bit_simps dest: bit_imp_le_length)
    ultimately show "drop_bit 8 x = drop_bit 8 y" by simp
  qed simp
  moreover have "drop_bit 8 x = drop_bit 8 y \<longleftrightarrow> uint x div 256 = uint y div 256"
    for x y :: "32 word"
    by (simp add: word_uint_eq_iff unsigned_drop_bit_eq drop_bit_eq_div uint_div)
  ultimately show ?thesis by simp
qed


lemma uint_word32: "0 \<le> n \<Longrightarrow> n < 4294967296 \<Longrightarrow> uint (word_of_int n :: 32 word) = n"
  by (simp add: uint_word_of_int)

lemma subnet24_iff:
  assumes "0 \<le> n" and "n < 16777216" and "0 \<le> d" and "d < 256"
  shows "(word_of_int (n * 256 + d) :: 32 word) AND word_of_int 0xFFFFFF00 = word_of_int 0x0A181800
    \<longleftrightarrow> n = 0x0A1818"
proof -
  have u: "uint (word_of_int (n * 256 + d) :: 32 word) = n * 256 + d"
    by (rule uint_word32) (use assms in linarith)+
  have "(word_of_int 0x0A181800 :: 32 word) AND word_of_int 0xFFFFFF00 = word_of_int 0x0A181800"
    by simp
  with word_mask24_eq_iff[of "word_of_int (n * 256 + d)" "word_of_int 0x0A181800"]
  show ?thesis unfolding u using assms(3,4) by simp
qed

text \<open>Membership in the default subnet is a test on the first three octets.\<close>

lemma in_mesh_network_quad:
  assumes "inet_ntoa [a, b, c, d] = Inr s"
  shows "in_mesh_network s = Inr ([a, b, c] = [CHR 0x0A, CHR 0x18, CHR 0x18])"
proof -
  let ?n = "be_int [a, b, c]"
  have addr: "ip_address s = Inr (word_of_int (?n * 256 + of_char d))"
    using inet_roundtrip[OF assms] by (simp add: ip_address_def be_int_quad)
  have "?n < 16777216"
    using be_int_bound[of "[a, b, c]"] by simp
  then have "(word_of_int (?n * 256 + of_char d) :: 32 word) AND word_of_int 0xFFFFFF00
      = word_of_int 0x0A181800 \<longleftrightarrow> ?n = 0x0A1818"
    by (intro subnet24_iff) (simp_all add: of_char_bounds)
  also have "\<dots> \<longleftrightarrow> [a, b, c] = [CHR 0x0A, CHR 0x18, CHR 0x18]"
  proof -
    have "be_int [CHR 0x0A, CHR 0x18, CHR 0x18] = 0x0A1818" by code_simp
    then show ?thesis
      using be_int_inject[of "[a, b, c]" "[CHR 0x0A, CHR 0x18, CHR 0x18]"] by simp
  qed
  finally show ?thesis by (simp add: in_mesh_network_def mesh_network_eq addr)
qed

subsection \<open>Properties\<close>

text \<open>
  C40: Whether an intercepted datagram is mesh-bound depends on the first three octets of its
  original destination alone: the test is membership in 10.24.24.0/24.
\<close>

theorem mesh_bound_iff_prefix:
  assumes "inet_ntoa [a, b, c, d] = Inr s"
  shows "in_mesh_network s = Inr (a = CHR 0x0A \<and> b = CHR 0x18 \<and> c = CHR 0x18)"
  using in_mesh_network_quad[OF assms] by simp

theorem mesh_bound_iff_prefix_witness:
  "in_mesh_network ''10.24.24.200'' = Inr True \<and> in_mesh_network ''10.99.0.1'' = Inr False"
proof -
  have "inet_ntoa [CHR 0x0A, CHR 0x18, CHR 0x18, CHR 0xC8] = Inr ''10.24.24.200''"
    and "inet_ntoa [CHR 0x0A, CHR 0x63, CHR 0x00, CHR 0x01] = Inr ''10.99.0.1''" by code_simp+
  then show ?thesis using mesh_bound_iff_prefix by simp
qed

text \<open>
  The member list has no empty and no padded entry, whatever the variable holds; unset,
  it is the three nodes of the deployment.
\<close>

lemma mesh_members_are_clean:
  "list_all (\<lambda>ip. ip \<noteq> [] \<and> strip ip = ip) (parse_mesh_members v)
    \<and> parse_mesh_members None = [''10.24.24.10'', ''10.24.24.11'', ''10.24.24.12'']"
  using parse_mesh_members_default by (auto simp: parse_mesh_members_def list_all_iff)

end
