(* ===== verification/World.thy ===== *)
theory World
  imports Config
begin

text \<open>
  The state of one sidecar process and its environment. The Python objects (a \<open>MeshProxy\<close>
  holding \<open>PeerState\<close>s and a \<open>SnapshotController\<close>) are one record; a reference to a
  \<open>PeerState\<close> is the peer's IP, since \<open>peers\<close> never drops or replaces an entry. What the
  process does to the outside (datagrams, sockets, HTTP requests) is an event of \<open>trace\<close>.
  What it reads of its host is the record \<open>env\<close>: the module-level settings, and the
  answers of the kernel and of the HTTP server, which depend on the number of events so
  far, so that one call may fail and the next succeed.
\<close>

subsection \<open>JSON values\<close>

datatype json =
    JNull
  | JBool bool
  | JInt int
  | JStr string
  | JArr "json list"
  | JObj "(string \<times> json) list"

subsection \<open>Per-peer state\<close>

type_synonym buffered = "bytes \<times> int \<times> int \<times> string"

record peer_state =
  send_seq :: int
  unacked :: "(int \<times> (int \<times> bytes)) list"
  recv_seq :: int
  recv_buffer :: "(int \<times> buffered) list"

definition PeerState :: peer_state where
  "PeerState = \<lparr>send_seq = 0, unacked = [], recv_seq = 0, recv_buffer = []\<rparr>"

subsection \<open>The snapshot controller\<close>

record recorded_msg =
  m_seq :: int
  m_payload :: bytes
  m_src_port :: int
  m_dst_port :: int
  m_target_local_ip :: string

text \<open>
  \<open>recording_channels\<close> is a Python set: a list without duplicates here, whose iteration
  order is the environment's (\<open>set_iter\<close>).
\<close>

record controller =
  is_snapshotting :: bool
  current_snapshot_id :: "bytes option"
  recording_channels :: "string list"
  channel_states :: "(string \<times> recorded_msg list) list"
  recorded_send_seq :: "(string \<times> int) list"
  recorded_recv_seq :: "(string \<times> int) list"
  snapshot_deadline :: "int option"
  self_ip_cache :: "string option"

definition SnapshotController :: controller where
  "SnapshotController =
     \<lparr>is_snapshotting = False, current_snapshot_id = None, recording_channels = [],
      channel_states = [], recorded_send_seq = [], recorded_recv_seq = [],
      snapshot_deadline = None, self_ip_cache = None\<rparr>"

subsection \<open>The outside\<close>

datatype spoof_sock = SpoofSock (sock_id: nat) (sock_bound: "(string \<times> int) option")

datatype http_req =
    PostCheckpoint string string
  | PostSnapshotState json
  | GetSnapshot string

datatype event =
    TunnelSend bytes string
  | SpoofSend spoof_sock bytes string int
  | SpoofSendError spoof_sock bytes string int
  | SpoofOpen spoof_sock
  | SpoofClose spoof_sock
  | HttpReq http_req

text \<open>A datagram of the intercept socket: payload, ancillary data, sender address.\<close>

type_synonym intercepted = "bytes \<times> (int \<times> int \<times> bytes) list \<times> (string \<times> int)"

record world =
  peers :: "(string \<times> peer_state) list"
  spoof_sockets :: "((string \<times> int) \<times> spoof_sock) list"
  tunnel_transport :: bool
  snapshot_ctrl :: controller
  is_server :: bool
  local_sock :: "intercepted list"
  clock :: int
  trace :: "event list"
  next_sock :: nat

definition MeshProxy :: world where
  "MeshProxy =
     \<lparr>peers = [], spoof_sockets = [], tunnel_transport = False,
      snapshot_ctrl = SnapshotController, is_server = False, local_sock = [], clock = 0,
      trace = [], next_sock = 0\<rparr>"

text \<open>
  \<open>route_src\<close> answers the connect probe of \<open>_self_mesh_ip\<close>; \<open>http_ok\<close> and \<open>http_ms\<close> say
  whether the HTTP call made after so many events succeeds and how long it blocks;
  \<open>http_body\<close> is the parsed body a GET returns; \<open>bind_ok\<close> and \<open>send_ok\<close> are the kernel's
  answers on the spoofing sockets; \<open>new_uuid\<close> is \<open>str(uuid.uuid4())\<close>.
\<close>

record env =
  MESH_MEMBERS :: "string list"
  MESH_SELF :: "string option"
  CHECKPOINT_TARGET :: "string option"
  RESTORE_SNAPSHOT_ID :: "string option"
  hostname :: string
  route_src :: "string \<Rightarrow> string option"
  http_ok :: "nat \<Rightarrow> bool"
  http_ms :: "nat \<Rightarrow> int"
  http_body :: "nat \<Rightarrow> json"
  bind_ok :: "nat \<Rightarrow> string \<times> int \<Rightarrow> bool"
  send_ok :: "nat \<Rightarrow> bool"
  set_iter :: "string list \<Rightarrow> string list"
  new_uuid :: "nat \<Rightarrow> string"

type_synonym 'a act = "(world, 'a) py"

subsection \<open>Primitive operations\<close>

definition emit :: "event \<Rightarrow> world \<Rightarrow> world" where
  "emit e w = w\<lparr>trace := trace w @ [e]\<rparr>"

definition upd_ctrl :: "(controller \<Rightarrow> controller) \<Rightarrow> world \<Rightarrow> world" where
  "upd_ctrl f w = w\<lparr>snapshot_ctrl := f (snapshot_ctrl w)\<rparr>"

definition peer_of :: "world \<Rightarrow> string \<Rightarrow> peer_state" where
  "peer_of w ip = (case map_of (peers w) ip of None \<Rightarrow> PeerState | Some p \<Rightarrow> p)"

definition upd_peer :: "string \<Rightarrow> (peer_state \<Rightarrow> peer_state) \<Rightarrow> world \<Rightarrow> world" where
  "upd_peer ip f w = w\<lparr>peers := AList.update ip (f (peer_of w ip)) (peers w)\<rparr>"

definition tunnel_sendto :: "bytes \<Rightarrow> string \<Rightarrow> unit act" where
  "tunnel_sendto packet ip =
     pbind (pget tunnel_transport) (\<lambda>up.
       if up then pmod (emit (TunnelSend packet ip)) else praise AttributeError)"

definition spoof_sendto :: "env \<Rightarrow> spoof_sock \<Rightarrow> bytes \<Rightarrow> string \<times> int \<Rightarrow> unit act" where
  "spoof_sendto E sock p addr =
     pbind (pget (\<lambda>w. length (trace w))) (\<lambda>n.
       if send_ok E n then pmod (emit (SpoofSend sock p (fst addr) (snd addr)))
       else pseq (pmod (emit (SpoofSendError sock p (fst addr) (snd addr)))) (praise OSError))"

text \<open>An HTTP request: it blocks for a while, then succeeds or raises (here: False).\<close>

definition http_call :: "env \<Rightarrow> http_req \<Rightarrow> bool act" where
  "http_call E req =
     pbind (pget (\<lambda>w. length (trace w))) (\<lambda>n.
       pseq (pmod (\<lambda>w. (emit (HttpReq req) w)\<lparr>clock := clock w + http_ms E n\<rparr>))
         (pret (http_ok E n)))"

subsection \<open>How the primitives move the fields\<close>

named_theorems world_simps

lemma emit_fields [simp]:
  "peers (emit e w) = peers w" "spoof_sockets (emit e w) = spoof_sockets w"
  "tunnel_transport (emit e w) = tunnel_transport w" "snapshot_ctrl (emit e w) = snapshot_ctrl w"
  "is_server (emit e w) = is_server w" "local_sock (emit e w) = local_sock w"
  "clock (emit e w) = clock w" "trace (emit e w) = trace w @ [e]" "next_sock (emit e w) = next_sock w"
  by (simp_all add: emit_def)

lemma upd_ctrl_fields [simp]:
  "peers (upd_ctrl f w) = peers w" "spoof_sockets (upd_ctrl f w) = spoof_sockets w"
  "tunnel_transport (upd_ctrl f w) = tunnel_transport w"
  "snapshot_ctrl (upd_ctrl f w) = f (snapshot_ctrl w)"
  "is_server (upd_ctrl f w) = is_server w" "local_sock (upd_ctrl f w) = local_sock w"
  "clock (upd_ctrl f w) = clock w" "trace (upd_ctrl f w) = trace w"
  "next_sock (upd_ctrl f w) = next_sock w"
  by (simp_all add: upd_ctrl_def)

lemma upd_peer_fields [simp]:
  "spoof_sockets (upd_peer ip f w) = spoof_sockets w"
  "tunnel_transport (upd_peer ip f w) = tunnel_transport w"
  "snapshot_ctrl (upd_peer ip f w) = snapshot_ctrl w"
  "is_server (upd_peer ip f w) = is_server w" "local_sock (upd_peer ip f w) = local_sock w"
  "clock (upd_peer ip f w) = clock w" "trace (upd_peer ip f w) = trace w"
  "next_sock (upd_peer ip f w) = next_sock w"
  by (simp_all add: upd_peer_def)

lemma peer_of_cong: "peers v = peers w \<Longrightarrow> peer_of v ip = peer_of w ip"
  by (simp add: peer_of_def)

lemma peer_of_emit [simp]: "peer_of (emit e w) ip = peer_of w ip"
  and peer_of_upd_ctrl [simp]: "peer_of (upd_ctrl f w) ip = peer_of w ip"
  by (simp_all add: peer_of_def)

lemma peer_of_upd_peer [simp]:
  "peer_of (upd_peer ip f w) jp = (if jp = ip then f (peer_of w ip) else peer_of w jp)"
  by (simp add: peer_of_def upd_peer_def)

lemma peer_of_frames [simp]:
  "peer_of (w\<lparr>spoof_sockets := a\<rparr>) ip = peer_of w ip" "peer_of (w\<lparr>local_sock := b\<rparr>) ip = peer_of w ip"
  "peer_of (w\<lparr>clock := c\<rparr>) ip = peer_of w ip" "peer_of (w\<lparr>trace := d\<rparr>) ip = peer_of w ip"
  "peer_of (w\<lparr>next_sock := n\<rparr>) ip = peer_of w ip" "peer_of (w\<lparr>is_server := s\<rparr>) ip = peer_of w ip"
  "peer_of (w\<lparr>snapshot_ctrl := sc\<rparr>) ip = peer_of w ip"
  "peer_of (w\<lparr>tunnel_transport := tt\<rparr>) ip = peer_of w ip"
  by (simp_all add: peer_of_def)

lemma set_keys_upd_peer:
  "set (map fst (peers (upd_peer ip f w))) = insert ip (set (map fst (peers w)))"
  using pydict.set_keys_put[of ip "f (peer_of w ip)" "peers w"] by (simp add: upd_peer_def)

lemma distinct_upd_peer:
  "distinct (map fst (peers w)) \<Longrightarrow> distinct (map fst (peers (upd_peer ip f w)))"
  by (simp add: upd_peer_def)

end
