(* ===== verification/Spoof.thy ===== *)
theory Spoof
  imports World
begin

text \<open>
  The cache of spoofing sockets (\<open>MeshProxy.get_spoof_sock\<close>): an \<open>OrderedDict\<close> keyed by the
  spoofed source address, least recently used first, of at most \<open>MAX_SPOOF_SOCKETS\<close>
  entries. It is shown to be an LRU cache (the locale \<open>lru_cache\<close>), to hand out a socket
  of the requested key, and to leak nothing: the sockets opened and not closed are those
  in the cache.
\<close>

subsection \<open>The code\<close>

definition move_to_end :: "'k \<Rightarrow> ('k \<times> 'v) list \<Rightarrow> ('k \<times> 'v) list" where
  "move_to_end k d = (case map_of d k of None \<Rightarrow> d | Some v \<Rightarrow> AList.delete k d @ [(k, v)])"

text \<open>Opening and binding the socket; a failed bind falls back to an unbound one.\<close>

definition open_spoof_sock :: "env \<Rightarrow> string \<times> int \<Rightarrow> spoof_sock act" where
  "open_spoof_sock E key =
     pbind (pget (\<lambda>w. (length (trace w), next_sock w))) (\<lambda>(n, i).
       let sock = (if bind_ok E n key then SpoofSock i (Some key) else SpoofSock (Suc i) None)
       in pseq (pmod (\<lambda>w. (emit (SpoofOpen sock) w)\<lparr>next_sock := Suc (sock_id sock)\<rparr>)) (pret sock))"

definition evict_oldest :: "unit act" where
  "evict_oldest =
     pbind (pget spoof_sockets) (\<lambda>d.
       case d of [] \<Rightarrow> praise KeyError
       | (_, old_sock) # rest \<Rightarrow> pmod (\<lambda>w. emit (SpoofClose old_sock) (w\<lparr>spoof_sockets := rest\<rparr>)))"

definition evict_if_full :: "unit act" where
  "evict_if_full =
     pbind (pget (\<lambda>w. length (spoof_sockets w))) (\<lambda>n.
       if MAX_SPOOF_SOCKETS \<le> n then evict_oldest else pret ())"

definition get_spoof_sock :: "env \<Rightarrow> string \<Rightarrow> int \<Rightarrow> spoof_sock act" where
  "get_spoof_sock E src_ip src_port =
     (let key = (src_ip, src_port) in
      pbind (pget (\<lambda>w. map_of (spoof_sockets w) key)) (\<lambda>hit.
        case hit of
          Some sock \<Rightarrow>
            pseq (pmod (\<lambda>w. w\<lparr>spoof_sockets := move_to_end key (spoof_sockets w)\<rparr>)) (pret sock)
        | None \<Rightarrow>
            pseq evict_if_full
              (pbind (open_spoof_sock E key) (\<lambda>sock.
                 pseq (pmod (\<lambda>w. w\<lparr>spoof_sockets := AList.update key sock (spoof_sockets w)\<rparr>))
                   (pret sock)))))"

subsection \<open>The contract of an LRU cache\<close>

text \<open>One use of a key: it becomes the youngest; the oldest goes if the cache is full.\<close>

definition lru_step :: "nat \<Rightarrow> 'k \<Rightarrow> 'k list \<Rightarrow> 'k list" where
  "lru_step cap k ks =
     (if k \<in> set ks then filter (\<lambda>j. j \<noteq> k) ks
      else if cap \<le> length ks then tl ks else ks) @ [k]"

definition last_n :: "nat \<Rightarrow> 'a list \<Rightarrow> 'a list" where
  "last_n n xs = drop (length xs - n) xs"

lemma remdups_snoc: "remdups (xs @ [x]) = filter (\<lambda>y. y \<noteq> x) (remdups xs) @ [x]"
  by (induction xs) auto

lemma length_filter_neq:
  "distinct xs \<Longrightarrow> k \<in> set xs \<Longrightarrow> Suc (length (filter (\<lambda>j. j \<noteq> k) xs)) = length xs"
  by (induction xs) (auto intro: arg_cong[where f = length] filter_True)

lemma last_n_append_ge: "n \<le> length ys \<Longrightarrow> last_n n (xs @ ys) = last_n n ys"
  by (simp add: last_n_def)

lemma last_n_all: "length xs \<le> n \<Longrightarrow> last_n n xs = xs"
  by (simp add: last_n_def)

lemma lru_step_last_n:
  assumes "distinct R" and "0 < cap"
  shows "lru_step cap k (last_n cap R) = last_n cap (filter (\<lambda>j. j \<noteq> k) R @ [k])"
proof -
  let ?f = "filter (\<lambda>j. j \<noteq> k)"
  define P L where "P = take (length R - cap) R" and "L = last_n cap R"
  have R: "R = P @ L" and dist: "distinct (P @ L)"
    using assms(1) by (simp_all add: P_def L_def last_n_def)
  have full: "P \<noteq> [] \<Longrightarrow> length L = cap" and le: "length L \<le> cap"
    by (auto simp: P_def L_def last_n_def)
  show ?thesis
  proof (cases "k \<in> set L")
    case True
    then have "?f R = P @ ?f L" using dist R by (auto intro: filter_True)
    moreover have "Suc (length (?f L)) = length L"
      using True dist by (intro length_filter_neq) auto
    ultimately show ?thesis
      using True full le unfolding L_def[symmetric]
      by (cases "P = []") (simp_all add: lru_step_def last_n_append_ge last_n_all)
  next
    case False
    then have fL: "?f L = L" by (auto intro: filter_True)
    show ?thesis
    proof (cases "length L = cap")
      case True
      then obtain l L' where L: "L = l # L'" using assms(2) by (cases L) auto
      have "last_n cap (?f P @ L @ [k]) = last_n cap (L' @ [k])"
        using True by (simp add: L last_n_append_ge[of cap "L' @ [k]" "?f P @ [l]", simplified])
      then show ?thesis using False True fL
        unfolding L_def[symmetric] by (simp add: R lru_step_def L last_n_all)
    next
      case F2: False
      then have "P = []" using full by auto
      with False F2 fL le show ?thesis
        unfolding L_def[symmetric] by (simp add: R lru_step_def last_n_all)
    qed
  qed
qed

locale lru_cache =
  fixes touch :: "'k \<Rightarrow> 'c \<Rightarrow> 'c"
    and cached :: "'c \<Rightarrow> 'k list"
    and cap :: nat
    and inv :: "'c \<Rightarrow> bool"
  assumes cap_pos: "0 < cap"
    and touch_inv: "inv c \<Longrightarrow> inv (touch k c)"
    and touch_step: "inv c \<Longrightarrow> cached (touch k c) = lru_step cap k (cached c)"
begin

lemma run_inv: "inv c \<Longrightarrow> inv (fold touch ks c)"
  by (induction ks arbitrary: c) (simp_all add: touch_inv)

text \<open>After any run, the cache holds the \<open>cap\<close> keys used last, oldest use first.\<close>

lemma run_cached:
  assumes "inv c" and "cached c = []"
  shows "cached (fold touch ks c) = last_n cap (remdups ks)"
proof (induction ks rule: rev_induct)
  case Nil
  then show ?case using assms by (simp add: last_n_def)
next
  case (snoc k ks)
  have "cached (fold touch (ks @ [k]) c) = lru_step cap k (cached (fold touch ks c))"
    using assms(1) by (simp add: touch_step run_inv)
  then show ?case
    by (simp add: snoc remdups_snoc lru_step_last_n cap_pos)
qed

lemma run_bounded:
  assumes "inv c" and "cached c = []"
  shows "length (cached (fold touch ks c)) \<le> cap"
  by (simp add: run_cached[OF assms] last_n_def)

end


subsection \<open>The socket cache is one\<close>

definition live_step :: "spoof_sock set \<Rightarrow> event \<Rightarrow> spoof_sock set" where
  "live_step L e = (case e of SpoofOpen s \<Rightarrow> insert s L | SpoofClose s \<Rightarrow> L - {s} | _ \<Rightarrow> L)"

text \<open>The sockets a trace has opened and not closed.\<close>

definition live_socks :: "event list \<Rightarrow> spoof_sock set" where
  "live_socks es = foldl live_step {} es"

lemma live_socks_snoc [simp]: "live_socks (es @ [e]) = live_step (live_socks es) e"
  by (simp add: live_socks_def)

lemma live_step_simps [simp]:
  "live_step L (SpoofOpen s) = insert s L" "live_step L (SpoofClose s) = L - {s}"
  "live_step L (TunnelSend p ip) = L" "live_step L (SpoofSend s p ip pt) = L"
  "live_step L (SpoofSendError s p ip pt) = L" "live_step L (HttpReq r) = L"
  by (simp_all add: live_step_def)

definition sock_entry_ok :: "nat \<Rightarrow> (string \<times> int) \<times> spoof_sock \<Rightarrow> bool" where
  "sock_entry_ok n e \<longleftrightarrow> sock_bound (snd e) \<in> {None, Some (fst e)} \<and> sock_id (snd e) < n"

definition spoof_inv :: "world \<Rightarrow> bool" where
  "spoof_inv w \<longleftrightarrow>
     distinct (map fst (spoof_sockets w))
     \<and> length (spoof_sockets w) \<le> MAX_SPOOF_SOCKETS
     \<and> list_all (sock_entry_ok (next_sock w)) (spoof_sockets w)
     \<and> distinct (map (sock_id \<circ> snd) (spoof_sockets w))
     \<and> live_socks (trace w) = snd ` set (spoof_sockets w)"

lemma spoof_inv_cong:
  "spoof_sockets v = spoof_sockets w \<Longrightarrow> next_sock v = next_sock w \<Longrightarrow>
   live_socks (trace v) = live_socks (trace w) \<Longrightarrow> spoof_inv v = spoof_inv w"
  by (simp add: spoof_inv_def)

lemma update_fresh: "k \<notin> fst ` set d \<Longrightarrow> AList.update k v d = d @ [(k, v)]"
  by (induction d) auto

lemma delete_split: "k \<notin> fst ` set xs \<Longrightarrow> k \<notin> fst ` set ys \<Longrightarrow>
    AList.delete k (xs @ (k, v) # ys) = xs @ ys"
  by (induction xs) (auto simp: delete_idem)

lemma map_of_split:
  assumes "map_of d k = Some v" and "distinct (map fst d)"
  obtains xs ys where "d = xs @ (k, v) # ys" "k \<notin> fst ` set xs" "k \<notin> fst ` set ys"
proof -
  from map_of_SomeD[OF assms(1)] obtain xs ys where d: "d = xs @ (k, v) # ys"
    by (auto dest: split_list)
  with assms(2) have "k \<notin> fst ` set xs" "k \<notin> fst ` set ys" by auto
  with d show ?thesis by (rule that)
qed

lemma list_all_sock_mono:
  "list_all (sock_entry_ok n) d \<Longrightarrow> n \<le> m \<Longrightarrow> list_all (sock_entry_ok m) d"
  by (auto simp: list_all_iff sock_entry_ok_def)

lemma MAX_pos [simp]: "0 < MAX_SPOOF_SOCKETS" "MAX_SPOOF_SOCKETS \<noteq> 0"
  by (simp_all add: MAX_SPOOF_SOCKETS_def)

text \<open>The state after a hit, and after a miss.\<close>

lemma get_spoof_sock_hit:
  "map_of (spoof_sockets w) (ip, port) = Some sock \<Longrightarrow>
   get_spoof_sock E ip port w =
     (Inr sock, w\<lparr>spoof_sockets := AList.delete (ip, port) (spoof_sockets w) @ [((ip, port), sock)]\<rparr>)"
  by (simp add: get_spoof_sock_def move_to_end_def Let_def py_run)

definition evicted :: "world \<Rightarrow> world" where
  "evicted w =
     (if MAX_SPOOF_SOCKETS \<le> length (spoof_sockets w)
      then emit (SpoofClose (snd (hd (spoof_sockets w)))) (w\<lparr>spoof_sockets := tl (spoof_sockets w)\<rparr>)
      else w)"

lemma evict_run: "evict_if_full w = (Inr (), evicted w)"
proof (cases "MAX_SPOOF_SOCKETS \<le> length (spoof_sockets w)")
  case True
  then obtain k s d where "spoof_sockets w = (k, s) # d"
    using MAX_pos by (cases "spoof_sockets w") auto
  with True show ?thesis by (simp add: evicted_def evict_if_full_def evict_oldest_def py_run)
qed (simp add: evicted_def evict_if_full_def py_run)

definition opened_sock :: "env \<Rightarrow> string \<times> int \<Rightarrow> world \<Rightarrow> spoof_sock" where
  "opened_sock E key w =
     (if bind_ok E (length (trace w)) key then SpoofSock (next_sock w) (Some key)
      else SpoofSock (Suc (next_sock w)) None)"

lemma open_spoof_sock_run:
  "open_spoof_sock E key w = (Inr (opened_sock E key w),
     (emit (SpoofOpen (opened_sock E key w)) w)\<lparr>next_sock := Suc (sock_id (opened_sock E key w))\<rparr>)"
  by (simp add: open_spoof_sock_def opened_sock_def Let_def pseq_def py_run)

lemma evicted_notin:
  "map_of (spoof_sockets w) k = None \<Longrightarrow> k \<notin> fst ` set (spoof_sockets (evicted w))"
proof -
  assume "map_of (spoof_sockets w) k = None"
  then have "k \<notin> fst ` set (spoof_sockets w)" by (simp add: map_of_eq_None_iff)
  moreover have "set (spoof_sockets (evicted w)) \<subseteq> set (spoof_sockets w)"
    by (cases "spoof_sockets w") (auto simp: evicted_def)
  ultimately show ?thesis by blast
qed

definition missed :: "env \<Rightarrow> string \<times> int \<Rightarrow> world \<Rightarrow> world" where
  "missed E key w =
     (let v = evicted w; sock = opened_sock E key v in
      (emit (SpoofOpen sock) v)
        \<lparr>next_sock := Suc (sock_id sock), spoof_sockets := spoof_sockets v @ [(key, sock)]\<rparr>)"

lemma get_spoof_sock_miss:
  assumes "map_of (spoof_sockets w) (ip, port) = None"
  shows "get_spoof_sock E ip port w =
    (Inr (opened_sock E (ip, port) (evicted w)), missed E (ip, port) w)"
  using assms
  by (simp add: get_spoof_sock_def Let_def pbind_pget pseq_pmod pseq_Inr[OF evict_run] pbind_Inr[OF open_spoof_sock_run]
      pret_run update_fresh[OF evicted_notin] missed_def)

lemma opened_sock_bound: "sock_bound (opened_sock E k w) \<in> {None, Some k}"
  and opened_sock_id: "next_sock w \<le> sock_id (opened_sock E k w)"
  by (simp_all add: opened_sock_def)

lemma evicted_inv:
  assumes "spoof_inv w"
  shows "spoof_inv (evicted w)" and "length (spoof_sockets (evicted w)) < MAX_SPOOF_SOCKETS"
proof -
  show "length (spoof_sockets (evicted w)) < MAX_SPOOF_SOCKETS"
    using assms MAX_pos by (auto simp: evicted_def spoof_inv_def)
  show "spoof_inv (evicted w)"
  proof (cases "spoof_sockets w")
    case Nil
    then have "evicted w = w" by (simp add: evicted_def)
    then show ?thesis using assms by simp
  next
    case (Cons e d)
    then have "snd e \<notin> snd ` set d"
      using assms by (auto simp: spoof_inv_def image_iff)
    then show ?thesis using assms Cons
      by (auto simp: evicted_def spoof_inv_def)
  qed
qed

lemma missed_inv:
  assumes "spoof_inv w" and "map_of (spoof_sockets w) k = None"
  shows "spoof_inv (missed E k w)"
proof -
  let ?v = "evicted w"
  let ?sock = "opened_sock E k ?v"
  have v: "spoof_inv ?v" "length (spoof_sockets ?v) < MAX_SPOOF_SOCKETS"
    using evicted_inv[OF assms(1)] by simp_all
  have "sock_id ?sock \<notin> (sock_id \<circ> snd) ` set (spoof_sockets ?v)"
    using v(1) opened_sock_id[of ?v E k]
    by (fastforce simp: spoof_inv_def list_all_iff sock_entry_ok_def)
  moreover have "list_all (sock_entry_ok (Suc (sock_id ?sock))) (spoof_sockets ?v)"
    using v(1) opened_sock_id[of ?v E k]
    by (auto simp: spoof_inv_def elim!: list_all_sock_mono)
  ultimately show ?thesis
    using v evicted_notin[OF assms(2)] opened_sock_bound[of E k ?v]
    by (auto simp: spoof_inv_def missed_def Let_def sock_entry_ok_def)
qed

lemma hit_inv:
  assumes "spoof_inv w" and "map_of (spoof_sockets w) k = Some sock"
  shows "spoof_inv (w\<lparr>spoof_sockets := AList.delete k (spoof_sockets w) @ [(k, sock)]\<rparr>)"
proof -
  obtain xs ys where d: "spoof_sockets w = xs @ (k, sock) # ys"
    and k: "k \<notin> fst ` set xs" "k \<notin> fst ` set ys"
    using map_of_split[OF assms(2)] assms(1) by (metis spoof_inv_def)
  show ?thesis
    using assms(1) by (auto simp: spoof_inv_def d delete_split[OF k])
qed

lemma get_spoof_sock_total: "\<exists>sock v. get_spoof_sock E ip port w = (Inr sock, v)"
  by (cases "map_of (spoof_sockets w) (ip, port)")
    (simp_all add: get_spoof_sock_hit get_spoof_sock_miss)

lemma get_spoof_sock_inv: "preserves spoof_inv (get_spoof_sock E ip port)"
proof (rule preservesI)
  fix w assume "spoof_inv w"
  then show "spoof_inv (snd (get_spoof_sock E ip port w))"
    by (cases "map_of (spoof_sockets w) (ip, port)")
      (simp_all add: get_spoof_sock_hit get_spoof_sock_miss hit_inv missed_inv)
qed

lemma cached_step:
  assumes "spoof_inv w"
  shows "map fst (spoof_sockets (snd (get_spoof_sock E ip port w)))
    = lru_step MAX_SPOOF_SOCKETS (ip, port) (map fst (spoof_sockets w))"
proof (cases "map_of (spoof_sockets w) (ip, port)")
  case None
  then have "(ip, port) \<notin> set (map fst (spoof_sockets w))"
    by (simp add: map_of_eq_None_iff)
  with None show ?thesis
    by (simp add: get_spoof_sock_miss missed_def Let_def lru_step_def evicted_def map_tl)
next
  case (Some sock)
  obtain xs ys where d: "spoof_sockets w = xs @ ((ip, port), sock) # ys"
    and k: "(ip, port) \<notin> fst ` set xs" "(ip, port) \<notin> fst ` set ys"
    using map_of_split[OF Some] assms by (metis spoof_inv_def)
  have "filter (\<lambda>j. j \<noteq> (ip, port)) (map fst xs) = map fst xs"
    "filter (\<lambda>j. j \<noteq> (ip, port)) (map fst ys) = map fst ys"
    using k by (auto intro!: filter_True)
  with Some show ?thesis
    by (simp add: get_spoof_sock_hit d delete_split[OF k] lru_step_def)
qed

interpretation spoof: lru_cache "\<lambda>k w. snd (get_spoof_sock E (fst k) (snd k) w)"
  "\<lambda>w. map fst (spoof_sockets w)" MAX_SPOOF_SOCKETS spoof_inv for E
  by unfold_locales
    (simp_all add: cached_step preservesD[OF get_spoof_sock_inv])

subsection \<open>Properties\<close>

text \<open>
  C31: The socket cache is an LRU cache of 512 sockets. After any sequence of uses from a
  fresh process it holds exactly the last 512 distinct keys in the order of their last use,
  and the sockets opened and not closed are exactly the cached ones: no descriptor leaks.
\<close>

theorem spoof_sockets_are_lru:
  "let w = fold (\<lambda>k w. snd (get_spoof_sock E (fst k) (snd k) w)) ks MeshProxy in
    map fst (spoof_sockets w) = last_n MAX_SPOOF_SOCKETS (remdups ks)
    \<and> length (spoof_sockets w) \<le> MAX_SPOOF_SOCKETS
    \<and> live_socks (trace w) = snd ` set (spoof_sockets w)"
proof -
  have inv: "spoof_inv MeshProxy" by (simp add: spoof_inv_def MeshProxy_def live_socks_def)
  have empty: "map fst (spoof_sockets MeshProxy) = []" by (simp add: MeshProxy_def)
  show ?thesis
    unfolding Let_def
    using spoof.run_cached[OF inv empty, of E ks] spoof.run_bounded[OF inv empty, of E ks]
      spoof.run_inv[OF inv, of E ks] by (simp add: spoof_inv_def)
qed

end
