(* ===== verification/Peers.thy ===== *)
theory Peers
  imports Spoof
begin

text \<open>
  The sending half of the reliable tunnel: \<open>get_peer\<close>, \<open>send_data\<close> (frame, send, keep for
  retransmission), \<open>send_plain\<close> (fire and forget) and the body of \<open>_retransmit_loop\<close> that
  resends what has waited longer than \<open>RETRY_TIMEOUT\<close>.
\<close>

subsection \<open>The code\<close>

definition get_peer :: "string \<Rightarrow> unit act" where
  "get_peer ip = pmod (\<lambda>w.
     case map_of (peers w) ip of Some _ \<Rightarrow> w
     | None \<Rightarrow> w\<lparr>peers := AList.update ip PeerState (peers w)\<rparr>)"

definition send_data :: "string \<Rightarrow> int \<Rightarrow> int \<Rightarrow> bytes \<Rightarrow> bytes \<Rightarrow> unit act" where
  "send_data peer_ip src_port dst_port target_ip_bytes payload =
     pbind (pget (\<lambda>w. send_seq (peer_of w peer_ip))) (\<lambda>seq.
     pbind (plift (data_header_pack (0, seq, src_port, dst_port, target_ip_bytes))) (\<lambda>header.
       let packet = header @ payload in
       pseq (tunnel_sendto packet peer_ip)
         (pmod (\<lambda>w. upd_peer peer_ip
            (\<lambda>p. p\<lparr>unacked := AList.update seq (clock w, packet) (unacked p), send_seq := seq + 1\<rparr>) w))))"

definition send_plain :: "string \<Rightarrow> int \<Rightarrow> int \<Rightarrow> bytes \<Rightarrow> bytes \<Rightarrow> unit act" where
  "send_plain peer_ip src_port dst_port target_ip_bytes payload =
     pbind (plift (data_header_pack (2, 0, src_port, dst_port, target_ip_bytes))) (\<lambda>header.
       tunnel_sendto (header @ payload) peer_ip)"

definition retransmit_one :: "int \<Rightarrow> string \<Rightarrow> int \<times> (int \<times> bytes) \<Rightarrow> unit act" where
  "retransmit_one now ip e =
     (case e of (seq, (timestamp, packet)) \<Rightarrow>
        if RETRY_TIMEOUT < now - timestamp then
          pbind (pget tunnel_transport) (\<lambda>up.
            if up then
              pseq (tunnel_sendto packet ip)
                (pmod (upd_peer ip (\<lambda>p. p\<lparr>unacked := AList.update seq (now, packet) (unacked p)\<rparr>)))
            else pret ())
        else pret ())"

definition retransmit_peers :: "int \<Rightarrow> unit act" where
  "retransmit_peers now =
     pbind (pget (\<lambda>w. map fst (peers w))) (pfor (\<lambda>ip.
       pbind (pget (\<lambda>w. unacked (peer_of w ip))) (pfor (retransmit_one now ip))))"

subsection \<open>Runs\<close>

definition ensured :: "string \<Rightarrow> world \<Rightarrow> world" where
  "ensured ip w =
     (case map_of (peers w) ip of Some _ \<Rightarrow> w
      | None \<Rightarrow> w\<lparr>peers := AList.update ip PeerState (peers w)\<rparr>)"

lemma get_peer_run [py_run]: "get_peer ip w = (Inr (), ensured ip w)"
  by (simp add: get_peer_def ensured_def pmod_run)

lemma get_peer_pmod: "get_peer ip = pmod (ensured ip)"
  by (rule ext) (simp add: get_peer_run pmod_run)

lemma ensured_fields [simp]:
  "spoof_sockets (ensured ip w) = spoof_sockets w" "tunnel_transport (ensured ip w) = tunnel_transport w"
  "snapshot_ctrl (ensured ip w) = snapshot_ctrl w" "is_server (ensured ip w) = is_server w"
  "local_sock (ensured ip w) = local_sock w" "clock (ensured ip w) = clock w"
  "trace (ensured ip w) = trace w" "next_sock (ensured ip w) = next_sock w"
  by (simp_all add: ensured_def split: option.split)

lemma peer_of_ensured [simp]: "peer_of (ensured ip w) jp = peer_of w jp"
  by (auto simp: ensured_def peer_of_def split: option.split)

lemma keys_ensured: "set (map fst (peers (ensured ip w))) = insert ip (set (map fst (peers w)))"
  using pydict.set_keys_put[of ip PeerState "peers w"]
  by (auto simp: ensured_def split: option.split dest: map_of_SomeD intro: rev_image_eqI)

lemma distinct_ensured:
  "distinct (map fst (peers w)) \<Longrightarrow> distinct (map fst (peers (ensured ip w)))"
  by (simp add: ensured_def split: option.split)

text \<open>What one \<open>send_data\<close> leaves: the packet sent, remembered, the number advanced.\<close>

definition sent_data :: "string \<Rightarrow> bytes \<Rightarrow> world \<Rightarrow> world" where
  "sent_data ip packet w =
     upd_peer ip (\<lambda>p. p\<lparr>unacked := AList.update (send_seq p) (clock w, packet) (unacked p),
                       send_seq := send_seq p + 1\<rparr>) (emit (TunnelSend packet ip) w)"

lemma send_data_run:
  assumes "tunnel_transport w"
    and "data_header_pack (0, send_seq (peer_of w ip), sp, dp, tip) = Inr header"
  shows "send_data ip sp dp tip payload w = (Inr (), sent_data ip (header @ payload) w)"
  using assms
  by (simp add: send_data_def tunnel_sendto_def Let_def pseq_def pbind_run pget_run pmod_run
      sent_data_def upd_peer_def del: data_header_pack.simps)

lemma send_data_ok:
  assumes "tunnel_transport w" and "data_header_ok (0, send_seq (peer_of w ip), sp, dp, tip)"
  shows "\<exists>header. data_header_pack (0, send_seq (peer_of w ip), sp, dp, tip) = Inr header
    \<and> send_data ip sp dp tip payload w = (Inr (), sent_data ip (header @ payload) w)"
  using data_codec.enc_ok[OF assms(2)] send_data_run[OF assms(1)] by blast

lemma send_data_cases:
  obtains (failed) e where "send_data ip sp dp tip payload w = (Inl e, w)"
  | (sent) header where "data_header_pack (0, send_seq (peer_of w ip), sp, dp, tip) = Inr header"
      and "send_data ip sp dp tip payload w = (Inr (), sent_data ip (header @ payload) w)"
proof (cases "data_header_pack (0, send_seq (peer_of w ip), sp, dp, tip)")
  case (Inl e)
  then have "send_data ip sp dp tip payload w = (Inl e, w)"
    by (simp add: send_data_def pbind_pget praise_run del: data_header_pack.simps)
  then show ?thesis by (rule failed)
next
  case (Inr header)
  show ?thesis
  proof (cases "tunnel_transport w")
    case True
    from send_data_run[OF this Inr] Inr show ?thesis by (intro sent)
  next
    case False
    then have "send_data ip sp dp tip payload w = (Inl AttributeError, w)"
      by (simp add: send_data_def pbind_pget Inr Let_def pseq_run tunnel_sendto_def praise_run
          del: data_header_pack.simps)
    then show ?thesis by (rule failed)
  qed
qed

lemma send_plain_run:
  assumes "tunnel_transport w" and "data_header_pack (2, 0, sp, dp, tip) = Inr header"
  shows "send_plain ip sp dp tip payload w = (Inr (), emit (TunnelSend (header @ payload) ip) w)"
  using assms
  by (simp add: send_plain_def tunnel_sendto_def pbind_run pget_run pmod_run
      del: data_header_pack.simps)

lemma sent_data_fields [simp]:
  "spoof_sockets (sent_data ip pk w) = spoof_sockets w"
  "tunnel_transport (sent_data ip pk w) = tunnel_transport w"
  "snapshot_ctrl (sent_data ip pk w) = snapshot_ctrl w" "is_server (sent_data ip pk w) = is_server w"
  "local_sock (sent_data ip pk w) = local_sock w" "clock (sent_data ip pk w) = clock w"
  "trace (sent_data ip pk w) = trace w @ [TunnelSend pk ip]" "next_sock (sent_data ip pk w) = next_sock w"
  by (simp_all add: sent_data_def)

lemma peer_of_sent_data [simp]:
  "peer_of (sent_data ip pk w) jp =
     (if jp = ip then (peer_of w ip)\<lparr>unacked := AList.update (send_seq (peer_of w ip)) (clock w, pk)
          (unacked (peer_of w ip)), send_seq := send_seq (peer_of w ip) + 1\<rparr>
      else peer_of w jp)"
  by (simp add: sent_data_def)

subsection \<open>Retransmission\<close>

definition due :: "int \<Rightarrow> int \<times> (int \<times> bytes) \<Rightarrow> bool" where
  "due now e \<longleftrightarrow> RETRY_TIMEOUT < now - fst (snd e)"

definition refresh :: "int \<Rightarrow> int \<times> (int \<times> bytes) \<Rightarrow> int \<times> (int \<times> bytes)" where
  "refresh now e = (if due now e then (fst e, (now, snd (snd e))) else e)"

text \<open>The packets of one peer that are resent, oldest entry first.\<close>

definition resends :: "int \<Rightarrow> string \<times> peer_state \<Rightarrow> event list" where
  "resends now x = [TunnelSend (snd (snd e)) (fst x). e \<leftarrow> unacked (snd x), due now e]"

definition refresh_peer :: "int \<Rightarrow> string \<times> peer_state \<Rightarrow> string \<times> peer_state" where
  "refresh_peer now x = (fst x, (snd x)\<lparr>unacked := map (refresh now) (unacked (snd x))\<rparr>)"

lemma update_middle:
  "k \<notin> fst ` set xs \<Longrightarrow> AList.update k v (xs @ (k, u) # ys) = xs @ (k, v) # ys"
  by (induction xs) auto

lemma peer_of_middle:
  "peers w = xs @ (ip, p) # ys \<Longrightarrow> ip \<notin> fst ` set xs \<Longrightarrow> peer_of w ip = p"
proof -
  assume "peers w = xs @ (ip, p) # ys" and "ip \<notin> fst ` set xs"
  moreover from this have "map_of xs ip = None" by (simp add: map_of_eq_None_iff)
  ultimately show ?thesis by (simp add: peer_of_def map_add_def)
qed

lemma retransmit_unacked:
  assumes "tunnel_transport w" and "ip \<notin> fst ` set xs"
    and "peers w = xs @ (ip, p\<lparr>unacked := us @ es\<rparr>) # ys" and "distinct (map fst (us @ es))"
  shows "pfor (retransmit_one now ip) es w =
    (Inr (), w\<lparr>peers := xs @ (ip, p\<lparr>unacked := us @ map (refresh now) es\<rparr>) # ys,
       trace := trace w @ [TunnelSend (snd (snd e)) ip. e \<leftarrow> es, due now e]\<rparr>)"
  using assms
proof (induction es arbitrary: us w)
  case Nil
  then show ?case by (simp add: pret_run)
next
  case (Cons e es)
  obtain seq ts pk where e: "e = (seq, ts, pk)" by (cases e)
  have fresh: "seq \<notin> fst ` set us" using Cons.prems(4) by (auto simp: e)
  show ?case
  proof (cases "due now e")
    case True
    let ?v = "w\<lparr>peers := xs @ (ip, p\<lparr>unacked := (us @ [(seq, now, pk)]) @ es\<rparr>) # ys,
      trace := trace w @ [TunnelSend pk ip]\<rparr>"
    have step: "retransmit_one now ip e w = (Inr (), ?v)"
      using True Cons.prems(1-3) fresh
      by (simp add: retransmit_one_def e due_def tunnel_sendto_def pseq_def pbind_run pget_run
          pmod_run upd_peer_def emit_def peer_of_middle update_middle)
    have "pfor (retransmit_one now ip) (e # es) w = pfor (retransmit_one now ip) es ?v"
      by (simp add: pseq_def pbind_run step)
    also have "\<dots> = (Inr (), ?v\<lparr>peers := xs @ (ip, p\<lparr>unacked := (us @ [(seq, now, pk)])
        @ map (refresh now) es\<rparr>) # ys,
        trace := trace ?v @ [TunnelSend (snd (snd e)) ip. e \<leftarrow> es, due now e]\<rparr>)"
      by (rule Cons.IH) (use Cons.prems in \<open>auto simp: e\<close>)
    finally show ?thesis using True by (simp add: refresh_def e)
  next
    case False
    then have step: "retransmit_one now ip e w = (Inr (), w)"
      by (simp add: retransmit_one_def e due_def pret_run)
    have "pfor (retransmit_one now ip) es w =
        (Inr (), w\<lparr>peers := xs @ (ip, p\<lparr>unacked := (us @ [e]) @ map (refresh now) es\<rparr>) # ys,
        trace := trace w @ [TunnelSend (snd (snd e)) ip. e \<leftarrow> es, due now e]\<rparr>)"
      by (rule Cons.IH) (use Cons.prems in \<open>auto simp: e\<close>)
    with False show ?thesis by (simp add: pseq_def pbind_run step refresh_def)
  qed
qed

lemma retransmit_suffix:
  assumes "tunnel_transport w" and "peers w = xs @ ys" and "distinct (map fst (xs @ ys))"
    and "\<And>x. x \<in> set ys \<Longrightarrow> distinct (map fst (unacked (snd x)))"
  shows "pfor (\<lambda>ip. pbind (pget (\<lambda>w. unacked (peer_of w ip))) (pfor (retransmit_one now ip)))
      (map fst ys) w =
    (Inr (), w\<lparr>peers := xs @ map (refresh_peer now) ys,
       trace := trace w @ concat (map (resends now) ys)\<rparr>)"
  using assms
proof (induction ys arbitrary: xs w)
  case Nil
  then show ?case by (simp add: pret_run)
next
  case (Cons y ys)
  obtain ip p where y: "y = (ip, p)" by (cases y)
  let ?f = "\<lambda>ip. pbind (pget (\<lambda>w. unacked (peer_of w ip))) (pfor (retransmit_one now ip))"
  let ?v = "w\<lparr>peers := (xs @ [refresh_peer now y]) @ ys, trace := trace w @ resends now y\<rparr>"
  have ip: "ip \<notin> fst ` set xs" using Cons.prems(3) by (auto simp: y)
  have up: "peer_of w ip = p"
    using Cons.prems(2) ip by (intro peer_of_middle) (simp_all add: y)
  have "pfor (retransmit_one now ip) (unacked p) w =
      (Inr (), w\<lparr>peers := xs @ (ip, p\<lparr>unacked := [] @ map (refresh now) (unacked p)\<rparr>) # ys,
       trace := trace w @ [TunnelSend (snd (snd e)) ip. e \<leftarrow> unacked p, due now e]\<rparr>)"
    by (rule retransmit_unacked) (use Cons.prems(1-3) Cons.prems(4)[of y] ip in \<open>auto simp: y\<close>)
  then have step: "?f ip w = (Inr (), ?v)"
    by (simp add: up y refresh_peer_def resends_def pbind_pget cong: if_cong)
  have "pfor ?f (map fst (y # ys)) w = pfor ?f (map fst ys) ?v"
    using step by (simp add: y pseq_def pbind_run)
  also have "\<dots> = (Inr (), ?v\<lparr>peers := (xs @ [refresh_peer now y]) @ map (refresh_peer now) ys,
      trace := trace ?v @ concat (map (resends now) ys)\<rparr>)"
    by (rule Cons.IH) (use Cons.prems in \<open>auto simp: y refresh_peer_def\<close>)
  finally show ?case by simp
qed

text \<open>The whole pass: exactly the overdue packets go out again, with a new timestamp.\<close>

lemma retransmit_peers_run:
  assumes "tunnel_transport w" and "distinct (map fst (peers w))"
    and "\<And>x. x \<in> set (peers w) \<Longrightarrow> distinct (map fst (unacked (snd x)))"
  shows "retransmit_peers now w =
    (Inr (), w\<lparr>peers := map (refresh_peer now) (peers w),
       trace := trace w @ concat (map (resends now) (peers w))\<rparr>)"
  unfolding retransmit_peers_def
  by (subst pbind_pget) (use retransmit_suffix[of w "[]" "peers w" now] assms in simp)

end
