(* ===== verification/Forward.thy ===== *)
theory Forward
  imports Peers
begin

text \<open>
  From the local application to the network: where an intercepted datagram was going
  (\<open>IP_RECVORIGDSTADDR\<close>), the routing decision of \<open>_forward_intercepted\<close> (reliable tunnel
  between members, plain tunnel to the rest of the mesh, spoofed direct send outside), and
  the synchronous drain of the intercept socket that a snapshot begins with.
\<close>

subsection \<open>The code\<close>

text \<open>
  The loop over the ancillary data, up to its \<open>break\<close>: the original (ip, port), if any
  item carries one. Too short an item raises in \<open>struct.unpack\<close> or in \<open>inet_ntoa\<close>.
\<close>

fun orig_dst :: "(int \<times> int \<times> bytes) list \<Rightarrow> exn + (string \<times> int) option" where
  "orig_dst [] = Inr None"
| "orig_dst ((cmsg_level, cmsg_type, cmsg_data) # rest) =
     (if cmsg_level = SOL_IP \<and> cmsg_type = IP_RECVORIGDSTADDR then
        (let port = take 2 (drop 2 cmsg_data) in
         if length port = 2 then
           (case inet_ntoa (take 4 (drop 4 cmsg_data)) of Inl e \<Rightarrow> Inl e
            | Inr ip \<Rightarrow> Inr (Some (ip, be_int port)))
         else Inl StructError)
      else orig_dst rest)"

definition use_rudp :: "env \<Rightarrow> world \<Rightarrow> string \<Rightarrow> bool" where
  "use_rudp E w peer_ip \<longleftrightarrow> is_server w \<and> peer_ip \<in> set (MESH_MEMBERS E)"

definition forward_to :: "env \<Rightarrow> bytes \<Rightarrow> string \<times> int \<Rightarrow> string \<Rightarrow> int \<Rightarrow> unit act" where
  "forward_to E data addr target_ip target_port =
     pbind (plift (in_mesh_network target_ip)) (\<lambda>in_mesh.
       if in_mesh then
         pbind (plift (inet_aton target_ip)) (\<lambda>target_ip_bytes.
         pbind (pget (\<lambda>w. use_rudp E w target_ip)) (\<lambda>rudp.
           if rudp then
             pseq (get_peer target_ip)
               (send_data target_ip (snd addr) target_port target_ip_bytes data)
           else send_plain target_ip (snd addr) target_port target_ip_bytes data))
       else
         pbind (get_spoof_sock E (fst addr) (snd addr)) (\<lambda>spoof_sock.
           spoof_sendto E spoof_sock data (target_ip, target_port)))"

definition forward_intercepted ::
    "env \<Rightarrow> bytes \<Rightarrow> (int \<times> int \<times> bytes) list \<Rightarrow> string \<times> int \<Rightarrow> unit act" where
  "forward_intercepted E data ancdata addr =
     pbind (plift (orig_dst ancdata)) (\<lambda>target.
       case target of
         None \<Rightarrow> pret ()
       | Some (target_ip, target_port) \<Rightarrow>
           if target_ip \<noteq> [] \<and> target_port \<noteq> 0 then forward_to E data addr target_ip target_port
           else pret ())"

text \<open>\<open>recvmsg\<close> on the non-blocking socket: \<open>None\<close> is \<open>BlockingIOError\<close>.\<close>

definition recvmsg :: "intercepted option act" where
  "recvmsg =
     pbind (pget local_sock) (\<lambda>q.
       case q of [] \<Rightarrow> pret None
       | d # ds \<Rightarrow> pseq (pmod (\<lambda>w. w\<lparr>local_sock := ds\<rparr>)) (pret (Some d)))"

text \<open>
  The loop of \<open>drain_intercept\<close>, with a bound on its iterations: each takes one datagram
  off the queue, so the length of the queue and one more for the empty read are enough
  (\<open>drain_intercept_empties\<close>).
\<close>

fun drain_loop :: "env \<Rightarrow> nat \<Rightarrow> unit act" where
  "drain_loop E 0 = praise RecursionError"
| "drain_loop E (Suc n) =
     pbind recvmsg (\<lambda>d.
       case d of None \<Rightarrow> pret ()
       | Some (data, ancdata, addr) \<Rightarrow>
           pseq (forward_intercepted E data ancdata addr) (drain_loop E n))"

definition drain_intercept :: "env \<Rightarrow> unit act" where
  "drain_intercept E =
     pbind (pget (\<lambda>w. length (local_sock w))) (\<lambda>n. drain_loop E (Suc n))"

subsection \<open>What these operations leave alone\<close>

text \<open>The receive side of every peer.\<close>

definition rx_of :: "world \<Rightarrow> string \<Rightarrow> int \<times> (int \<times> buffered) list" where
  "rx_of w ip = (recv_seq (peer_of w ip), recv_buffer (peer_of w ip))"

text \<open>All that forwarding and delivering never touch.\<close>

definition still :: "world \<Rightarrow> (string \<Rightarrow> int \<times> (int \<times> buffered) list) \<times> bool \<times> bool" where
  "still w = (rx_of w, tunnel_transport w, is_server w)"

lemma still_eqI:
  "(\<And>ip. rx_of v ip = rx_of w ip) \<Longrightarrow> tunnel_transport v = tunnel_transport w \<Longrightarrow>
   is_server v = is_server w \<Longrightarrow> still v = still w"
  by (simp add: still_def fun_eq_iff)

lemma still_simps [simp]:
  "still (emit e w) = still w" "still (upd_ctrl f w) = still w" "still (ensured ip w) = still w"
  "still (sent_data ip pk w) = still w" "still (w\<lparr>spoof_sockets := d\<rparr>) = still w"
  "still (w\<lparr>next_sock := n\<rparr>) = still w" "still (w\<lparr>local_sock := q\<rparr>) = still w"
  "still (w\<lparr>clock := t\<rparr>) = still w"
  by (simp_all add: still_def rx_of_def fun_eq_iff)

lemma still_upd_peer [simp]:
  assumes "\<And>p. recv_seq (f p) = recv_seq p" and "\<And>p. recv_buffer (f p) = recv_buffer p"
  shows "still (upd_peer ip f w) = still w"
  using assms by (simp add: still_def rx_of_def fun_eq_iff)

text \<open>Dict keys of the peer table and of each peer's two tables are distinct.\<close>

definition peer_ok :: "peer_state \<Rightarrow> bool" where
  "peer_ok p \<longleftrightarrow> distinct (map fst (unacked p)) \<and> distinct (map fst (recv_buffer p))"

definition peers_inv :: "world \<Rightarrow> bool" where
  "peers_inv w \<longleftrightarrow> distinct (map fst (peers w)) \<and> (\<forall>ip. peer_ok (peer_of w ip))"

definition base_inv :: "world \<Rightarrow> bool" where
  "base_inv w \<longleftrightarrow> spoof_inv w \<and> peers_inv w"

lemma peers_inv_cong: "peers v = peers w \<Longrightarrow> peers_inv v = peers_inv w"
  by (simp add: peers_inv_def peer_of_def)

lemma base_inv_ctrl [simp]: "base_inv (upd_ctrl f w) = base_inv w"
  and base_inv_clock [simp]: "base_inv (w\<lparr>clock := t\<rparr>) = base_inv w"
  and base_inv_local_sock [simp]: "base_inv (w\<lparr>local_sock := q\<rparr>) = base_inv w"
  by (simp_all add: base_inv_def spoof_inv_def peers_inv_def)

lemma base_inv_emit [simp]:
  "base_inv (emit (TunnelSend pk ip) w) = base_inv w"
  "base_inv (emit (SpoofSend sock pk ip port) w) = base_inv w"
  "base_inv (emit (SpoofSendError sock pk ip port) w) = base_inv w"
  "base_inv (emit (HttpReq req) w) = base_inv w"
  by (simp_all add: base_inv_def spoof_inv_def peers_inv_def)

lemma peer_ok_PeerState [simp]: "peer_ok PeerState"
  by (simp add: peer_ok_def PeerState_def)

lemma base_inv_ensured [simp]: "base_inv w \<Longrightarrow> base_inv (ensured ip w)"
  by (simp add: base_inv_def spoof_inv_def peers_inv_def distinct_ensured)

lemma base_inv_upd_peer:
  "base_inv w \<Longrightarrow> (\<And>p. peer_ok p \<Longrightarrow> peer_ok (f p)) \<Longrightarrow> base_inv (upd_peer ip f w)"
  by (simp add: base_inv_def spoof_inv_def peers_inv_def distinct_upd_peer)

lemma base_inv_sent_data [simp]: "base_inv w \<Longrightarrow> base_inv (sent_data ip pk w)"
  unfolding sent_data_def by (rule base_inv_upd_peer) (simp_all add: peer_ok_def)

lemma base_inv_MeshProxy: "base_inv MeshProxy"
  by (simp add: base_inv_def spoof_inv_def peers_inv_def MeshProxy_def peer_of_def live_socks_def)

text \<open>The predicate the next lemmas carry through every operation of this theory.\<close>

definition frame :: "controller \<Rightarrow> (string \<Rightarrow> int \<times> (int \<times> buffered) list) \<times> bool \<times> bool \<Rightarrow> world \<Rightarrow> bool" where
  "frame c s w \<longleftrightarrow> snapshot_ctrl w = c \<and> still w = s \<and> base_inv w"

lemma frameI: "base_inv w \<Longrightarrow> frame (snapshot_ctrl w) (still w) w"
  by (simp add: frame_def)

lemma get_peer_frame [preserves_intro]: "preserves (frame c s) (get_peer ip)"
  unfolding get_peer_pmod by (rule preserves_pmod) (simp add: frame_def)

lemma tunnel_sendto_frame [preserves_intro]: "preserves (frame c s) (tunnel_sendto pk ip)"
  unfolding tunnel_sendto_def by (intro preserves_intro preserves_pmod) (simp add: frame_def)

lemma send_data_frame [preserves_intro]: "preserves (frame c s) (send_data ip sp dp tip p)"
  unfolding send_data_def Let_def
  by (intro preserves_intro preserves_pmod)
    (auto simp: frame_def peer_ok_def intro!: base_inv_upd_peer)

lemma send_plain_frame [preserves_intro]: "preserves (frame c s) (send_plain ip sp dp tip p)"
  unfolding send_plain_def by (intro preserves_intro)

lemma get_spoof_sock_peers: "peers (snd (get_spoof_sock E ip port w)) = peers w"
  and get_spoof_sock_ctrl: "snapshot_ctrl (snd (get_spoof_sock E ip port w)) = snapshot_ctrl w"
  and get_spoof_sock_still: "still (snd (get_spoof_sock E ip port w)) = still w"
  by (cases "map_of (spoof_sockets w) (ip, port)";
      simp add: get_spoof_sock_hit get_spoof_sock_miss missed_def evicted_def Let_def)+

lemma get_spoof_sock_frame [preserves_intro]: "preserves (frame c s) (get_spoof_sock E ip port)"
proof (rule preservesI)
  fix w assume "frame c s w"
  then show "frame c s (snd (get_spoof_sock E ip port w))"
    using preservesD[OF get_spoof_sock_inv, of w E ip port]
      peers_inv_cong[OF get_spoof_sock_peers[of E ip port w]]
    by (simp add: frame_def base_inv_def get_spoof_sock_ctrl get_spoof_sock_still)
qed

lemma spoof_sendto_frame [preserves_intro]: "preserves (frame c s) (spoof_sendto E sock p addr)"
  unfolding spoof_sendto_def by (intro preserves_intro preserves_pmod) (simp_all add: frame_def)

lemma forward_to_frame [preserves_intro]: "preserves (frame c s) (forward_to E d addr ip port)"
  unfolding forward_to_def by (intro preserves_intro)

lemma forward_intercepted_frame [preserves_intro]:
  "preserves (frame c s) (forward_intercepted E d anc addr)"
  unfolding forward_intercepted_def by (intro preserves_intro)

lemma recvmsg_frame [preserves_intro]: "preserves (frame c s) recvmsg"
  unfolding recvmsg_def by (intro preserves_intro preserves_pmod) (simp add: frame_def)

lemma drain_loop_frame [preserves_intro]: "preserves (frame c s) (drain_loop E n)"
  by (induction n) (auto intro!: preserves_intro)

lemma drain_intercept_frame [preserves_intro]: "preserves (frame c s) (drain_intercept E)"
  unfolding drain_intercept_def by (intro preserves_intro)


subsection \<open>The drain is a pass over the queue\<close>

lemma get_spoof_sock_queue [preserves_intro]:
  "preserves (\<lambda>w. local_sock w = q) (get_spoof_sock E ip port)"
proof (rule preservesI)
  fix w :: world assume "local_sock w = q"
  then show "local_sock (snd (get_spoof_sock E ip port w)) = q"
    by (cases "map_of (spoof_sockets w) (ip, port)")
      (simp_all add: get_spoof_sock_hit get_spoof_sock_miss missed_def evicted_def Let_def)
qed

lemma forward_intercepted_queue:
  "preserves (\<lambda>w. local_sock w = q) (forward_intercepted E d anc addr)"
  unfolding forward_intercepted_def forward_to_def send_data_def send_plain_def tunnel_sendto_def
    spoof_sendto_def get_peer_pmod Let_def
  by (intro preserves_intro preserves_pmod) simp_all

definition take_forward :: "env \<Rightarrow> intercepted \<Rightarrow> unit act" where
  "take_forward E d =
     pseq (pmod (\<lambda>w. w\<lparr>local_sock := tl (local_sock w)\<rparr>))
       (case d of (data, ancdata, addr) \<Rightarrow> forward_intercepted E data ancdata addr)"

lemma drain_loop_pfor:
  "local_sock w = q \<Longrightarrow> length q \<le> n \<Longrightarrow> drain_loop E (Suc n) w = pfor (take_forward E) q w"
proof (induction q arbitrary: n w)
  case Nil
  then show ?case by (simp add: recvmsg_def py_run)
next
  case (Cons d q)
  obtain data anc addr where d: "d = (data, anc, addr)" by (cases d)
  let ?v = "w\<lparr>local_sock := q\<rparr>"
  obtain m where n: "n = Suc m" and m: "length q \<le> m" using Cons.prems(2) by (cases n) auto
  have recv: "recvmsg w = (Inr (Some d), ?v)"
    using Cons.prems(1) by (simp add: recvmsg_def py_run)
  obtain r u where fwd: "forward_intercepted E data anc addr ?v = (r, u)" by fastforce
  have q: "local_sock u = q"
    using preserves_runD[OF forward_intercepted_queue _ fwd, of q] by simp
  have tl: "take_forward E d w = (r, u)"
    using Cons.prems(1) fwd by (simp add: take_forward_def d pseq_pmod)
  have "drain_loop E (Suc n) w = pseq (forward_intercepted E data anc addr) (drain_loop E n) ?v"
    by (simp add: pbind_run recv d)
  also have "\<dots> = pseq (take_forward E d) (pfor (take_forward E) q) w"
    using Cons.IH[OF q m] by (simp add: pseq_run fwd tl n split: sum.split del: drain_loop.simps)
  finally show ?case by simp
qed

lemma drain_intercept_pfor:
  "drain_intercept E w = pfor (take_forward E) (local_sock w) w"
  by (simp add: drain_intercept_def pbind_pget drain_loop_pfor del: drain_loop.simps)

text \<open>
  What does not look at the intercept queue and leaves it alone does the same on any queue.
\<close>

definition queue_blind :: "'a act \<Rightarrow> bool" where
  "queue_blind m \<longleftrightarrow> (\<forall>w q. m (w\<lparr>local_sock := q\<rparr>) = (fst (m w), (snd (m w))\<lparr>local_sock := q\<rparr>))"

named_theorems blind_intro

lemma blind_basic [blind_intro]:
  "queue_blind (pret x)" "queue_blind (praise e)" "queue_blind (plift r)"
  by (simp_all add: queue_blind_def py_run)

lemma blind_pget: "(\<And>w q. f (w\<lparr>local_sock := q\<rparr>) = f w) \<Longrightarrow> queue_blind (pget f)"
  by (simp add: queue_blind_def py_run)

lemma blind_pmod: "(\<And>w q. f (w\<lparr>local_sock := q\<rparr>) = (f w)\<lparr>local_sock := q\<rparr>) \<Longrightarrow> queue_blind (pmod f)"
  by (simp add: queue_blind_def py_run)

lemma blind_pbind [blind_intro]:
  assumes "queue_blind m" and "\<And>x. queue_blind (k x)"
  shows "queue_blind (pbind m k)"
  unfolding queue_blind_def
proof (intro allI)
  fix w :: world and q
  obtain r u where run: "m w = (r, u)" by fastforce
  then have "m (w\<lparr>local_sock := q\<rparr>) = (r, u\<lparr>local_sock := q\<rparr>)"
    using assms(1) by (simp add: queue_blind_def)
  with run assms(2) show "pbind m k (w\<lparr>local_sock := q\<rparr>)
      = (fst (pbind m k w), (snd (pbind m k w))\<lparr>local_sock := q\<rparr>)"
    by (cases r) (simp_all add: pbind_run queue_blind_def)
qed

lemma blind_pseq [blind_intro]: "queue_blind m \<Longrightarrow> queue_blind n \<Longrightarrow> queue_blind (pseq m n)"
  by (simp add: pseq_def blind_pbind)

lemma blind_cases [blind_intro]:
  "(b \<Longrightarrow> queue_blind m) \<Longrightarrow> (\<not> b \<Longrightarrow> queue_blind n) \<Longrightarrow> queue_blind (if b then m else n)"
  "(x = None \<Longrightarrow> queue_blind m) \<Longrightarrow> (\<And>y. x = Some y \<Longrightarrow> queue_blind (f y)) \<Longrightarrow>
   queue_blind (case x of None \<Rightarrow> m | Some y \<Rightarrow> f y)"
  "(\<And>a b. p = (a, b) \<Longrightarrow> queue_blind (g a b)) \<Longrightarrow> queue_blind (case p of (a, b) \<Rightarrow> g a b)"
  "(xs = [] \<Longrightarrow> queue_blind m) \<Longrightarrow> (\<And>y ys. xs = y # ys \<Longrightarrow> queue_blind (h y ys)) \<Longrightarrow>
   queue_blind (case xs of [] \<Rightarrow> m | y # ys \<Rightarrow> h y ys)"
  by (simp_all split: option.split prod.split list.split)

lemma blind_get_spoof_sock [blind_intro]: "queue_blind (get_spoof_sock E ip port)"
  unfolding get_spoof_sock_def evict_if_full_def evict_oldest_def open_spoof_sock_def Let_def
  by (intro blind_intro blind_pget blind_pmod) (simp_all add: emit_def)

lemma blind_sends [blind_intro]:
  "queue_blind (spoof_sendto E sock p addr)" "queue_blind (tunnel_sendto pk ip)" "queue_blind (get_peer ip)"
  unfolding spoof_sendto_def tunnel_sendto_def get_peer_def
  by (intro blind_intro blind_pget blind_pmod; simp add: emit_def split: option.split)+

lemma forward_intercepted_blind: "queue_blind (forward_intercepted E d anc addr)"
proof -
  have peer: "peer_of (w\<lparr>local_sock := q\<rparr>) ip = peer_of w ip" for w q ip by (simp add: peer_of_def)
  have "queue_blind (send_data ip sp dp tip p)" for ip sp dp tip p
    unfolding send_data_def Let_def
    by (intro blind_intro blind_pget blind_pmod) (simp_all add: peer upd_peer_def)
  moreover have "queue_blind (send_plain ip sp dp tip p)" for ip sp dp tip p
    unfolding send_plain_def by (intro blind_intro)
  ultimately show ?thesis
    unfolding forward_intercepted_def forward_to_def
    by (intro blind_intro blind_pget) (simp_all add: use_rudp_def)
qed

lemma pfor_take_forward_queue:
  "local_sock w = q @ r \<Longrightarrow> pfor (take_forward E) q w = (Inr (), v) \<Longrightarrow> local_sock v = r"
proof (induction q arbitrary: w)
  case Nil
  then show ?case by (simp add: pret_run)
next
  case (Cons d q)
  obtain data anc addr where d: "d = (data, anc, addr)" by (cases d)
  from Cons.prems(2) obtain u where fwd: "take_forward E d w = (Inr (), u)"
    and rest: "pfor (take_forward E) q u = (Inr (), v)"
    by (auto elim: pseq_InrD)
  have "forward_intercepted E data anc addr (w\<lparr>local_sock := q @ r\<rparr>) = (Inr (), u)"
    using fwd Cons.prems(1) by (simp add: take_forward_def d pseq_pmod)
  then have "local_sock u = q @ r"
    by (rule preserves_runD[OF forward_intercepted_queue, rotated]) simp
  then show ?case using rest by (rule Cons.IH)
qed

lemma drain_intercept_empties: "drain_intercept E w = (Inr (), v) \<Longrightarrow> local_sock v = []"
  by (rule pfor_take_forward_queue[of w "local_sock w" "[]"])
    (simp_all add: drain_intercept_pfor)

end
