(* ===== verification/Controller.thy ===== *)
theory Controller
  imports Forward "HOL-Library.List_Lexorder" "HOL-Library.Char_ord"
begin

text \<open>
  \<^verbatim>\<open>proxy/snapshot_handler.py\<close>: the Chandy-Lamport controller of one sidecar, and
  \<open>MeshProxy.process_and_deliver\<close>, which the controller calls back when it replays what it
  recorded. The two call each other, so the controller's operations take the delivery
  function as an argument and \<open>process_message\<close> ties the knot with a bound on the nesting,
  Python's recursion limit cut down to the two levels the code can reach.
\<close>

subsection \<open>The code: who am I, and the application checkpoint\<close>

definition self_mesh_ip :: "env \<Rightarrow> string option act" where
  "self_mesh_ip E =
     (case MESH_SELF E of
        Some (c # cs) \<Rightarrow> pret (Some (c # cs))
      | _ \<Rightarrow>
          pbind (pget (\<lambda>w. self_ip_cache (snapshot_ctrl w))) (\<lambda>cache.
            case cache of
              Some ip \<Rightarrow> pret (Some ip)
            | None \<Rightarrow>
                (case MESH_MEMBERS E of
                   [] \<Rightarrow> pret None
                 | m # _ \<Rightarrow>
                     (case route_src E m of
                        None \<Rightarrow> pret None
                      | Some ip \<Rightarrow>
                          pseq (pmod (upd_ctrl (\<lambda>c. c\<lparr>self_ip_cache := Some ip\<rparr>)))
                            (pret (Some ip))))))"

definition container_id :: "env \<Rightarrow> string" where
  "container_id E = (case CHECKPOINT_TARGET E of Some (c # cs) \<Rightarrow> c # cs | _ \<Rightarrow> hostname E)"

definition checkpoint_req :: "env \<Rightarrow> string \<Rightarrow> http_req" where
  "checkpoint_req E snapshot_id =
     PostCheckpoint (container_id E)
       (''/tmp/snapshot-'' @ snapshot_id @ ''-'' @ container_id E @ ''.tar.zst'')"

text \<open>A failed checkpoint is logged and swallowed: the result of the request is ignored.\<close>

definition trigger_app_snapshot :: "env \<Rightarrow> string \<Rightarrow> unit act" where
  "trigger_app_snapshot E snapshot_id =
     pseq (http_call E (checkpoint_req E snapshot_id)) (pret ())"

subsection \<open>The code: the artifact\<close>

definition json_opt_int :: "int option \<Rightarrow> json" where
  "json_opt_int x = (case x of None \<Rightarrow> JNull | Some n \<Rightarrow> JInt n)"

definition msg_json :: "recorded_msg \<Rightarrow> json" where
  "msg_json m = JObj
     [(''seq'', JInt (m_seq m)),
      (''payload_b64'', JStr (b64encode (m_payload m))),
      (''src_port'', JInt (m_src_port m)),
      (''dst_port'', JInt (m_dst_port m)),
      (''target_local_ip'', JStr (m_target_local_ip m))]"

definition channel_of :: "controller \<Rightarrow> string \<Rightarrow> recorded_msg list" where
  "channel_of c ip = (case map_of (channel_states c) ip of None \<Rightarrow> [] | Some ms \<Rightarrow> ms)"

definition peer_json :: "controller \<Rightarrow> string \<Rightarrow> json" where
  "peer_json c peer = JObj
     [(''send_seq'', json_opt_int (map_of (recorded_send_seq c) peer)),
      (''recv_seq'', json_opt_int (map_of (recorded_recv_seq c) peer)),
      (''channel'', JArr (map msg_json (channel_of c peer)))]"

definition artifact_peers :: "controller \<Rightarrow> string list" where
  "artifact_peers c =
     sort (remdups (map fst (recorded_send_seq c) @ map fst (recorded_recv_seq c)
       @ map fst (channel_states c)))"

definition snapshot_id_json :: "controller \<Rightarrow> exn + json" where
  "snapshot_id_json c =
     (case current_snapshot_id c of
        Some (b # bs) \<Rightarrow> (case decode (b # bs) of Inl e \<Rightarrow> Inl e | Inr s \<Rightarrow> Inr (JStr s))
      | _ \<Rightarrow> Inr JNull)"

definition build_artifact :: "env \<Rightarrow> string \<Rightarrow> controller \<Rightarrow> exn + json" where
  "build_artifact E status c =
     (case snapshot_id_json c of Inl e \<Rightarrow> Inl e
      | Inr sid \<Rightarrow> Inr (JObj
          [(''snapshot_id'', sid),
           (''node'', JStr (container_id E)),
           (''status'', JStr status),
           (''peers'', JObj (map (\<lambda>peer. (peer, peer_json c peer)) (artifact_peers c)))]))"

definition post_artifact :: "env \<Rightarrow> json \<Rightarrow> bool act" where
  "post_artifact E artifact = http_call E (PostSnapshotState artifact)"

subsection \<open>The code: end of a snapshot\<close>

text \<open>The type of \<open>process_and_deliver(seq, payload, ip, src_port, dst_port, target_local_ip)\<close>.\<close>

type_synonym delivery = "int \<Rightarrow> bytes \<Rightarrow> string \<Rightarrow> int \<Rightarrow> int \<Rightarrow> string \<Rightarrow> unit act"

definition deliver_msg :: "delivery \<Rightarrow> string \<Rightarrow> recorded_msg \<Rightarrow> unit act" where
  "deliver_msg deliver ip m =
     deliver (m_seq m) (m_payload m) ip (m_src_port m) (m_dst_port m) (m_target_local_ip m)"

definition reset_ctrl :: "controller \<Rightarrow> controller" where
  "reset_ctrl c = c\<lparr>is_snapshotting := False, current_snapshot_id := None,
     snapshot_deadline := None, recording_channels := [], recorded_send_seq := [],
     recorded_recv_seq := []\<rparr>"

definition set_channel :: "string \<Rightarrow> recorded_msg list \<Rightarrow> controller \<Rightarrow> controller" where
  "set_channel ip ms c = c\<lparr>channel_states := AList.update ip ms (channel_states c)\<rparr>"

text \<open>The body of the replay loop: the channel's list is sorted in place, then delivered.\<close>

definition flush_channel :: "delivery \<Rightarrow> string \<times> recorded_msg list \<Rightarrow> unit act" where
  "flush_channel deliver x =
     (let remote_ip = fst x; recorded_state = sort_key m_seq (snd x) in
      pseq (pmod (upd_ctrl (set_channel remote_ip recorded_state)))
        (pfor (deliver_msg deliver remote_ip) recorded_state))"

definition flush_and_reset :: "delivery \<Rightarrow> unit act" where
  "flush_and_reset deliver =
     pseq (pmod (upd_ctrl reset_ctrl))
       (pbind (pget (\<lambda>w. channel_states (snapshot_ctrl w))) (\<lambda>items.
          pseq (pfor (flush_channel deliver) items)
            (pmod (upd_ctrl (\<lambda>c. c\<lparr>channel_states := []\<rparr>)))))"

definition finish_global_snapshot :: "env \<Rightarrow> delivery \<Rightarrow> unit act" where
  "finish_global_snapshot E deliver =
     pbind (pget snapshot_ctrl) (\<lambda>c.
     pbind (plift (build_artifact E ''complete'' c)) (\<lambda>artifact.
       pseq (post_artifact E artifact) (flush_and_reset deliver)))"

definition abort_snapshot :: "env \<Rightarrow> delivery \<Rightarrow> unit act" where
  "abort_snapshot E deliver =
     pbind (pget snapshot_ctrl) (\<lambda>c.
     pbind (plift (build_artifact E ''aborted'' c)) (\<lambda>artifact.
       pseq (post_artifact E artifact) (flush_and_reset deliver)))"

definition timed_out :: "world \<Rightarrow> bool" where
  "timed_out w \<longleftrightarrow> is_snapshotting (snapshot_ctrl w)
     \<and> (case snapshot_deadline (snapshot_ctrl w) of None \<Rightarrow> False | Some t \<Rightarrow> t < clock w)"

definition check_timeout :: "env \<Rightarrow> delivery \<Rightarrow> unit act" where
  "check_timeout E deliver =
     pbind (pget timed_out) (\<lambda>late. if late then abort_snapshot E deliver else pret ())"

subsection \<open>The code: markers and messages\<close>

definition MARKER :: bytes where "MARKER = ''__MARKER__:''"

text \<open>\<open>payload.split(b":", 1)[1]\<close>\<close>

definition marker_id_of :: "bytes \<Rightarrow> bytes" where
  "marker_id_of payload = tl (dropWhile (\<lambda>c. c \<noteq> CHR '':'') payload)"

definition begin_snapshot :: "bytes \<Rightarrow> controller \<Rightarrow> controller" where
  "begin_snapshot marker_id c =
     c\<lparr>is_snapshotting := True, current_snapshot_id := Some marker_id, channel_states := [],
       recorded_send_seq := [], recorded_recv_seq := []\<rparr>"

definition start_recording :: "string list \<Rightarrow> string \<Rightarrow> controller \<Rightarrow> controller" where
  "start_recording members remote_ip c =
     c\<lparr>recording_channels := filter (\<lambda>ip. ip \<noteq> remote_ip) (remdups members)\<rparr>"

text \<open>The body of the fan-out loop, for one member.\<close>

definition broadcast_marker :: "bytes \<Rightarrow> string \<Rightarrow> unit act" where
  "broadcast_marker payload peer_ip =
     pseq (get_peer peer_ip)
    (pseq (send_data peer_ip 0 0 ZERO_IP payload)
       (pmod (\<lambda>w. upd_ctrl (\<lambda>c. c\<lparr>recorded_send_seq :=
          AList.update peer_ip (send_seq (peer_of w peer_ip)) (recorded_send_seq c)\<rparr>) w)))"

definition open_channels :: "env \<Rightarrow> controller \<Rightarrow> controller" where
  "open_channels E c =
     c\<lparr>channel_states := fold (\<lambda>ip d. AList.update ip [] d) (set_iter E (recording_channels c))
        (channel_states c)\<rparr>"

definition close_origin :: "string list \<Rightarrow> string \<Rightarrow> int \<Rightarrow> controller \<Rightarrow> controller" where
  "close_origin members remote_ip seq c =
     (if remote_ip \<in> set members then
        c\<lparr>channel_states := AList.update remote_ip [] (channel_states c),
          recorded_recv_seq := AList.update remote_ip (seq + 1) (recorded_recv_seq c)\<rparr>
      else c)"

definition finish_if_done :: "env \<Rightarrow> delivery \<Rightarrow> unit act" where
  "finish_if_done E deliver =
     pbind (pget (\<lambda>w. recording_channels (snapshot_ctrl w))) (\<lambda>waiting.
       if waiting = [] then finish_global_snapshot E deliver else pret ())"

text \<open>The first marker of a snapshot: up to setting the deadline, then the last check.\<close>

definition open_cut :: "env \<Rightarrow> string \<Rightarrow> int \<Rightarrow> bytes \<Rightarrow> unit act" where
  "open_cut E remote_ip seq payload =
     (let marker_id = marker_id_of payload in
      pseq (pmod (upd_ctrl (begin_snapshot marker_id)))
     (pbind (self_mesh_ip E) (\<lambda>self_ip.
        let members = filter (\<lambda>ip. Some ip \<noteq> self_ip) (MESH_MEMBERS E) in
        pseq (pmod (upd_ctrl (start_recording members remote_ip)))
       (pseq (drain_intercept E)
       (pbind (plift (decode marker_id)) (\<lambda>snapshot_id.
        pseq (trigger_app_snapshot E snapshot_id)
       (pseq (pfor (broadcast_marker payload) members)
       (pseq (pmod (upd_ctrl (open_channels E)))
       (pseq (pmod (upd_ctrl (close_origin members remote_ip seq)))
         (pmod (\<lambda>w. upd_ctrl (\<lambda>c. c\<lparr>snapshot_deadline := Some (clock w + SNAPSHOT_TIMEOUT)\<rparr>) w)))))))))))"

definition first_marker :: "env \<Rightarrow> delivery \<Rightarrow> string \<Rightarrow> int \<Rightarrow> bytes \<Rightarrow> unit act" where
  "first_marker E deliver remote_ip seq payload =
     pseq (open_cut E remote_ip seq payload) (finish_if_done E deliver)"

definition close_channel :: "string \<Rightarrow> int \<Rightarrow> controller \<Rightarrow> controller" where
  "close_channel remote_ip seq c =
     c\<lparr>recorded_recv_seq := AList.update remote_ip (seq + 1) (recorded_recv_seq c),
       recording_channels := filter (\<lambda>ip. ip \<noteq> remote_ip) (recording_channels c)\<rparr>"

text \<open>A marker while a snapshot is being taken. The stale case decodes the id to print it.\<close>

definition later_marker :: "env \<Rightarrow> delivery \<Rightarrow> string \<Rightarrow> int \<Rightarrow> bytes \<Rightarrow> unit act" where
  "later_marker E deliver remote_ip seq payload =
     (let marker_id = marker_id_of payload in
      pbind (pget snapshot_ctrl) (\<lambda>c.
        if Some marker_id \<noteq> current_snapshot_id c then pseq (plift (decode marker_id)) (pret ())
        else if remote_ip \<in> set (recording_channels c) then
          pseq (pmod (upd_ctrl (close_channel remote_ip seq))) (finish_if_done E deliver)
        else pret ()))"

text \<open>Appending to the list of a channel: an absent key raises.\<close>

definition record_msg :: "string \<Rightarrow> recorded_msg \<Rightarrow> unit act" where
  "record_msg remote_ip m =
     pbind (pget (\<lambda>w. map_of (channel_states (snapshot_ctrl w)) remote_ip)) (\<lambda>x.
       case x of None \<Rightarrow> praise KeyError
       | Some ms \<Rightarrow> pmod (upd_ctrl (\<lambda>c. c\<lparr>channel_states :=
           AList.update remote_ip (ms @ [m]) (channel_states c)\<rparr>)))"

text \<open>\<open>process_message\<close>, with the delivery function its replay uses.\<close>

definition process_message_with ::
    "env \<Rightarrow> delivery \<Rightarrow> string \<Rightarrow> int \<Rightarrow> bytes \<Rightarrow> int \<Rightarrow> int \<Rightarrow> string \<Rightarrow> bool act" where
  "process_message_with E deliver remote_ip seq payload src_port dst_port target_local_ip =
     pbind (pget snapshot_ctrl) (\<lambda>c.
       if starts_with MARKER payload then
         pseq (if is_snapshotting c then later_marker E deliver remote_ip seq payload
               else first_marker E deliver remote_ip seq payload)
           (pret True)
       else if is_snapshotting c \<and> remote_ip \<in> set (recording_channels c) then
         pseq (record_msg remote_ip
                 \<lparr>m_seq = seq, m_payload = payload, m_src_port = src_port, m_dst_port = dst_port,
                  m_target_local_ip = target_local_ip\<rparr>)
           (pret True)
       else pret False)"

text \<open>\<open>process_and_deliver\<close>, given the \<open>process_message\<close> it asks.\<close>

definition deliver_with ::
    "env \<Rightarrow> (string \<Rightarrow> int \<Rightarrow> bytes \<Rightarrow> int \<Rightarrow> int \<Rightarrow> string \<Rightarrow> bool act) \<Rightarrow> delivery" where
  "deliver_with E process current_seq p ip src_port dst_port target_local_ip =
     pbind (process ip current_seq p src_port dst_port target_local_ip) (\<lambda>consumed.
       if consumed then pret ()
       else pbind (get_spoof_sock E ip src_port) (\<lambda>spoof_sock.
              spoof_sendto E spoof_sock p (target_local_ip, dst_port)))"

fun process_message_n ::
    "env \<Rightarrow> nat \<Rightarrow> string \<Rightarrow> int \<Rightarrow> bytes \<Rightarrow> int \<Rightarrow> int \<Rightarrow> string \<Rightarrow> bool act" where
  "process_message_n E 0 remote_ip seq payload sp dp tip = praise RecursionError"
| "process_message_n E (Suc n) remote_ip seq payload sp dp tip =
     process_message_with E (deliver_with E (process_message_n E n)) remote_ip seq payload sp dp tip"

definition process_message ::
    "env \<Rightarrow> string \<Rightarrow> int \<Rightarrow> bytes \<Rightarrow> int \<Rightarrow> int \<Rightarrow> string \<Rightarrow> bool act" where
  "process_message E = process_message_n E 2"

definition process_and_deliver :: "env \<Rightarrow> delivery" where
  "process_and_deliver E = deliver_with E (process_message E)"

end
