(* ===== verification/Snapshot.thy ===== *)
theory Snapshot
  imports Controller
begin

text \<open>
  Lemmas on the controller: its invariant, the replay of recorded messages as plain
  deliveries (so that two levels of nesting are enough), and the run of each kind of
  marker and message.
\<close>

subsection \<open>The invariant\<close>

definition channel_ok :: "string \<times> recorded_msg list \<Rightarrow> bool" where
  "channel_ok x \<longleftrightarrow> list_all (\<lambda>m. \<not> starts_with MARKER (m_payload m)) (snd x)"

definition ctrl_ok :: "controller \<Rightarrow> bool" where
  "ctrl_ok c \<longleftrightarrow>
     distinct (map fst (channel_states c)) \<and> distinct (map fst (recorded_send_seq c))
     \<and> distinct (map fst (recorded_recv_seq c)) \<and> distinct (recording_channels c)
     \<and> list_all channel_ok (channel_states c)
     \<and> (is_snapshotting c \<or> recording_channels c = [] \<and> current_snapshot_id c = None
          \<and> snapshot_deadline c = None)"

definition world_inv :: "world \<Rightarrow> bool" where
  "world_inv w \<longleftrightarrow> base_inv w \<and> ctrl_ok (snapshot_ctrl w)"

lemma world_inv_MeshProxy: "world_inv MeshProxy"
  by (simp add: world_inv_def base_inv_MeshProxy)
    (simp add: MeshProxy_def SnapshotController_def ctrl_ok_def)

text \<open>Operations that leave the controller alone keep any predicate on it.\<close>

lemma preserves_frameD:
  assumes "\<And>c s. preserves (frame c s) m"
  shows "preserves (\<lambda>w. base_inv w \<and> Q (snapshot_ctrl w)) m"
    and "preserves world_inv m"
    and "preserves (\<lambda>w. base_inv w \<and> Q (snapshot_ctrl w) \<and> R (still w)) m"
proof -
  have "base_inv w \<Longrightarrow> snapshot_ctrl (snd (m w)) = snapshot_ctrl w \<and> still (snd (m w)) = still w
      \<and> base_inv (snd (m w))" for w
    using preservesD[OF assms frameI, of w] by (simp add: frame_def)
  then show "preserves (\<lambda>w. base_inv w \<and> Q (snapshot_ctrl w)) m"
    "preserves world_inv m"
    "preserves (\<lambda>w. base_inv w \<and> Q (snapshot_ctrl w) \<and> R (still w)) m"
    by (simp_all add: preserves_def world_inv_def)
qed

lemma http_call_frame [preserves_intro]: "preserves (frame c s) (http_call E req)"
  unfolding http_call_def by (intro preserves_intro preserves_pmod) (simp add: frame_def)

lemma trigger_app_snapshot_frame [preserves_intro]:
  "preserves (frame c s) (trigger_app_snapshot E sid)"
  unfolding trigger_app_snapshot_def by (intro preserves_intro)

lemma post_artifact_frame [preserves_intro]: "preserves (frame c s) (post_artifact E a)"
  unfolding post_artifact_def by (intro preserves_intro)

lemma preserves_upd_ctrl:
  "(\<And>c. ctrl_ok c \<Longrightarrow> ctrl_ok (f c)) \<Longrightarrow> preserves world_inv (pmod (upd_ctrl f))"
  by (rule preserves_pmod) (simp add: world_inv_def)

lemma self_mesh_ip_inv: "preserves world_inv (self_mesh_ip E)"
  unfolding self_mesh_ip_def
  by (intro preserves_intro preserves_pmod | simp split: option.split list.split)+
    (auto simp: world_inv_def ctrl_ok_def intro!: preserves_intro preserves_pmod)


lemma channel_ok_simps [simp]: "channel_ok (ip, [])"
  "channel_ok (ip, ms @ [m]) = (channel_ok (ip, ms) \<and> \<not> starts_with MARKER (m_payload m))"
  by (simp_all add: channel_ok_def)

lemma list_all_update:
  "list_all P d \<Longrightarrow> P (k, v) \<Longrightarrow> list_all P (AList.update k v d)"
  by (induction d) auto

lemma list_all_map_of: "list_all P d \<Longrightarrow> map_of d k = Some v \<Longrightarrow> P (k, v)"
  by (auto simp: list_all_iff dest: map_of_SomeD)

lemma ctrl_ok_reset: "ctrl_ok c \<Longrightarrow> ctrl_ok (reset_ctrl c)"
  by (simp add: ctrl_ok_def reset_ctrl_def)

lemma ctrl_ok_begin: "ctrl_ok c \<Longrightarrow> ctrl_ok (begin_snapshot i c)"
  by (simp add: ctrl_ok_def begin_snapshot_def)

lemma ctrl_ok_record:
  "ctrl_ok c \<Longrightarrow> map_of (channel_states c) ip = Some ms \<Longrightarrow> \<not> starts_with MARKER (m_payload m) \<Longrightarrow>
   ctrl_ok (c\<lparr>channel_states := AList.update ip (ms @ [m]) (channel_states c)\<rparr>)"
  by (auto simp: ctrl_ok_def list_all_map_of intro!: list_all_update)

lemma fold_open_channels:
  "distinct (map fst d) \<Longrightarrow> distinct (map fst (fold (\<lambda>ip d. AList.update ip [] d) ips d))"
  "list_all channel_ok d \<Longrightarrow> list_all channel_ok (fold (\<lambda>ip d. AList.update ip [] d) ips d)"
  by (induction ips arbitrary: d) (simp_all add: list_all_update)

lemma ctrl_ok_open: "ctrl_ok c \<Longrightarrow> ctrl_ok (open_channels E c)"
  by (simp add: ctrl_ok_def open_channels_def fold_open_channels)

lemma ctrl_ok_close: "ctrl_ok c \<Longrightarrow> is_snapshotting c \<Longrightarrow> ctrl_ok (close_channel ip seq c)"
  by (simp add: ctrl_ok_def close_channel_def)

text \<open>While a snapshot is being taken: the invariant with \<open>is_snapshotting\<close> set.\<close>

definition snapping :: "world \<Rightarrow> bool" where
  "snapping w \<longleftrightarrow> base_inv w \<and> ctrl_ok (snapshot_ctrl w) \<and> is_snapshotting (snapshot_ctrl w)"

lemma snapping_inv: "snapping w \<Longrightarrow> world_inv w"
  by (simp add: snapping_def world_inv_def)

lemma preserves_snapping_frame: "(\<And>c s. preserves (frame c s) m) \<Longrightarrow> preserves snapping m"
  using preserves_frameD(1)[of m "\<lambda>c. ctrl_ok c \<and> is_snapshotting c"]
  by (simp add: snapping_def [abs_def])

lemma preserves_snapping_ctrl:
  "(\<And>c. ctrl_ok c \<Longrightarrow> is_snapshotting c \<Longrightarrow> ctrl_ok (f c) \<and> is_snapshotting (f c)) \<Longrightarrow>
   preserves snapping (pmod (upd_ctrl f))"
  by (rule preserves_pmod) (simp add: snapping_def)

text \<open>A computation run from states in \<open>P\<close> that leaves states in \<open>Q\<close>, also by a raise.\<close>

definition leads :: "('s \<Rightarrow> bool) \<Rightarrow> ('s, 'a) py \<Rightarrow> ('s \<Rightarrow> bool) \<Rightarrow> bool" where
  "leads P m Q \<longleftrightarrow> (\<forall>s. P s \<longrightarrow> Q (snd (m s)))"

lemma leads_pseq:
  "leads P m Q \<Longrightarrow> leads Q n R \<Longrightarrow> (\<And>s. Q s \<Longrightarrow> R s) \<Longrightarrow> leads P (pseq m n) R"
  by (fastforce simp: leads_def pseq_run split: prod.splits sum.splits)

lemma leads_pbind:
  "leads P m Q \<Longrightarrow> (\<And>x. leads Q (k x) R) \<Longrightarrow> (\<And>s. Q s \<Longrightarrow> R s) \<Longrightarrow> leads P (pbind m k) R"
  by (fastforce simp: leads_def pbind_run split: prod.splits sum.splits)

lemma preserves_leads: "preserves P m \<Longrightarrow> leads P m P"
  by (simp add: preserves_def leads_def)

subsection \<open>Every operation keeps the invariant\<close>

lemma deliver_msg_inv:
  assumes "\<And>a b c d e f. preserves world_inv (deliver a b c d e f)"
  shows "preserves world_inv (deliver_msg deliver ip m)"
  using assms by (simp add: deliver_msg_def)

lemma reset_ctrl_fields [simp]:
  "channel_states (reset_ctrl c) = channel_states c" "is_snapshotting (reset_ctrl c) = False"
  "current_snapshot_id (reset_ctrl c) = None" "recording_channels (reset_ctrl c) = []"
  "recorded_send_seq (reset_ctrl c) = []" "recorded_recv_seq (reset_ctrl c) = []"
  "snapshot_deadline (reset_ctrl c) = None" "self_ip_cache (reset_ctrl c) = self_ip_cache c"
  by (simp_all add: reset_ctrl_def)

lemma set_channel_fields [simp]:
  "channel_states (set_channel ip ms c) = AList.update ip ms (channel_states c)"
  "is_snapshotting (set_channel ip ms c) = is_snapshotting c"
  "current_snapshot_id (set_channel ip ms c) = current_snapshot_id c"
  "recording_channels (set_channel ip ms c) = recording_channels c"
  "recorded_send_seq (set_channel ip ms c) = recorded_send_seq c"
  "recorded_recv_seq (set_channel ip ms c) = recorded_recv_seq c"
  "snapshot_deadline (set_channel ip ms c) = snapshot_deadline c"
  "self_ip_cache (set_channel ip ms c) = self_ip_cache c"
  by (simp_all add: set_channel_def)

lemma ctrl_ok_set_channel:
  "ctrl_ok c \<Longrightarrow> channel_ok (ip, ms) \<Longrightarrow> ctrl_ok (set_channel ip ms c)"
  by (simp add: ctrl_ok_def list_all_update)

lemma channel_ok_sort: "channel_ok (ip, sort_key m_seq ms) = channel_ok (ip, ms)"
  by (simp add: channel_ok_def list_all_iff)

lemma flush_channel_inv:
  assumes "\<And>a b c d e f. preserves world_inv (deliver a b c d e f)" and "channel_ok x"
  shows "preserves world_inv (flush_channel deliver x)"
  unfolding flush_channel_def Let_def
  by (intro preserves_intro preserves_upd_ctrl deliver_msg_inv assms ctrl_ok_set_channel)
    (use assms(2) in \<open>simp_all add: channel_ok_sort\<close>)

lemma flush_and_reset_inv:
  assumes "\<And>a b c d e f. preserves world_inv (deliver a b c d e f)"
  shows "preserves world_inv (flush_and_reset deliver)"
proof (rule preservesI)
  fix w assume w: "world_inv w"
  have reset: "world_inv (upd_ctrl reset_ctrl w)"
    using w by (simp add: world_inv_def ctrl_ok_reset)
  have items: "list_all channel_ok (channel_states (reset_ctrl (snapshot_ctrl w)))"
    using reset by (simp add: world_inv_def ctrl_ok_def)
  have "preserves world_inv (pseq (pfor (flush_channel deliver)
      (channel_states (reset_ctrl (snapshot_ctrl w)))) (pmod (upd_ctrl (\<lambda>c. c\<lparr>channel_states := []\<rparr>))))"
    by (intro preserves_intro preserves_upd_ctrl flush_channel_inv assms)
      (use items in \<open>simp_all add: list_all_iff ctrl_ok_def\<close>)
  from preservesD[OF this reset] show "world_inv (snd (flush_and_reset deliver w))"
    by (simp add: flush_and_reset_def pseq_pmod pbind_pget)
qed

lemma finish_global_snapshot_inv:
  assumes "\<And>a b c d e f. preserves world_inv (deliver a b c d e f)"
  shows "preserves world_inv (finish_global_snapshot E deliver)"
    and "preserves world_inv (abort_snapshot E deliver)"
  unfolding finish_global_snapshot_def abort_snapshot_def
  by (intro preserves_intro preserves_frameD(2) flush_and_reset_inv assms)+

lemma check_timeout_inv:
  assumes "\<And>a b c d e f. preserves world_inv (deliver a b c d e f)"
  shows "preserves world_inv (check_timeout E deliver)"
  unfolding check_timeout_def
  by (intro preserves_intro finish_global_snapshot_inv assms)

lemma finish_if_done_inv:
  assumes "\<And>a b c d e f. preserves world_inv (deliver a b c d e f)"
  shows "preserves world_inv (finish_if_done E deliver)"
  unfolding finish_if_done_def
  by (intro preserves_intro finish_global_snapshot_inv assms)

lemma broadcast_marker_snapping: "preserves snapping (broadcast_marker payload ip)"
proof -
  have "preserves snapping (pmod (\<lambda>w. upd_ctrl (\<lambda>c. c\<lparr>recorded_send_seq :=
      AList.update ip (send_seq (peer_of w ip)) (recorded_send_seq c)\<rparr>) w))"
    by (rule preserves_pmod) (simp add: snapping_def ctrl_ok_def)
  then show ?thesis
    unfolding broadcast_marker_def
    by (intro preserves_pseq preserves_snapping_frame[OF get_peer_frame]
        preserves_snapping_frame[OF send_data_frame])
qed

lemma close_origin_snapping: "preserves snapping (pmod (upd_ctrl (close_origin ms ip seq)))"
  by (rule preserves_snapping_ctrl) (simp add: close_origin_def ctrl_ok_def list_all_update)

lemma self_mesh_ip_snapping: "preserves snapping (self_mesh_ip E)"
  unfolding self_mesh_ip_def
  by (intro preserves_intro preserves_pmod | simp split: option.split list.split)+
    (auto simp: snapping_def ctrl_ok_def intro!: preserves_intro preserves_pmod)

lemma open_cut_leads: "leads world_inv (open_cut E ip seq payload) snapping"
proof -
  have h_begin: "leads world_inv (pmod (upd_ctrl (begin_snapshot i))) snapping" for i
    by (simp add: leads_def pmod_run world_inv_def snapping_def ctrl_ok_begin)
      (simp add: begin_snapshot_def)
  have h_record: "preserves snapping (pmod (upd_ctrl (start_recording ms ip)))" for ms
    by (rule preserves_snapping_ctrl) (simp add: start_recording_def ctrl_ok_def)
  have h_open: "preserves snapping (pmod (upd_ctrl (open_channels E)))"
    by (rule preserves_snapping_ctrl) (simp add: ctrl_ok_open, simp add: open_channels_def)
  have h_deadline: "preserves snapping (pmod (\<lambda>w. upd_ctrl (\<lambda>c. c\<lparr>snapshot_deadline :=
      Some (clock w + SNAPSHOT_TIMEOUT)\<rparr>) w))"
    by (rule preserves_pmod) (simp add: snapping_def ctrl_ok_def)
  show ?thesis
    unfolding open_cut_def Let_def
    by (intro leads_pseq[where Q = snapping] leads_pbind[where Q = snapping] h_begin
        preserves_leads h_record h_open h_deadline self_mesh_ip_snapping close_origin_snapping
        preserves_pfor broadcast_marker_snapping preserves_plift preserves_snapping_frame
        preserves_intro)
qed

lemma first_marker_inv:
  assumes "\<And>a b c d e f. preserves world_inv (deliver a b c d e f)"
  shows "preserves world_inv (first_marker E deliver ip seq payload)"
proof -
  have "leads snapping (finish_if_done E deliver) world_inv"
    using preservesD[OF finish_if_done_inv[OF assms]] by (simp add: leads_def snapping_inv)
  from leads_pseq[OF open_cut_leads this snapping_inv] show ?thesis
    by (simp add: leads_def preserves_def first_marker_def)
qed

lemma later_marker_inv:
  assumes "\<And>a b c d e f. preserves world_inv (deliver a b c d e f)"
  shows "preserves world_inv (later_marker E deliver ip seq payload)"
proof (rule preservesI)
  fix w assume w: "world_inv w"
  let ?c = "snapshot_ctrl w"
  have close: "world_inv (upd_ctrl (close_channel ip seq) w)" if "ip \<in> set (recording_channels ?c)"
  proof -
    from that w have "is_snapshotting ?c" by (auto simp: world_inv_def ctrl_ok_def)
    with w show ?thesis by (simp add: world_inv_def ctrl_ok_close)
  qed
  show "world_inv (snd (later_marker E deliver ip seq payload w))"
    using w close preservesD[OF finish_if_done_inv[OF assms], of "upd_ctrl (close_channel ip seq) w"]
    by (auto simp: later_marker_def Let_def pbind_pget pseq_pmod decode_def pseq_run py_run)
qed

lemma record_msg_inv:
  "\<not> starts_with MARKER (m_payload m) \<Longrightarrow> preserves world_inv (record_msg ip m)"
  by (rule preservesI)
    (simp add: record_msg_def pbind_pget world_inv_def ctrl_ok_record py_run split: option.split)

lemma process_message_with_inv:
  assumes "\<And>a b c d e f. preserves world_inv (deliver a b c d e f)"
  shows "preserves world_inv (process_message_with E deliver ip seq p sp dp tip)"
  unfolding process_message_with_def
  by (intro preserves_intro later_marker_inv first_marker_inv record_msg_inv assms) simp

text \<open>The plain delivery: the spoofing socket and the send.\<close>

definition spoof_deliver :: "env \<Rightarrow> bytes \<Rightarrow> string \<Rightarrow> int \<Rightarrow> int \<Rightarrow> string \<Rightarrow> unit act" where
  "spoof_deliver E p ip src_port dst_port target_local_ip =
     pbind (get_spoof_sock E ip src_port) (\<lambda>spoof_sock.
       spoof_sendto E spoof_sock p (target_local_ip, dst_port))"

lemma spoof_deliver_frame [preserves_intro]:
  "preserves (frame c s) (spoof_deliver E p ip sp dp tip)"
  unfolding spoof_deliver_def by (intro preserves_intro)

lemma deliver_with_spoof:
  "deliver_with E process seq p ip sp dp tip =
     pbind (process ip seq p sp dp tip) (\<lambda>consumed.
       if consumed then pret () else spoof_deliver E p ip sp dp tip)"
  by (simp only: deliver_with_def spoof_deliver_def)

lemma deliver_with_inv:
  assumes "\<And>a b c d e f. preserves world_inv (process a b c d e f)"
  shows "preserves world_inv (deliver_with E process seq p ip sp dp tip)"
  unfolding deliver_with_spoof
  by (intro preserves_intro preserves_frameD(2)[OF spoof_deliver_frame] assms)

lemma process_message_n_inv: "preserves world_inv (process_message_n E n ip seq p sp dp tip)"
proof (induction n arbitrary: ip seq p sp dp tip)
  case 0
  then show ?case by (simp add: preserves_praise)
next
  case (Suc n)
  then show ?case by (simp add: process_message_with_inv deliver_with_inv)
qed

lemma process_and_deliver_inv: "preserves world_inv (process_and_deliver E seq p ip sp dp tip)"
  unfolding process_and_deliver_def process_message_def
  by (intro deliver_with_inv process_message_n_inv)

subsection \<open>Replay is plain delivery\<close>

lemma process_idle:
  assumes "\<not> starts_with MARKER p" and "\<not> is_snapshotting (snapshot_ctrl w)"
  shows "process_message_n E (Suc n) ip seq p sp dp tip w = (Inr False, w)"
  using assms by (simp add: process_message_with_def pbind_pget pret_run)

lemma deliver_idle:
  assumes "\<not> starts_with MARKER p" and "\<not> is_snapshotting (snapshot_ctrl w)"
  shows "deliver_with E (process_message_n E (Suc n)) seq p ip sp dp tip w
    = spoof_deliver E p ip sp dp tip w"
  by (simp add: deliver_with_spoof pbind_run process_idle[OF assms] del: process_message_n.simps)

definition idle :: "world \<Rightarrow> bool" where
  "idle w \<longleftrightarrow> base_inv w \<and> \<not> is_snapshotting (snapshot_ctrl w)"

lemma preserves_idle_frame: "(\<And>c s. preserves (frame c s) m) \<Longrightarrow> preserves idle m"
  using preserves_frameD(1)[of m "\<lambda>c. \<not> is_snapshotting c"] by (simp add: idle_def [abs_def])

text \<open>Delivering the recorded messages of one channel, and of all, in sequence order.\<close>

definition replay_msg :: "env \<Rightarrow> string \<Rightarrow> recorded_msg \<Rightarrow> unit act" where
  "replay_msg E ip m =
     spoof_deliver E (m_payload m) ip (m_src_port m) (m_dst_port m) (m_target_local_ip m)"

definition replay_channel :: "env \<Rightarrow> string \<times> recorded_msg list \<Rightarrow> unit act" where
  "replay_channel E x =
     pseq (pmod (upd_ctrl (set_channel (fst x) (sort_key m_seq (snd x)))))
       (pfor (replay_msg E (fst x)) (sort_key m_seq (snd x)))"

lemma replay_frame [preserves_intro]: "preserves (frame c s) (replay_msg E ip m)"
  unfolding replay_msg_def by (intro preserves_intro)

lemma replay_channel_idle: "preserves idle (replay_channel E x)"
  unfolding replay_channel_def
  by (intro preserves_pseq preserves_pfor preserves_idle_frame[OF replay_frame] preserves_pmod)
    (simp add: idle_def)

lemma flush_and_reset_run:
  assumes "base_inv w" and "ctrl_ok (snapshot_ctrl w)"
  shows "flush_and_reset (deliver_with E (process_message_n E (Suc n))) w =
    pseq (pfor (replay_channel E) (channel_states (snapshot_ctrl w)))
      (pmod (upd_ctrl (\<lambda>c. c\<lparr>channel_states := []\<rparr>))) (upd_ctrl reset_ctrl w)"
proof -
  let ?w = "upd_ctrl reset_ctrl w"
  let ?items = "channel_states (snapshot_ctrl w)"
  let ?deliver = "deliver_with E (process_message_n E (Suc n))"
  have idle: "idle ?w"
    using assms(1) by (simp add: idle_def)
  have msg: "deliver_msg ?deliver ip m t = replay_msg E ip m t"
    if "idle t" and "\<not> starts_with MARKER (m_payload m)" for ip m t
    using that unfolding deliver_msg_def replay_msg_def idle_def by (intro deliver_idle) simp_all
  have channel: "flush_channel ?deliver x t = replay_channel E x t"
    if "idle t" and "x \<in> set ?items" for x t
  proof -
    from that(2) assms(2) have "channel_ok x" by (auto simp: ctrl_ok_def list_all_iff)
    then have "pfor (deliver_msg ?deliver (fst x)) (sort_key m_seq (snd x))
        (upd_ctrl (set_channel (fst x) (sort_key m_seq (snd x))) t)
      = pfor (replay_msg E (fst x)) (sort_key m_seq (snd x))
        (upd_ctrl (set_channel (fst x) (sort_key m_seq (snd x))) t)"
      by (intro pfor_eq_on[where P = idle, OF msg] preserves_idle_frame[OF replay_frame])
        (use that(1) in \<open>auto simp: channel_ok_def list_all_iff idle_def\<close>)
    then show ?thesis by (simp add: flush_channel_def replay_channel_def Let_def pseq_pmod)
  qed
  have "pfor (flush_channel ?deliver) ?items ?w = pfor (replay_channel E) ?items ?w"
    by (rule pfor_eq_on[where P = idle]) (auto simp: channel idle replay_channel_idle)
  then show ?thesis
    by (simp add: flush_and_reset_def pseq_run pmod_run pbind_pget)
qed

subsection \<open>Two levels of nesting are enough\<close>

text \<open>
  The replay never records and never sees a marker, so any bound of at least two gives the
  same run: the bound is not a restriction of the code.
\<close>

lemma flush_nesting:
  "world_inv w \<Longrightarrow> flush_and_reset (deliver_with E (process_message_n E (Suc m))) w
    = flush_and_reset (deliver_with E (process_message_n E (Suc n))) w"
  by (simp add: world_inv_def flush_and_reset_run del: process_message_n.simps)

lemma post_artifact_keeps: "post_artifact E a w = (r, v) \<Longrightarrow> world_inv w \<Longrightarrow> world_inv v"
  by (rule preserves_runD[OF preserves_frameD(2)[OF post_artifact_frame]])

text \<open>Two delivery functions under which the replay runs alike.\<close>

definition same_flush :: "delivery \<Rightarrow> delivery \<Rightarrow> bool" where
  "same_flush D D' \<longleftrightarrow> (\<forall>w. world_inv w \<longrightarrow> flush_and_reset D w = flush_and_reset D' w)"

lemma finish_same_flush:
  assumes "same_flush D D'" and "world_inv w"
  shows "finish_global_snapshot E D w = finish_global_snapshot E D' w"
    and "abort_snapshot E D w = abort_snapshot E D' w"
proof -
  have post: "pseq (post_artifact E a) (flush_and_reset D) w
      = pseq (post_artifact E a) (flush_and_reset D') w" for a
    using assms post_artifact_keeps[of E a w]
    by (cases "post_artifact E a w") (simp add: pseq_run same_flush_def split: sum.split)
  show "finish_global_snapshot E D w = finish_global_snapshot E D' w"
    and "abort_snapshot E D w = abort_snapshot E D' w"
    by (simp_all add: finish_global_snapshot_def abort_snapshot_def pget_run pbind_run plift_run
        post split: sum.split)
qed

lemma finish_if_done_same_flush:
  "same_flush D D' \<Longrightarrow> world_inv w \<Longrightarrow> finish_if_done E D w = finish_if_done E D' w"
  by (simp add: finish_if_done_def pbind_pget finish_same_flush(1))

lemma first_marker_same_flush:
  assumes "same_flush D D'" and "world_inv w"
  shows "first_marker E D ip seq p w = first_marker E D' ip seq p w"
proof -
  obtain r v where run: "open_cut E ip seq p w = (r, v)" by fastforce
  with open_cut_leads[of E ip seq p] assms(2) have "world_inv v"
    by (auto simp: leads_def snapping_inv dest: spec[of _ w])
  with assms(1) run show ?thesis
    by (simp add: first_marker_def pseq_run finish_if_done_same_flush split: sum.split)
qed

lemma later_marker_same_flush:
  assumes "same_flush D D'" and "world_inv w" and "is_snapshotting (snapshot_ctrl w)"
  shows "later_marker E D ip seq p w = later_marker E D' ip seq p w"
  using assms finish_if_done_same_flush[OF assms(1), of "upd_ctrl (close_channel ip seq) w"]
  by (simp add: later_marker_def Let_def pbind_pget pseq_pmod world_inv_def ctrl_ok_close)

lemma process_message_nesting:
  assumes w: "world_inv w"
  shows "process_message_n E (Suc (Suc n)) ip seq p sp dp tip w
    = process_message E ip seq p sp dp tip w"
proof -
  have "same_flush (deliver_with E (process_message_n E (Suc n)))
      (deliver_with E (process_message_n E (Suc 0)))"
    unfolding same_flush_def using flush_nesting by blast
  note same = first_marker_same_flush[OF this w] later_marker_same_flush[OF this w]
  show ?thesis
    unfolding process_message_def numeral_2_eq_2 process_message_n.simps(2)[of E "Suc _"]
      process_message_with_def
    by (simp add: pbind_pget pseq_run same del: process_message_n.simps)
qed

end
