(* ===== verification/Delivery.thy ===== *)
theory Delivery
  imports Snapshot
begin

text \<open>
  What the outside sees of a run: the datagrams handed to the application, the HTTP
  requests and the tunnel packets, read off the trace; and the runs of the plain delivery,
  of the replay and of the two ends of a snapshot in those terms.
\<close>

subsection \<open>Three readings of a trace\<close>

definition delivered :: "event list \<Rightarrow> (bytes \<times> string \<times> int) list" where
  "delivered es = concat (map (\<lambda>e. case e of SpoofSend s p ip port \<Rightarrow> [(p, ip, port)] | _ \<Rightarrow> []) es)"

definition requests :: "event list \<Rightarrow> http_req list" where
  "requests es = concat (map (\<lambda>e. case e of HttpReq r \<Rightarrow> [r] | _ \<Rightarrow> []) es)"

definition tunneled :: "event list \<Rightarrow> (bytes \<times> string) list" where
  "tunneled es = concat (map (\<lambda>e. case e of TunnelSend p ip \<Rightarrow> [(p, ip)] | _ \<Rightarrow> []) es)"

lemma readings_append [simp]:
  "delivered (a @ b) = delivered a @ delivered b" "requests (a @ b) = requests a @ requests b"
  "tunneled (a @ b) = tunneled a @ tunneled b"
  by (simp_all add: delivered_def requests_def tunneled_def)

lemma readings_single [simp]:
  "delivered [SpoofSend s p ip port] = [(p, ip, port)]" "delivered [TunnelSend p ip] = []"
  "delivered [HttpReq r] = []" "delivered [SpoofOpen s] = []" "delivered [SpoofClose s] = []"
  "delivered [SpoofSendError s p ip port] = []" "delivered [] = []"
  "requests [SpoofSend s p ip port] = []" "requests [TunnelSend p ip] = []"
  "requests [HttpReq r] = [r]" "requests [SpoofOpen s] = []" "requests [SpoofClose s] = []"
  "requests [SpoofSendError s p ip port] = []" "requests [] = []"
  "tunneled [SpoofSend s p ip port] = []" "tunneled [TunnelSend p ip] = [(p, ip)]"
  "tunneled [HttpReq r] = []" "tunneled [SpoofOpen s] = []" "tunneled [SpoofClose s] = []"
  "tunneled [SpoofSendError s p ip port] = []" "tunneled [] = []"
  by (simp_all add: delivered_def requests_def tunneled_def)

text \<open>From \<open>w\<close> to \<open>v\<close> the datagrams \<open>ds\<close> were handed over, and nothing else happened.\<close>

definition hands_over :: "world \<Rightarrow> world \<Rightarrow> (bytes \<times> string \<times> int) list \<Rightarrow> bool" where
  "hands_over w v ds \<longleftrightarrow>
     delivered (trace v) = delivered (trace w) @ ds \<and> requests (trace v) = requests (trace w)
     \<and> tunneled (trace v) = tunneled (trace w) \<and> peers v = peers w
     \<and> tunnel_transport v = tunnel_transport w \<and> is_server v = is_server w
     \<and> local_sock v = local_sock w \<and> clock v = clock w \<and> (base_inv w \<longrightarrow> base_inv v)"

lemma hands_over_refl: "hands_over w w []"
  by (simp add: hands_over_def)

lemma hands_over_trans: "hands_over w v a \<Longrightarrow> hands_over v u b \<Longrightarrow> hands_over w u (a @ b)"
  by (simp add: hands_over_def)

lemma hands_over_ctrl [simp]: "hands_over (upd_ctrl f w) v ds = hands_over w v ds"
  by (simp add: hands_over_def)

lemma hands_over_upd_ctrl: "hands_over w v ds \<Longrightarrow> hands_over w (upd_ctrl f v) ds"
  by (simp add: hands_over_def)

subsection \<open>The plain delivery\<close>

lemma get_spoof_sock_quiet:
  "hands_over w (snd (get_spoof_sock E ip port w)) []"
proof -
  have "base_inv w \<Longrightarrow> base_inv (snd (get_spoof_sock E ip port w))"
    using preservesD[OF get_spoof_sock_frame frameI, of w E ip port] by (simp add: frame_def)
  then show ?thesis
    by (cases "map_of (spoof_sockets w) (ip, port)")
      (simp_all add: hands_over_def get_spoof_sock_hit get_spoof_sock_miss missed_def evicted_def
        Let_def)
qed

lemma get_spoof_sock_bound:
  assumes "base_inv w" and "get_spoof_sock E ip port w = (Inr sock, v)"
  shows "sock_bound sock \<in> {None, Some (ip, port)}"
proof (cases "map_of (spoof_sockets w) (ip, port)")
  case None
  with assms(2) opened_sock_bound[of E "(ip, port)" "evicted w"] show ?thesis
    by (auto simp: get_spoof_sock_miss)
next
  case (Some s)
  then have "sock_entry_ok (next_sock w) ((ip, port), s)"
    using assms(1) by (auto simp: base_inv_def spoof_inv_def list_all_iff dest: map_of_SomeD)
  with Some assms(2) show ?thesis by (auto simp: get_spoof_sock_hit sock_entry_ok_def)
qed

text \<open>One delivery: one datagram, from a socket bound to the original sender or unbound.\<close>

lemma spoof_deliver_sock:
  assumes "base_inv w" and "\<forall>n. send_ok E n"
  obtains sock v where "spoof_deliver E p ip sp dp tip w = (Inr (), emit (SpoofSend sock p tip dp) v)"
    and "sock_bound sock \<in> {None, Some (ip, sp)}" and "hands_over w v []"
    and "snapshot_ctrl v = snapshot_ctrl w"
proof -
  obtain sock v where run: "get_spoof_sock E ip sp w = (Inr sock, v)"
    using get_spoof_sock_total by blast
  have "spoof_deliver E p ip sp dp tip w = (Inr (), emit (SpoofSend sock p tip dp) v)"
    using assms(2) by (simp add: spoof_deliver_def pbind_run run spoof_sendto_def pget_run pmod_run)
  then show ?thesis
    using get_spoof_sock_bound[OF assms(1) run] get_spoof_sock_quiet[of w E ip sp]
      get_spoof_sock_ctrl[of E ip sp w] run
    by (intro that[of sock v]) simp_all
qed

lemma spoof_deliver_run:
  assumes "base_inv w" and "\<forall>n. send_ok E n"
  obtains v where "spoof_deliver E p ip sp dp tip w = (Inr (), v)"
    and "hands_over w v [(p, tip, dp)]" and "snapshot_ctrl v = snapshot_ctrl w"
  using assms by (elim spoof_deliver_sock) (auto simp: hands_over_def intro: that)

text \<open>A host whose kernel refuses the datagram: nothing is handed over.\<close>

lemma spoof_deliver_refused:
  assumes "\<forall>n. \<not> send_ok E n"
  obtains v where "spoof_deliver E p ip sp dp tip w = (Inl OSError, v)"
    and "hands_over w v []" and "snapshot_ctrl v = snapshot_ctrl w"
proof -
  obtain sock u where run: "get_spoof_sock E ip sp w = (Inr sock, u)" using get_spoof_sock_total by blast
  have "spoof_deliver E p ip sp dp tip w = (Inl OSError, emit (SpoofSendError sock p tip dp) u)"
    using assms by (simp add: spoof_deliver_def pbind_run run spoof_sendto_def pget_run pseq_run pmod_run praise_run)
  moreover have "hands_over w (emit (SpoofSendError sock p tip dp) u) []"
    using get_spoof_sock_quiet[of w E ip sp] run by (simp add: hands_over_def)
  moreover have "snapshot_ctrl (emit (SpoofSendError sock p tip dp) u) = snapshot_ctrl w"
    using get_spoof_sock_ctrl[of E ip sp w] run by simp
  ultimately show ?thesis by (rule that)
qed

subsection \<open>The replay\<close>

definition as_delivered :: "recorded_msg \<Rightarrow> bytes \<times> string \<times> int" where
  "as_delivered m = (m_payload m, m_target_local_ip m, m_dst_port m)"

definition replayed :: "string \<times> recorded_msg list \<Rightarrow> (bytes \<times> string \<times> int) list" where
  "replayed x = map as_delivered (sort_key m_seq (snd x))"

lemma replay_msgs_run:
  assumes "base_inv w" and "\<forall>n. send_ok E n"
  shows "\<exists>v. pfor (replay_msg E ip) ms w = (Inr (), v) \<and> hands_over w v (map as_delivered ms)
    \<and> snapshot_ctrl v = snapshot_ctrl w"
  using assms(1)
proof (induction ms arbitrary: w)
  case Nil
  then show ?case by (simp add: pret_run hands_over_refl)
next
  case (Cons m ms)
  obtain u where u: "replay_msg E ip m w = (Inr (), u)" "hands_over w u [as_delivered m]"
    "snapshot_ctrl u = snapshot_ctrl w"
    unfolding replay_msg_def as_delivered_def
    by (rule spoof_deliver_run[OF Cons.prems assms(2)])
  then have "base_inv u" using Cons.prems by (simp add: hands_over_def)
  from Cons.IH[OF this] obtain v where v: "pfor (replay_msg E ip) ms u = (Inr (), v)"
    "hands_over u v (map as_delivered ms)" "snapshot_ctrl v = snapshot_ctrl u" by blast
  with u hands_over_trans[OF u(2) v(2)] show ?case by (simp add: pseq_run)
qed

lemma replay_channels_run:
  assumes "base_inv w" and "\<forall>n. send_ok E n"
  shows "\<exists>v ch. pfor (replay_channel E) xs w = (Inr (), v)
    \<and> hands_over w v (concat (map replayed xs))
    \<and> snapshot_ctrl v = (snapshot_ctrl w)\<lparr>channel_states := ch\<rparr>"
  using assms(1)
proof (induction xs arbitrary: w)
  case Nil
  show ?case
    by (intro exI[of _ w] exI[of _ "channel_states (snapshot_ctrl w)"])
      (simp add: pret_run hands_over_refl)
next
  case (Cons x xs)
  let ?w = "upd_ctrl (set_channel (fst x) (sort_key m_seq (snd x))) w"
  have "base_inv ?w" using Cons.prems by simp
  from replay_msgs_run[OF this assms(2), of "fst x" "sort_key m_seq (snd x)"]
  obtain u where u: "replay_channel E x w = (Inr (), u)" "hands_over w u (replayed x)"
    "snapshot_ctrl u = set_channel (fst x) (sort_key m_seq (snd x)) (snapshot_ctrl w)"
    by (auto simp: replay_channel_def pseq_pmod replayed_def)
  then have "base_inv u" using Cons.prems by (simp add: hands_over_def)
  from Cons.IH[OF this] obtain v ch where v: "pfor (replay_channel E) xs u = (Inr (), v)"
    "hands_over u v (concat (map replayed xs))"
    "snapshot_ctrl v = (snapshot_ctrl u)\<lparr>channel_states := ch\<rparr>" by blast
  with u hands_over_trans[OF u(2) v(2)] show ?case
    by (auto simp: pseq_run set_channel_def)
qed

subsection \<open>The end of a snapshot\<close>

definition cleared :: "controller \<Rightarrow> controller" where
  "cleared c = (reset_ctrl c)\<lparr>channel_states := []\<rparr>"

lemma flush_run:
  assumes "world_inv w" and "\<forall>n. send_ok E n"
  obtains v where "flush_and_reset (deliver_with E (process_message_n E (Suc n))) w = (Inr (), v)"
    and "hands_over w v (concat (map replayed (channel_states (snapshot_ctrl w))))"
    and "snapshot_ctrl v = cleared (snapshot_ctrl w)"
proof -
  let ?w = "upd_ctrl reset_ctrl w"
  have w: "base_inv w" "ctrl_ok (snapshot_ctrl w)" using assms(1) by (simp_all add: world_inv_def)
  then have "base_inv ?w" by simp
  from replay_channels_run[OF this assms(2), of "channel_states (snapshot_ctrl w)"]
  obtain u ch where u: "pfor (replay_channel E) (channel_states (snapshot_ctrl w)) ?w = (Inr (), u)"
    "hands_over w u (concat (map replayed (channel_states (snapshot_ctrl w))))"
    "snapshot_ctrl u = (reset_ctrl (snapshot_ctrl w))\<lparr>channel_states := ch\<rparr>" by auto
  show ?thesis
    by (rule that[of "upd_ctrl (\<lambda>c. c\<lparr>channel_states := []\<rparr>) u"])
      (simp_all add: flush_and_reset_run[OF w] pseq_run u pmod_run cleared_def
        hands_over_upd_ctrl[OF u(2)] del: process_message_n.simps)
qed

text \<open>
  From \<open>w\<close> to \<open>v\<close> one request was made, then the datagrams \<open>ds\<close> were handed over.
\<close>

definition posts_and_hands_over :: "world \<Rightarrow> world \<Rightarrow> http_req \<Rightarrow> (bytes \<times> string \<times> int) list \<Rightarrow> bool" where
  "posts_and_hands_over w v req ds \<longleftrightarrow>
     delivered (trace v) = delivered (trace w) @ ds \<and> requests (trace v) = requests (trace w) @ [req]
     \<and> tunneled (trace v) = tunneled (trace w) \<and> peers v = peers w
     \<and> tunnel_transport v = tunnel_transport w \<and> is_server v = is_server w
     \<and> local_sock v = local_sock w \<and> world_inv v"

lemma http_call_run:
  "http_call E req w = (Inr (http_ok E (length (trace w))),
     (emit (HttpReq req) w)\<lparr>clock := clock w + http_ms E (length (trace w))\<rparr>)"
  by (simp add: http_call_def pbind_pget pseq_pmod pret_run)

lemma post_and_flush_run:
  assumes w: "world_inv w" and send: "\<forall>n. send_ok E n"
  obtains v where "pseq (post_artifact E a)
      (flush_and_reset (deliver_with E (process_message_n E (Suc n)))) w = (Inr (), v)"
    and "posts_and_hands_over w v (PostSnapshotState a)
      (concat (map replayed (channel_states (snapshot_ctrl w))))"
    and "snapshot_ctrl v = cleared (snapshot_ctrl w)"
proof -
  define u where "u = (emit (HttpReq (PostSnapshotState a)) w)
    \<lparr>clock := clock w + http_ms E (length (trace w))\<rparr>"
  have u: "world_inv u" "snapshot_ctrl u = snapshot_ctrl w"
    using w by (simp_all add: u_def world_inv_def)
  obtain v where v: "flush_and_reset (deliver_with E (process_message_n E (Suc n))) u = (Inr (), v)"
    "hands_over u v (concat (map replayed (channel_states (snapshot_ctrl u))))"
    "snapshot_ctrl v = cleared (snapshot_ctrl u)"
    by (rule flush_run[OF u(1) send])
  have "world_inv v"
    using preserves_runD[OF flush_and_reset_inv[OF deliver_with_inv[OF process_message_n_inv]] u(1) v(1)] .
  moreover have "peer_of u = peer_of w" by (rule ext) (simp add: u_def)
  ultimately show ?thesis
    using v u(2)
    by (intro that[of v])
      (simp_all add: post_artifact_def pseq_run http_call_run flip: u_def,
       simp add: posts_and_hands_over_def hands_over_def, simp add: u_def)
qed

text \<open>Completion and abort differ in the status alone.\<close>

lemma finish_run:
  assumes "world_inv w" and "\<forall>n. send_ok E n"
    and "build_artifact E ''complete'' (snapshot_ctrl w) = Inr a"
  obtains v where
    "finish_global_snapshot E (deliver_with E (process_message_n E (Suc n))) w = (Inr (), v)"
    and "posts_and_hands_over w v (PostSnapshotState a)
      (concat (map replayed (channel_states (snapshot_ctrl w))))"
    and "snapshot_ctrl v = cleared (snapshot_ctrl w)"
proof (rule post_and_flush_run[OF assms(1,2), where a = a and n = n])
  fix v
  assume "pseq (post_artifact E a)
      (flush_and_reset (deliver_with E (process_message_n E (Suc n)))) w = (Inr (), v)"
  then have "finish_global_snapshot E (deliver_with E (process_message_n E (Suc n))) w = (Inr (), v)"
    by (simp add: finish_global_snapshot_def pbind_pget assms(3) del: process_message_n.simps)
  then show "posts_and_hands_over w v (PostSnapshotState a)
      (concat (map replayed (channel_states (snapshot_ctrl w)))) \<Longrightarrow>
    snapshot_ctrl v = cleared (snapshot_ctrl w) \<Longrightarrow> thesis" by (rule that)
qed

lemma abort_run:
  assumes "world_inv w" and "\<forall>n. send_ok E n"
    and "build_artifact E ''aborted'' (snapshot_ctrl w) = Inr a"
  obtains v where
    "abort_snapshot E (deliver_with E (process_message_n E (Suc n))) w = (Inr (), v)"
    and "posts_and_hands_over w v (PostSnapshotState a)
      (concat (map replayed (channel_states (snapshot_ctrl w))))"
    and "snapshot_ctrl v = cleared (snapshot_ctrl w)"
proof (rule post_and_flush_run[OF assms(1,2), where a = a and n = n])
  fix v
  assume "pseq (post_artifact E a)
      (flush_and_reset (deliver_with E (process_message_n E (Suc n)))) w = (Inr (), v)"
  then have "abort_snapshot E (deliver_with E (process_message_n E (Suc n))) w = (Inr (), v)"
    by (simp add: abort_snapshot_def pbind_pget assms(3) del: process_message_n.simps)
  then show "posts_and_hands_over w v (PostSnapshotState a)
      (concat (map replayed (channel_states (snapshot_ctrl w)))) \<Longrightarrow>
    snapshot_ctrl v = cleared (snapshot_ctrl w) \<Longrightarrow> thesis" by (rule that)
qed

end
