(* ===== verification/Cut.thy ===== *)
theory Cut
  imports Delivery
begin

text \<open>
  The local side of the Chandy-Lamport algorithm: what the first marker does (identity,
  drain, checkpoint, a marker on every outgoing channel with its send coordinate, the
  recording set), what is recorded until the next marker of a channel, and what the last
  marker and the timeout leave behind.
\<close>

subsection \<open>Who am I\<close>

definition self_ip_of :: "env \<Rightarrow> controller \<Rightarrow> string option" where
  "self_ip_of E c =
     (case MESH_SELF E of Some (x # xs) \<Rightarrow> Some (x # xs)
      | _ \<Rightarrow> (case self_ip_cache c of Some ip \<Rightarrow> Some ip
              | None \<Rightarrow> (case MESH_MEMBERS E of [] \<Rightarrow> None | m # _ \<Rightarrow> route_src E m)))"

definition cache_self :: "env \<Rightarrow> controller \<Rightarrow> controller" where
  "cache_self E c =
     (case MESH_SELF E of Some (x # xs) \<Rightarrow> c
      | _ \<Rightarrow> (case self_ip_cache c of Some ip \<Rightarrow> c | None \<Rightarrow> c\<lparr>self_ip_cache := self_ip_of E c\<rparr>))"

lemma upd_ctrl_id [simp]: "upd_ctrl (\<lambda>c. c) w = w"
  by (simp add: upd_ctrl_def)

lemma self_mesh_ip_run:
  "self_mesh_ip E w = (Inr (self_ip_of E (snapshot_ctrl w)), upd_ctrl (cache_self E) w)"
proof (cases "\<exists>x xs. MESH_SELF E = Some (x # xs)")
  case True
  then show ?thesis
    by (auto simp: self_mesh_ip_def self_ip_of_def cache_self_def [abs_def] pret_run)
next
  case False
  have same: "upd_ctrl (cache_self E) w = upd_ctrl (\<lambda>_. cache_self E (snapshot_ctrl w)) w"
    by (simp add: upd_ctrl_def)
  have none: "upd_ctrl (\<lambda>_. c\<lparr>self_ip_cache := None\<rparr>) w = w"
    if "self_ip_cache (snapshot_ctrl w) = None" "c = snapshot_ctrl w" for c
    using that by (cases w; cases "snapshot_ctrl w") (simp add: upd_ctrl_def)
  have keep: "upd_ctrl (\<lambda>_. snapshot_ctrl w) w = w" by (simp add: upd_ctrl_def)
  from False show ?thesis
    unfolding same self_mesh_ip_def self_ip_of_def cache_self_def
    by (auto simp: py_run none keep upd_ctrl_def split: option.split list.split)
qed

lemma cache_self_fields [simp]:
  "is_snapshotting (cache_self E c) = is_snapshotting c"
  "current_snapshot_id (cache_self E c) = current_snapshot_id c"
  "recording_channels (cache_self E c) = recording_channels c"
  "channel_states (cache_self E c) = channel_states c"
  "recorded_send_seq (cache_self E c) = recorded_send_seq c"
  "recorded_recv_seq (cache_self E c) = recorded_recv_seq c"
  "snapshot_deadline (cache_self E c) = snapshot_deadline c"
  by (auto simp: cache_self_def split: option.split list.split)

text \<open>The answer does not change once it has been given.\<close>

lemma self_ip_stable:
  "self_ip_of E (cache_self E c) = self_ip_of E c"
  by (auto simp: self_ip_of_def cache_self_def split: option.splits list.splits)

text \<open>The members a snapshot marks: the static membership without this node.\<close>

definition others :: "env \<Rightarrow> world \<Rightarrow> string list" where
  "others E w = filter (\<lambda>ip. Some ip \<noteq> self_ip_of E (snapshot_ctrl w)) (MESH_MEMBERS E)"

subsection \<open>The fan-out\<close>

definition marker_frame :: "world \<Rightarrow> bytes \<Rightarrow> string \<Rightarrow> bytes" where
  "marker_frame w payload ip = data_header (0, send_seq (peer_of w ip), 0, 0, ZERO_IP) @ payload"

definition mark_peer :: "bytes \<Rightarrow> string \<Rightarrow> world \<Rightarrow> world" where
  "mark_peer payload ip w =
     upd_ctrl (\<lambda>c. c\<lparr>recorded_send_seq :=
         AList.update ip (send_seq (peer_of w ip) + 1) (recorded_send_seq c)\<rparr>)
       (sent_data ip (marker_frame w payload ip) (ensured ip w))"

lemma broadcast_marker_run:
  assumes "tunnel_transport w" and "is_uint 8 (send_seq (peer_of w ip))"
  shows "broadcast_marker payload ip w = (Inr (), mark_peer payload ip w)"
proof -
  have ok: "data_header_ok (0, send_seq (peer_of w ip), 0, 0, ZERO_IP)"
    using assms(2) by (simp add: is_uint_def)
  have "send_data ip 0 0 ZERO_IP payload (ensured ip w) =
      (Inr (), sent_data ip (marker_frame w payload ip) (ensured ip w))"
    unfolding marker_frame_def
    by (rule send_data_run) (simp_all add: assms(1) data_header_pack_ok[OF ok] del: data_header_pack.simps)
  then show ?thesis
    by (simp add: broadcast_marker_def pseq_run get_peer_run pmod_run mark_peer_def)
qed

lemma mark_peer_fields [simp]:
  "spoof_sockets (mark_peer p ip w) = spoof_sockets w"
  "tunnel_transport (mark_peer p ip w) = tunnel_transport w"
  "is_server (mark_peer p ip w) = is_server w" "local_sock (mark_peer p ip w) = local_sock w"
  "clock (mark_peer p ip w) = clock w" "next_sock (mark_peer p ip w) = next_sock w"
  "trace (mark_peer p ip w) = trace w @ [TunnelSend (marker_frame w p ip) ip]"
  "peer_of (mark_peer p ip w) jp =
     (if jp = ip then (peer_of w ip)\<lparr>unacked := AList.update (send_seq (peer_of w ip))
          (clock w, marker_frame w p ip) (unacked (peer_of w ip)), send_seq := send_seq (peer_of w ip) + 1\<rparr>
      else peer_of w jp)"
  "snapshot_ctrl (mark_peer p ip w) = (snapshot_ctrl w)\<lparr>recorded_send_seq :=
     AList.update ip (send_seq (peer_of w ip) + 1) (recorded_send_seq (snapshot_ctrl w))\<rparr>"
  by (simp_all add: mark_peer_def)

lemma fan_out_run:
  assumes "tunnel_transport w" and "distinct ips" and "\<forall>ip\<in>set ips. is_uint 8 (send_seq (peer_of w ip))"
  shows "pfor (broadcast_marker p) ips w = (Inr (), fold (mark_peer p) ips w)"
  using assms
proof (induction ips arbitrary: w)
  case Nil
  then show ?case by (simp add: pret_run)
next
  case (Cons ip ips)
  have "\<forall>jp\<in>set ips. peer_of (mark_peer p ip w) jp = peer_of w jp"
    using Cons.prems(2) by auto
  with Cons show ?case by (simp add: pseq_run broadcast_marker_run)
qed

lemma fan_out_frame:
  "spoof_sockets (fold (mark_peer p) ips w) = spoof_sockets w"
  "tunnel_transport (fold (mark_peer p) ips w) = tunnel_transport w"
  "is_server (fold (mark_peer p) ips w) = is_server w"
  "local_sock (fold (mark_peer p) ips w) = local_sock w"
  "clock (fold (mark_peer p) ips w) = clock w"
  "jp \<notin> set ips \<Longrightarrow> peer_of (fold (mark_peer p) ips w) jp = peer_of w jp"
  by (induction ips arbitrary: w) auto

lemma fan_out_ctrl:
  obtains d where "snapshot_ctrl (fold (mark_peer p) ips w) = (snapshot_ctrl w)\<lparr>recorded_send_seq := d\<rparr>"
proof (induction ips arbitrary: w thesis)
  case Nil
  show ?case by (rule Nil[of "recorded_send_seq (snapshot_ctrl w)"]) simp
next
  case (Cons ip ips)
  show ?case by (rule Cons.IH[of "mark_peer p ip w"]) (rule Cons.prems, simp)
qed

text \<open>Exactly one marker per member, in membership order, with the sender's next number.\<close>

lemma fan_out_trace:
  "distinct ips \<Longrightarrow> trace (fold (mark_peer p) ips w)
    = trace w @ map (\<lambda>ip. TunnelSend (marker_frame w p ip) ip) ips"
proof (induction ips arbitrary: w)
  case (Cons ip ips)
  then have "marker_frame (mark_peer p ip w) p jp = marker_frame w p jp" if "jp \<in> set ips" for jp
    using that by (cases "jp = ip") (simp_all add: marker_frame_def)
  with Cons show ?case by simp
qed simp

lemma fan_out_send_seq:
  assumes "distinct ips" and "ip \<in> set ips"
  shows "send_seq (peer_of (fold (mark_peer p) ips w) ip) = send_seq (peer_of w ip) + 1"
  using assms
proof (induction ips arbitrary: w)
  case (Cons jp ips)
  show ?case
  proof (cases "ip = jp")
    case True
    with Cons.prems have "peer_of (fold (mark_peer p) ips (mark_peer p jp w)) ip
        = peer_of (mark_peer p jp w) ip"
      by (intro fan_out_frame(6)) simp
    with True show ?thesis by simp
  next
    case False
    with Cons show ?thesis by simp
  qed
qed simp

lemma fan_out_recorded:
  "distinct ips \<Longrightarrow> map_of (recorded_send_seq (snapshot_ctrl (fold (mark_peer p) ips w))) ip
    = (if ip \<in> set ips then Some (send_seq (peer_of w ip) + 1)
       else map_of (recorded_send_seq (snapshot_ctrl w)) ip)"
proof (induction ips arbitrary: w)
  case (Cons jp ips)
  then show ?case by (cases "ip = jp") auto
qed simp

subsection \<open>The first marker\<close>

lemma marker_id_of_append [simp]: "marker_id_of (MARKER @ i) = i"
  by (simp add: marker_id_of_def MARKER_def)

lemma starts_with_marker [simp]: "starts_with MARKER (MARKER @ i)"
  by simp

lemma begin_snapshot_fields [simp]:
  "is_snapshotting (begin_snapshot i c)" "current_snapshot_id (begin_snapshot i c) = Some i"
  "channel_states (begin_snapshot i c) = []" "recorded_send_seq (begin_snapshot i c) = []"
  "recorded_recv_seq (begin_snapshot i c) = []"
  by (simp_all add: begin_snapshot_def)

lemma start_recording_fields [simp]:
  "is_snapshotting (start_recording ms ip c) = is_snapshotting c"
  "current_snapshot_id (start_recording ms ip c) = current_snapshot_id c"
  "channel_states (start_recording ms ip c) = channel_states c"
  "recorded_send_seq (start_recording ms ip c) = recorded_send_seq c"
  "recorded_recv_seq (start_recording ms ip c) = recorded_recv_seq c"
  "set (recording_channels (start_recording ms ip c)) = set ms - {ip}"
  by (auto simp: start_recording_def)

lemma open_channels_fields [simp]:
  "is_snapshotting (open_channels E c) = is_snapshotting c"
  "current_snapshot_id (open_channels E c) = current_snapshot_id c"
  "recording_channels (open_channels E c) = recording_channels c"
  "recorded_send_seq (open_channels E c) = recorded_send_seq c"
  "recorded_recv_seq (open_channels E c) = recorded_recv_seq c"
  by (simp_all add: open_channels_def)

lemma close_origin_fields [simp]:
  "is_snapshotting (close_origin ms ip seq c) = is_snapshotting c"
  "current_snapshot_id (close_origin ms ip seq c) = current_snapshot_id c"
  "recording_channels (close_origin ms ip seq c) = recording_channels c"
  "recorded_send_seq (close_origin ms ip seq c) = recorded_send_seq c"
  "map_of (channel_states (close_origin ms ip seq c)) jp =
     (if jp = ip \<and> ip \<in> set ms then Some [] else map_of (channel_states c) jp)"
  "map_of (recorded_recv_seq (close_origin ms ip seq c)) jp =
     (if jp = ip \<and> ip \<in> set ms then Some (seq + 1) else map_of (recorded_recv_seq c) jp)"
  by (simp_all add: close_origin_def)

text \<open>The state in which the drain runs.\<close>

definition recording_started :: "env \<Rightarrow> bytes \<Rightarrow> string \<Rightarrow> world \<Rightarrow> world" where
  "recording_started E i ip w =
     upd_ctrl (\<lambda>c. start_recording (others E w) ip (cache_self E (begin_snapshot i c))) w"

lemma recorded_channels_open:
  "map_of (fold (\<lambda>ip d. AList.update ip [] d) ips d) ip
    = (if ip \<in> set ips then Some [] else map_of d ip)"
  by (induction ips arbitrary: d) auto

text \<open>
  The cut a first marker opens, given the state \<open>v\<close> the drain leaves: the controller \<open>c\<close>
  and the trace \<open>t\<close>.
\<close>

definition opened :: "env \<Rightarrow> bytes \<Rightarrow> string \<Rightarrow> int \<Rightarrow> string list \<Rightarrow> world \<Rightarrow> world \<Rightarrow> bool" where
  "opened E i ip seq ms v u \<longleftrightarrow>
     (let c = snapshot_ctrl u in
      is_snapshotting c \<and> current_snapshot_id c = Some i
      \<and> set (recording_channels c) = set ms - {ip}
      \<and> (\<forall>jp. map_of (channel_states c) jp = (if jp \<in> set ms then Some [] else None))
      \<and> (\<forall>jp. map_of (recorded_send_seq c) jp =
           (if jp \<in> set ms then Some (send_seq (peer_of v jp) + 1) else None))
      \<and> (\<forall>jp. map_of (recorded_recv_seq c) jp =
           (if jp = ip \<and> ip \<in> set ms then Some (seq + 1) else None))
      \<and> snapshot_deadline c = Some (clock u + SNAPSHOT_TIMEOUT)
      \<and> trace u = trace v
          @ [HttpReq (checkpoint_req E i)]
          @ map (\<lambda>jp. TunnelSend (marker_frame v (MARKER @ i) jp) jp) ms
      \<and> (\<forall>jp. send_seq (peer_of u jp) =
           send_seq (peer_of v jp) + (if jp \<in> set ms then 1 else 0)))"

lemma self_ip_begin [simp]: "self_ip_of E (begin_snapshot i c) = self_ip_of E c"
  by (simp add: self_ip_of_def begin_snapshot_def split: option.split list.split)

lemma open_cut_run:
  assumes w: "world_inv w" and up: "tunnel_transport w"
    and members: "distinct (MESH_MEMBERS E)" and set_iter: "\<forall>xs. set (set_iter E xs) = set xs"
    and i: "utf8_valid i"
    and drain: "drain_intercept E (recording_started E i ip w) = (Inr (), v)"
    and seqs: "\<forall>jp\<in>set (others E w). is_uint 8 (send_seq (peer_of v jp))"
  shows "\<exists>u. open_cut E ip seq (MARKER @ i) w = (Inr (), u) \<and> opened E i ip seq (others E w) v u
    \<and> snapping u"
proof -
  let ?ms = "others E w"
  define h where "h = (emit (HttpReq (checkpoint_req E i)) v)\<lparr>clock := clock v + http_ms E (length (trace v))\<rparr>"
  define f where "f = fold (mark_peer (MARKER @ i)) ?ms h"
  define u where "u = upd_ctrl (\<lambda>c. (close_origin ?ms ip seq (open_channels E c))
      \<lparr>snapshot_deadline := Some (clock f + SNAPSHOT_TIMEOUT)\<rparr>) f"
  have base: "base_inv (recording_started E i ip w)"
    using w by (simp add: world_inv_def recording_started_def)
  have v: "snapshot_ctrl v = snapshot_ctrl (recording_started E i ip w)" "tunnel_transport v"
    using preserves_runD[OF drain_intercept_frame frameI[OF base] drain] up
    by (simp_all add: frame_def still_def recording_started_def)
  have ms: "distinct ?ms" using members by (simp add: others_def)
  have peer_h: "peer_of h jp = peer_of v jp" for jp by (simp add: h_def)
  have fan: "pfor (broadcast_marker (MARKER @ i)) ?ms h = (Inr (), f)"
    unfolding f_def by (rule fan_out_run) (use v(2) ms seqs in \<open>simp_all add: h_def\<close>)
  have begun: "(recording_started E i ip w) =
      upd_ctrl (start_recording ?ms ip) (upd_ctrl (cache_self E) (upd_ctrl (begin_snapshot i) w))"
    by (simp add: recording_started_def upd_ctrl_def)
  have trigger: "trigger_app_snapshot E i v = (Inr (), h)"
    by (simp add: trigger_app_snapshot_def pseq_run http_call_run pret_run h_def)
  have run: "open_cut E ip seq (MARKER @ i) w = (Inr (), u)"
  proof -
    have "open_cut E ip seq (MARKER @ i) w =
      pseq (drain_intercept E)
       (pseq (trigger_app_snapshot E i)
       (pseq (pfor (broadcast_marker (MARKER @ i)) ?ms)
       (pseq (pmod (upd_ctrl (open_channels E)))
       (pseq (pmod (upd_ctrl (close_origin ?ms ip seq)))
         (pmod (\<lambda>w. upd_ctrl (\<lambda>c. c\<lparr>snapshot_deadline := Some (clock w + SNAPSHOT_TIMEOUT)\<rparr>) w))))))
       (recording_started E i ip w)"
      by (simp add: open_cut_def Let_def pseq_pmod
          pbind_Inr[where m = "self_mesh_ip E", OF self_mesh_ip_run] i begun others_def)
    also have "\<dots> = (Inr (), u)"
      by (simp add: pseq_run drain trigger fan pmod_run u_def upd_ctrl_def)
    finally show ?thesis .
  qed
  obtain d where cf: "snapshot_ctrl f = (snapshot_ctrl h)\<lparr>recorded_send_seq := d\<rparr>"
    unfolding f_def by (rule fan_out_ctrl)
  have ch: "snapshot_ctrl h = start_recording ?ms ip (cache_self E (begin_snapshot i (snapshot_ctrl w)))"
    using v(1) by (simp add: h_def recording_started_def)
  have send: "map_of (recorded_send_seq (snapshot_ctrl f)) jp =
      (if jp \<in> set ?ms then Some (send_seq (peer_of v jp) + 1) else None)" for jp
    unfolding f_def
    by (subst fan_out_recorded[OF ms])
      (simp add: peer_h ch)
  have seq_u: "send_seq (peer_of u jp) = send_seq (peer_of v jp) + (if jp \<in> set ?ms then 1 else 0)" for jp
    using fan_out_send_seq[OF ms, of jp "MARKER @ i" h] fan_out_frame(6)[of jp ?ms "MARKER @ i" h]
    by (simp add: u_def f_def peer_h)
  have ctrl: "is_snapshotting (snapshot_ctrl f)" "current_snapshot_id (snapshot_ctrl f) = Some i"
    "set (recording_channels (snapshot_ctrl f)) = set ?ms - {ip}"
    "channel_states (snapshot_ctrl f) = []" "recorded_recv_seq (snapshot_ctrl f) = []"
    by (simp_all add: cf ch)
  have "trace f = trace v @ [HttpReq (checkpoint_req E i)]
      @ map (\<lambda>jp. TunnelSend (marker_frame v (MARKER @ i) jp) jp) ?ms"
    unfolding f_def fan_out_trace[OF ms] by (simp add: h_def marker_frame_def)
  then have "opened E i ip seq ?ms v u"
    unfolding opened_def Let_def seq_u
    by (intro conjI allI) (auto simp: u_def ctrl send set_iter open_channels_def recorded_channels_open)
  moreover have "snapping u"
    using open_cut_leads[of E ip seq "MARKER @ i"] w run by (auto simp: leads_def dest: spec[of _ w])
  ultimately show ?thesis using run by blast
qed

subsection \<open>One arrival while idle or recording\<close>

lemma process_message_marker_idle:
  assumes "\<not> is_snapshotting (snapshot_ctrl w)"
  shows "process_message E ip seq (MARKER @ i) sp dp tip w =
    pseq (first_marker E (deliver_with E (process_message_n E (Suc 0))) ip seq (MARKER @ i))
      (pret True) w"
  using assms
  by (simp add: process_message_def numeral_2_eq_2 process_message_with_def pbind_pget
      del: process_message_n.simps(2)[of E "0"])

lemma process_message_marker:
  assumes "is_snapshotting (snapshot_ctrl w)"
  shows "process_message E ip seq (MARKER @ i) sp dp tip w =
    pseq (later_marker E (deliver_with E (process_message_n E (Suc 0))) ip seq (MARKER @ i))
      (pret True) w"
  using assms
  by (simp add: process_message_def numeral_2_eq_2 process_message_with_def pbind_pget
      del: process_message_n.simps(2)[of E "0"])

text \<open>A message is recorded while its channel waits for a marker, and passes otherwise.\<close>

lemma process_message_record:
  assumes "is_snapshotting (snapshot_ctrl w)" and "ip \<in> set (recording_channels (snapshot_ctrl w))"
    and "map_of (channel_states (snapshot_ctrl w)) ip = Some ms" and "\<not> starts_with MARKER p"
  shows "process_message E ip seq p sp dp tip w = (Inr True,
    upd_ctrl (set_channel ip (ms @ [\<lparr>m_seq = seq, m_payload = p, m_src_port = sp, m_dst_port = dp,
      m_target_local_ip = tip\<rparr>])) w)"
  using assms
  by (simp add: process_message_def numeral_2_eq_2 process_message_with_def pbind_pget record_msg_def
      pseq_run pmod_run pret_run upd_ctrl_def set_channel_def)

lemma process_message_pass:
  assumes "\<not> (is_snapshotting (snapshot_ctrl w) \<and> ip \<in> set (recording_channels (snapshot_ctrl w)))"
    and "\<not> starts_with MARKER p"
  shows "process_message E ip seq p sp dp tip w = (Inr False, w)"
  using assms
  by (auto simp: process_message_def numeral_2_eq_2 process_message_with_def pbind_pget pret_run)

text \<open>A marker of another snapshot, and one on a channel that is not recorded, change nothing.\<close>

lemma process_message_stale:
  assumes "is_snapshotting (snapshot_ctrl w)" and "current_snapshot_id (snapshot_ctrl w) \<noteq> Some j"
    and "utf8_valid j"
  shows "process_message E ip seq (MARKER @ j) sp dp tip w = (Inr True, w)"
  using assms
  by (simp add: process_message_marker later_marker_def Let_def pseq_run pbind_pget pret_run
      del: process_message_n.simps)

lemma process_message_repeated:
  assumes "is_snapshotting (snapshot_ctrl w)" and "current_snapshot_id (snapshot_ctrl w) = Some i"
    and "ip \<notin> set (recording_channels (snapshot_ctrl w))"
  shows "process_message E ip seq (MARKER @ i) sp dp tip w = (Inr True, w)"
  using assms
  by (simp add: process_message_marker later_marker_def Let_def pseq_run pbind_pget pret_run
      del: process_message_n.simps)

text \<open>The marker of a recorded channel closes it; the last one ends the snapshot.\<close>

lemma process_message_close:
  assumes "is_snapshotting (snapshot_ctrl w)" and "current_snapshot_id (snapshot_ctrl w) = Some i"
    and "ip \<in> set (recording_channels (snapshot_ctrl w))"
  shows "process_message E ip seq (MARKER @ i) sp dp tip w =
    pseq (finish_if_done E (deliver_with E (process_message_n E (Suc 0)))) (pret True)
      (upd_ctrl (close_channel ip seq) w)"
  using assms
  by (simp add: process_message_marker later_marker_def Let_def pseq_run pbind_pget pmod_run
      del: process_message_n.simps)

lemma close_channel_fields [simp]:
  "is_snapshotting (close_channel ip seq c) = is_snapshotting c"
  "current_snapshot_id (close_channel ip seq c) = current_snapshot_id c"
  "channel_states (close_channel ip seq c) = channel_states c"
  "recorded_send_seq (close_channel ip seq c) = recorded_send_seq c"
  "snapshot_deadline (close_channel ip seq c) = snapshot_deadline c"
  "set (recording_channels (close_channel ip seq c)) = set (recording_channels c) - {ip}"
  "map_of (recorded_recv_seq (close_channel ip seq c)) jp =
     (if jp = ip then Some (seq + 1) else map_of (recorded_recv_seq c) jp)"
  by (auto simp: close_channel_def)

lemma process_message_close_some:
  assumes "is_snapshotting (snapshot_ctrl w)" and "current_snapshot_id (snapshot_ctrl w) = Some i"
    and "ip \<in> set (recording_channels (snapshot_ctrl w))"
    and "set (recording_channels (snapshot_ctrl w)) \<noteq> {ip}"
  shows "process_message E ip seq (MARKER @ i) sp dp tip w =
    (Inr True, upd_ctrl (close_channel ip seq) w)"
proof -
  have "recording_channels (close_channel ip seq (snapshot_ctrl w)) \<noteq> []"
    using assms(3,4) by (auto simp: close_channel_def filter_empty_conv)
  then show ?thesis
    by (simp add: process_message_close[OF assms(1-3)] finish_if_done_def pseq_run pbind_pget
        pret_run del: process_message_n.simps)
qed

end
