(* ===== verification/Recording.thy ===== *)
theory Recording
  imports Cut "HOL-Library.Multiset"
begin

text \<open>
  The window between the first and the last marker of a snapshot, for any interleaving of
  arrivals on any channels: what a channel's state holds, which messages reach the
  application in the meantime, and what the snapshot ends with. The specification is in
  terms of the sequence of arrivals alone.
\<close>

subsection \<open>Arrivals\<close>

text \<open>What the tunnel hands to \<open>process_and_deliver\<close>, in order.\<close>

record arrival =
  a_ip :: string
  a_seq :: int
  a_payload :: bytes
  a_src_port :: int
  a_dst_port :: int
  a_local_ip :: string

definition arrive :: "env \<Rightarrow> arrival \<Rightarrow> unit act" where
  "arrive E x = process_and_deliver E (a_seq x) (a_payload x) (a_ip x) (a_src_port x) (a_dst_port x)
     (a_local_ip x)"

definition to_msg :: "arrival \<Rightarrow> recorded_msg" where
  "to_msg x = \<lparr>m_seq = a_seq x, m_payload = a_payload x, m_src_port = a_src_port x,
     m_dst_port = a_dst_port x, m_target_local_ip = a_local_ip x\<rparr>"

definition is_marker :: "arrival \<Rightarrow> bool" where
  "is_marker x \<longleftrightarrow> starts_with MARKER (a_payload x)"

text \<open>The specification: which arrivals close, are recorded, and pass.\<close>

definition closes :: "bytes \<Rightarrow> arrival \<Rightarrow> bool" where
  "closes i x \<longleftrightarrow> a_payload x = MARKER @ i"

definition closed :: "bytes \<Rightarrow> arrival list \<Rightarrow> string set" where
  "closed i xs = a_ip ` set (filter (closes i) xs)"

definition channel_part :: "bytes \<Rightarrow> string \<Rightarrow> arrival list \<Rightarrow> recorded_msg list" where
  "channel_part i ip xs =
     map to_msg (filter (\<lambda>x. \<not> is_marker x)
       (takeWhile (\<lambda>x. \<not> closes i x) (filter (\<lambda>x. a_ip x = ip) xs)))"

definition close_seq :: "bytes \<Rightarrow> string \<Rightarrow> arrival list \<Rightarrow> int" where
  "close_seq i ip xs = a_seq (hd (filter (\<lambda>x. a_ip x = ip \<and> closes i x) xs))"

fun passing :: "bytes \<Rightarrow> string set \<Rightarrow> arrival list \<Rightarrow> arrival list" where
  "passing i R [] = []"
| "passing i R (x # xs) =
     (if is_marker x then passing i (if closes i x then R - {a_ip x} else R) xs
      else if a_ip x \<in> R then passing i R xs
      else x # passing i R xs)"

definition handed :: "arrival \<Rightarrow> bytes \<times> string \<times> int" where
  "handed x = (a_payload x, a_local_ip x, a_dst_port x)"

lemma handed_to_msg [simp]: "as_delivered (to_msg x) = handed x"
  by (simp add: as_delivered_def to_msg_def handed_def)

lemma closes_marker: "closes i x \<Longrightarrow> is_marker x"
  by (simp add: closes_def is_marker_def)

lemma marker_cases:
  obtains (message) "\<not> is_marker x" | (marker) j where "a_payload x = MARKER @ j"
  using starts_withE[of MARKER "a_payload x"] unfolding is_marker_def by blast

lemma closed_simps [simp]:
  "closed i [] = {}"
  "closed i (x # xs) = (if closes i x then insert (a_ip x) (closed i xs) else closed i xs)"
  by (simp_all add: closed_def)

lemma channel_part_simps [simp]:
  "channel_part i ip [] = []"
  "a_ip x \<noteq> ip \<Longrightarrow> channel_part i ip (x # xs) = channel_part i ip xs"
  "closes i x \<Longrightarrow> channel_part i (a_ip x) (x # xs) = []"
  "\<not> closes i x \<Longrightarrow> is_marker x \<Longrightarrow> channel_part i (a_ip x) (x # xs) = channel_part i (a_ip x) xs"
  "\<not> is_marker x \<Longrightarrow> channel_part i (a_ip x) (x # xs) = to_msg x # channel_part i (a_ip x) xs"
      apply (simp add: channel_part_def)
     apply (simp add: channel_part_def)
    apply (simp add: channel_part_def)
   apply (simp add: channel_part_def)
  apply (frule contrapos_nn[OF _ closes_marker[of i]], assumption)
  apply (simp add: channel_part_def)
  done

lemma channel_part_single:
  "channel_part i ip [x] = (if a_ip x = ip \<and> \<not> is_marker x then [to_msg x] else [])"
  by (cases "a_ip x = ip"; cases "is_marker x"; cases "closes i x")
    (auto simp: closes_marker)

lemma close_seq_simps [simp]:
  "close_seq i ip (x # xs) = (if a_ip x = ip \<and> closes i x then a_seq x else close_seq i ip xs)"
  by (simp add: close_seq_def)

text \<open>Every message either passes or is in the state of a recorded channel.\<close>

lemma passing_outside: "x \<in> set (passing i R xs) \<Longrightarrow> x \<in> set xs \<and> \<not> is_marker x"
  by (induction i R xs rule: passing.induct) (auto split: if_splits)

subsection \<open>One window\<close>

text \<open>How the arrivals \<open>xs\<close> take a recording sidecar from \<open>w\<close> to \<open>v\<close>.\<close>

definition records :: "bytes \<Rightarrow> world \<Rightarrow> arrival list \<Rightarrow> world \<Rightarrow> bool" where
  "records i w xs v \<longleftrightarrow>
     (let c = snapshot_ctrl w; d = snapshot_ctrl v; R = set (recording_channels c) in
      is_snapshotting d \<and> current_snapshot_id d = Some i
      \<and> snapshot_deadline d = snapshot_deadline c \<and> recorded_send_seq d = recorded_send_seq c
      \<and> set (recording_channels d) = R - closed i xs
      \<and> (\<forall>ip. map_of (channel_states d) ip =
           (if ip \<in> R then map_option (\<lambda>ms. ms @ channel_part i ip xs) (map_of (channel_states c) ip)
            else map_of (channel_states c) ip))
      \<and> (\<forall>ip. map_of (recorded_recv_seq d) ip =
           (if ip \<in> R \<and> ip \<in> closed i xs then Some (close_seq i ip xs + 1)
            else map_of (recorded_recv_seq c) ip))
      \<and> hands_over w v (map handed (passing i R xs)))"

lemma records_Nil:
  "is_snapshotting (snapshot_ctrl w) \<Longrightarrow> current_snapshot_id (snapshot_ctrl w) = Some i \<Longrightarrow>
   records i w [] w"
  by (simp add: records_def Let_def hands_over_refl option.map_id0 option.map_ident
        channel_part_single)

lemma records_Cons:
  assumes first: "records i w [x] v" and rest: "records i v xs u"
  shows "records i w (x # xs) u"
proof -
  let ?R = "set (recording_channels (snapshot_ctrl w))"
  let ?R' = "set (recording_channels (snapshot_ctrl v))"
  have R': "?R' = (if closes i x then ?R - {a_ip x} else ?R)"
    using first by (auto simp: records_def Let_def)
  have "passing i ?R [x] @ passing i ?R' xs = passing i ?R (x # xs)"
    unfolding R' by (auto dest: closes_marker)
  moreover have "hands_over w u (map handed (passing i ?R [x]) @ map handed (passing i ?R' xs))"
    using hands_over_trans first rest unfolding records_def Let_def by blast
  ultimately have hand: "hands_over w u (map handed (passing i ?R (x # xs)))"
    by (simp flip: map_append)
  have chan: "map_of (channel_states (snapshot_ctrl u)) ip =
      (if ip \<in> ?R then map_option (\<lambda>ms. ms @ channel_part i ip (x # xs))
         (map_of (channel_states (snapshot_ctrl w)) ip)
       else map_of (channel_states (snapshot_ctrl w)) ip)" for ip
  proof -
    have "map_of (channel_states (snapshot_ctrl v)) ip =
      (if ip \<in> ?R then map_option (\<lambda>ms. ms @ channel_part i ip [x])
         (map_of (channel_states (snapshot_ctrl w)) ip)
       else map_of (channel_states (snapshot_ctrl w)) ip)"
      using first unfolding records_def Let_def by blast
    moreover have "map_of (channel_states (snapshot_ctrl u)) ip =
      (if ip \<in> ?R' then map_option (\<lambda>ms. ms @ channel_part i ip xs)
         (map_of (channel_states (snapshot_ctrl v)) ip)
       else map_of (channel_states (snapshot_ctrl v)) ip)"
      using rest unfolding records_def Let_def by blast
    ultimately show ?thesis
      unfolding R'
      by (cases "map_of (channel_states (snapshot_ctrl w)) ip"; cases "a_ip x = ip";
          cases "closes i x"; cases "is_marker x") (auto dest: closes_marker)
  qed
  have recv: "map_of (recorded_recv_seq (snapshot_ctrl u)) ip =
      (if ip \<in> ?R \<and> ip \<in> closed i (x # xs) then Some (close_seq i ip (x # xs) + 1)
       else map_of (recorded_recv_seq (snapshot_ctrl w)) ip)" for ip
  proof -
    have "map_of (recorded_recv_seq (snapshot_ctrl v)) ip =
      (if ip \<in> ?R \<and> ip \<in> closed i [x] then Some (close_seq i ip [x] + 1)
       else map_of (recorded_recv_seq (snapshot_ctrl w)) ip)"
      using first unfolding records_def Let_def by blast
    moreover have "map_of (recorded_recv_seq (snapshot_ctrl u)) ip =
      (if ip \<in> ?R' \<and> ip \<in> closed i xs then Some (close_seq i ip xs + 1)
       else map_of (recorded_recv_seq (snapshot_ctrl v)) ip)"
      using rest unfolding records_def Let_def by blast
    ultimately show ?thesis unfolding R' by (cases "closes i x"; cases "a_ip x = ip") auto
  qed
  show ?thesis
    using first rest R' chan recv hand
    unfolding records_def Let_def by (intro conjI) (simp_all, blast)
qed

text \<open>A sidecar in a window: every channel that waits for its marker has a list.\<close>

definition window :: "bytes \<Rightarrow> world \<Rightarrow> bool" where
  "window i w \<longleftrightarrow> base_inv w \<and> is_snapshotting (snapshot_ctrl w)
     \<and> current_snapshot_id (snapshot_ctrl w) = Some i
     \<and> (\<forall>ip\<in>set (recording_channels (snapshot_ctrl w)).
          map_of (channel_states (snapshot_ctrl w)) ip \<noteq> None)"

lemma records_window: "window i w \<Longrightarrow> records i w xs v \<Longrightarrow> window i v"
  by (auto simp: window_def records_def Let_def hands_over_def)

definition readable :: "arrival \<Rightarrow> bool" where
  "readable x \<longleftrightarrow> (is_marker x \<longrightarrow> utf8_valid (marker_id_of (a_payload x)))"

lemma process_and_deliver_run:
  "process_and_deliver E seq p ip sp dp tip w =
     (case process_message E ip seq p sp dp tip w of
        (Inl e, t) \<Rightarrow> (Inl e, t)
      | (Inr consumed, t) \<Rightarrow> if consumed then (Inr (), t) else spoof_deliver E p ip sp dp tip t)"
  by (auto simp: process_and_deliver_def deliver_with_spoof pbind_run pret_run
      split: prod.split sum.split)

lemma arrive_records:
  assumes w: "window i w" and send: "\<forall>n. send_ok E n" and x: "readable x"
    and open_left: "set (recording_channels (snapshot_ctrl w)) - closed i [x] \<noteq> {}"
  shows "\<exists>v. arrive E x w = (Inr (), v) \<and> records i w [x] v"
proof (cases rule: marker_cases[of x])
  case message
  let ?ip = "a_ip x"
  have base: "base_inv w" using w by (simp add: window_def)
  have nc: "\<not> closes i x" using message closes_marker by blast
  show ?thesis
  proof (cases "?ip \<in> set (recording_channels (snapshot_ctrl w))")
    case True
    then obtain ms where ms: "map_of (channel_states (snapshot_ctrl w)) ?ip = Some ms"
      using w by (auto simp: window_def)
    have "arrive E x w = (Inr (), upd_ctrl (set_channel ?ip (ms @ [to_msg x])) w)"
      using w True ms message
      by (simp add: arrive_def process_and_deliver_run process_message_record window_def
          is_marker_def to_msg_def)
    moreover have "records i w [x] (upd_ctrl (set_channel ?ip (ms @ [to_msg x])) w)"
      using w True ms message nc
      by (auto simp: records_def Let_def window_def hands_over_upd_ctrl hands_over_refl
          option.map_id0 option.map_ident
        channel_part_single)
    ultimately show ?thesis by blast
  next
    case False
    obtain v where v: "spoof_deliver E (a_payload x) ?ip (a_src_port x) (a_dst_port x) (a_local_ip x) w
        = (Inr (), v)" "hands_over w v [handed x]" "snapshot_ctrl v = snapshot_ctrl w"
      unfolding handed_def by (rule spoof_deliver_run[OF base send])
    have "arrive E x w = (Inr (), v)"
      using False message v(1)
      by (simp add: arrive_def process_and_deliver_run process_message_pass is_marker_def)
    moreover have "records i w [x] v"
      using w False message nc v
      by (auto simp: records_def Let_def window_def option.map_id0 option.map_ident
        channel_part_single)
    ultimately show ?thesis by blast
  qed
next
  case (marker j)
  have m: "is_marker x" and j: "utf8_valid j" and cl: "closes i x \<longleftrightarrow> j = i"
    using x by (auto simp: is_marker_def readable_def marker closes_def)
  let ?R = "set (recording_channels (snapshot_ctrl w))"
  show ?thesis
  proof (cases "j = i \<and> a_ip x \<in> ?R")
    case True
    have "arrive E x w = (Inr (), upd_ctrl (close_channel (a_ip x) (a_seq x)) w)"
      using w True open_left cl
      by (auto simp: arrive_def marker process_and_deliver_run process_message_close_some window_def)
    moreover have "records i w [x] (upd_ctrl (close_channel (a_ip x) (a_seq x)) w)"
      using w True cl m
      by (auto simp: records_def Let_def window_def hands_over_upd_ctrl hands_over_refl
          option.map_id0 option.map_ident
        channel_part_single)
    ultimately show ?thesis by blast
  next
    case False
    have "arrive E x w = (Inr (), w)"
      using w False j
      by (cases "j = i")
        (simp_all add: arrive_def marker process_and_deliver_run process_message_stale
          process_message_repeated window_def)
    moreover have "records i w [x] w"
      using w False cl m
      by (auto simp: records_def Let_def window_def hands_over_refl option.map_id0 option.map_ident
        channel_part_single)
    ultimately show ?thesis by blast
  qed
qed

lemma window_run:
  assumes "window i w" and "\<forall>n. send_ok E n" and "\<forall>x\<in>set xs. readable x"
    and "set (recording_channels (snapshot_ctrl w)) - closed i xs \<noteq> {}"
  shows "\<exists>v. pfor (arrive E) xs w = (Inr (), v) \<and> records i w xs v"
  using assms
proof (induction xs arbitrary: w)
  case Nil
  then show ?case by (simp add: pret_run records_Nil window_def)
next
  case (Cons x xs)
  have "set (recording_channels (snapshot_ctrl w)) - closed i [x] \<noteq> {}"
    using Cons.prems(4) by (auto split: if_splits)
  then obtain v where v: "arrive E x w = (Inr (), v)" "records i w [x] v"
    using arrive_records[OF Cons.prems(1,2)] Cons.prems(3) by auto
  have "set (recording_channels (snapshot_ctrl v)) = set (recording_channels (snapshot_ctrl w)) - closed i [x]"
    using v(2) by (simp add: records_def Let_def)
  then have "set (recording_channels (snapshot_ctrl v)) - closed i xs \<noteq> {}"
    using Cons.prems(4) by (auto split: if_splits)
  then obtain u where "pfor (arrive E) xs v = (Inr (), u)" "records i v xs u"
    using Cons.IH[OF records_window[OF Cons.prems(1) v(2)] Cons.prems(2)] Cons.prems(3) by auto
  with v show ?case by (auto simp: pseq_run intro: records_Cons)
qed

subsection \<open>The artifact in terms of the cut\<close>

definition cut_peer_json :: "int option \<Rightarrow> int option \<Rightarrow> recorded_msg list \<Rightarrow> json" where
  "cut_peer_json s r ms = JObj
     [(''send_seq'', json_opt_int s), (''recv_seq'', json_opt_int r),
      (''channel'', JArr (map msg_json ms))]"

definition cut_artifact :: "env \<Rightarrow> string \<Rightarrow> bytes \<Rightarrow> string set \<Rightarrow> (string \<Rightarrow> int option)
    \<Rightarrow> (string \<Rightarrow> int option) \<Rightarrow> (string \<Rightarrow> recorded_msg list) \<Rightarrow> json" where
  "cut_artifact E status i ps send recv chan = JObj
     [(''snapshot_id'', if i = [] then JNull else JStr i),
      (''node'', JStr (container_id E)), (''status'', JStr status),
      (''peers'', JObj (map (\<lambda>p. (p, cut_peer_json (send p) (recv p) (chan p)))
         (sorted_list_of_set ps)))]"

definition cut_peers :: "controller \<Rightarrow> string set" where
  "cut_peers c = dom (map_of (recorded_send_seq c)) \<union> dom (map_of (recorded_recv_seq c))
     \<union> dom (map_of (channel_states c))"

lemma build_artifact_cut:
  assumes "current_snapshot_id c = Some i" and "utf8_valid i"
  shows "build_artifact E status c = Inr (cut_artifact E status i (cut_peers c)
    (map_of (recorded_send_seq c)) (map_of (recorded_recv_seq c)) (channel_of c))"
proof -
  have sid: "snapshot_id_json c = Inr (if i = [] then JNull else JStr i)"
    using assms by (cases i) (simp_all add: snapshot_id_json_def)
  have "artifact_peers c = sorted_list_of_set (cut_peers c)"
    unfolding artifact_peers_def cut_peers_def sorted_list_of_set_sort_remdups [symmetric]
    by (simp add: dom_map_of_conv_image_fst Un_assoc)
  then show ?thesis
    by (simp add: build_artifact_def sid cut_artifact_def peer_json_def cut_peer_json_def)
qed

lemma cut_artifact_cong:
  assumes "finite ps" and "\<And>p. p \<in> ps \<Longrightarrow> send p = send' p" and "\<And>p. p \<in> ps \<Longrightarrow> recv p = recv' p"
    and "\<And>p. p \<in> ps \<Longrightarrow> chan p = chan' p"
  shows "cut_artifact E st i ps send recv chan = cut_artifact E st i ps send' recv' chan'"
  using assms by (simp add: cut_artifact_def cong: map_cong)

subsection \<open>The last marker, and the timeout\<close>

lemma process_message_last:
  assumes w: "window i w" "world_inv w" and send: "\<forall>n. send_ok E n" and i: "utf8_valid i"
    and last: "set (recording_channels (snapshot_ctrl w)) = {ip}"
  obtains v where "process_message E ip seq (MARKER @ i) sp dp tip w = (Inr True, v)"
    and "posts_and_hands_over w v (PostSnapshotState
       (cut_artifact E ''complete'' i (insert ip (cut_peers (snapshot_ctrl w)))
         (map_of (recorded_send_seq (snapshot_ctrl w)))
         ((map_of (recorded_recv_seq (snapshot_ctrl w)))(ip \<mapsto> seq + 1))
         (channel_of (snapshot_ctrl w))))
       (concat (map replayed (channel_states (snapshot_ctrl w))))"
    and "snapshot_ctrl v = cleared (snapshot_ctrl w)"
proof -
  let ?c = "close_channel ip seq (snapshot_ctrl w)"
  let ?w = "upd_ctrl (close_channel ip seq) w"
  let ?D = "deliver_with E (process_message_n E (Suc 0))"
  have idw: "is_snapshotting (snapshot_ctrl w)" "current_snapshot_id (snapshot_ctrl w) = Some i"
    "ip \<in> set (recording_channels (snapshot_ctrl w))"
    using w last by (simp_all add: window_def)
  have inv: "world_inv ?w" using w by (simp add: world_inv_def window_def ctrl_ok_close)
  have art: "build_artifact E ''complete'' (snapshot_ctrl ?w) = Inr (cut_artifact E ''complete'' i
      (insert ip (cut_peers (snapshot_ctrl w))) (map_of (recorded_send_seq (snapshot_ctrl w)))
      ((map_of (recorded_recv_seq (snapshot_ctrl w)))(ip \<mapsto> seq + 1)) (channel_of (snapshot_ctrl w)))"
  proof -
    have "cut_peers ?c = insert ip (cut_peers (snapshot_ctrl w))"
      by (auto simp: cut_peers_def close_channel_def)
    moreover have "map_of (recorded_recv_seq ?c)
        = (map_of (recorded_recv_seq (snapshot_ctrl w)))(ip \<mapsto> seq + 1)"
      by (simp add: close_channel_def)
    moreover have "channel_of ?c = channel_of (snapshot_ctrl w)"
      by (rule ext) (simp add: channel_of_def)
    ultimately show ?thesis using idw(2) i by (simp add: build_artifact_cut)
  qed
  obtain v where v: "finish_global_snapshot E ?D ?w = (Inr (), v)"
    "posts_and_hands_over ?w v (PostSnapshotState (cut_artifact E ''complete'' i
      (insert ip (cut_peers (snapshot_ctrl w))) (map_of (recorded_send_seq (snapshot_ctrl w)))
      ((map_of (recorded_recv_seq (snapshot_ctrl w)))(ip \<mapsto> seq + 1)) (channel_of (snapshot_ctrl w))))
      (concat (map replayed (channel_states (snapshot_ctrl ?w))))"
    "snapshot_ctrl v = cleared (snapshot_ctrl ?w)"
    by (rule finish_run[OF inv send art])
  have none: "recording_channels ?c = []" using last by (auto simp: close_channel_def filter_empty_conv)
  have "process_message E ip seq (MARKER @ i) sp dp tip w = (Inr True, v)"
    using v(1) none
    by (simp add: process_message_close[OF idw] finish_if_done_def pseq_run pbind_pget pret_run
        del: process_message_n.simps)
  moreover have "cleared (snapshot_ctrl ?w) = cleared (snapshot_ctrl w)"
    by (simp add: cleared_def reset_ctrl_def close_channel_def)
  ultimately show ?thesis
    using v(2,3) by (intro that[of v]) (simp_all add: posts_and_hands_over_def)
qed

end
