(* ===== verification/Demo.thy ===== *)
theory Demo
  imports Snapshot
begin

text \<open>
  A concrete host and a concrete sidecar, on which the theorems with hypotheses are applied:
  the three-node mesh of the deployment, seen from its first node.
\<close>

definition demo_env :: env where
  "demo_env =
     \<lparr>MESH_MEMBERS = [''10.24.24.10'', ''10.24.24.11'', ''10.24.24.12''],
      MESH_SELF = Some ''10.24.24.10'', CHECKPOINT_TARGET = Some ''app'',
      RESTORE_SNAPSHOT_ID = None, hostname = ''sidecar'', route_src = (\<lambda>_. None),
      http_ok = (\<lambda>_. True), http_ms = (\<lambda>_. 10), http_body = (\<lambda>_. JNull),
      bind_ok = (\<lambda>_ _. True), send_ok = (\<lambda>_. True), set_iter = (\<lambda>xs. xs),
      new_uuid = (\<lambda>_. ''u1'')\<rparr>"

definition demo_world :: world where
  "demo_world = MeshProxy\<lparr>tunnel_transport := True, is_server := True\<rparr>"

lemma demo_env_simps [simp]:
  "MESH_MEMBERS demo_env = [''10.24.24.10'', ''10.24.24.11'', ''10.24.24.12'']"
  "MESH_SELF demo_env = Some ''10.24.24.10''" "CHECKPOINT_TARGET demo_env = Some ''app''"
  "RESTORE_SNAPSHOT_ID demo_env = None" "http_ok demo_env = (\<lambda>_. True)"
  "http_ms demo_env = (\<lambda>_. 10)" "http_body demo_env = (\<lambda>_. JNull)"
  "bind_ok demo_env = (\<lambda>_ _. True)" "send_ok demo_env = (\<lambda>_. True)"
  "set_iter demo_env = (\<lambda>xs. xs)" "new_uuid demo_env = (\<lambda>_. ''u1'')"
  by (simp_all add: demo_env_def)

lemma demo_world_simps [simp]:
  "peers demo_world = []" "spoof_sockets demo_world = []" "tunnel_transport demo_world"
  "snapshot_ctrl demo_world = SnapshotController" "is_server demo_world"
  "local_sock demo_world = []" "clock demo_world = 0" "trace demo_world = []"
  "peer_of demo_world ip = PeerState"
  by (simp_all add: demo_world_def MeshProxy_def peer_of_def)


lemma demo_world_inv: "world_inv demo_world"
  using world_inv_MeshProxy
  by (simp add: world_inv_def demo_world_def base_inv_def spoof_inv_def peers_inv_def peer_of_def)

lemma demo_base_inv: "base_inv demo_world"
  using demo_world_inv by (simp add: world_inv_def)

lemma demo_idle: "idle demo_world"
  using demo_base_inv by (simp add: idle_def SnapshotController_def)


lemma demo_up: "tunnel_transport demo_world" and demo_sends: "\<forall>n. send_ok demo_env n"
  by simp_all

end
