(* ===== verification/Snapshot_Run.thy ===== *)
theory Snapshot_Run
  imports Recording Demo
begin

text \<open>
  A whole snapshot on one sidecar, from the first marker to the last, for any arrivals in
  between: the cut that is posted, the datagrams that reach the application, and that none
  of them is lost or delivered twice.
\<close>

subsection \<open>Conservation\<close>

definition messages :: "arrival list \<Rightarrow> (bytes \<times> string \<times> int) multiset" where
  "messages xs = mset (map handed (filter (\<lambda>x. \<not> is_marker x) xs))"

lemma passing_and_recorded:
  assumes "finite R"
  shows "messages xs = mset (map handed (passing i R xs))
    + (\<Sum>p\<in>R. mset (map as_delivered (channel_part i p xs)))"
  using assms
proof (induction xs arbitrary: R)
  case Nil
  then show ?case by (simp add: messages_def)
next
  case (Cons x xs)
  show ?case
  proof (cases "is_marker x")
    case True
    show ?thesis
    proof (cases "closes i x")
      case cl: True
      have "(\<Sum>p\<in>R. mset (map as_delivered (channel_part i p (x # xs))))
          = (\<Sum>p\<in>R - {a_ip x}. mset (map as_delivered (channel_part i p xs)))"
      proof -
        have "(\<Sum>p\<in>R. mset (map as_delivered (channel_part i p (x # xs))))
            = (\<Sum>p\<in>R - {a_ip x}. mset (map as_delivered (channel_part i p (x # xs))))"
          by (rule sum.mono_neutral_right) (use Cons.prems cl in auto)
        also have "\<dots> = (\<Sum>p\<in>R - {a_ip x}. mset (map as_delivered (channel_part i p xs)))"
          by (intro sum.cong refl) auto
        finally show ?thesis .
      qed
      with Cons.IH[of "R - {a_ip x}"] Cons.prems True cl show ?thesis
        by (simp add: messages_def)
    next
      case cl: False
      have "channel_part i p (x # xs) = channel_part i p xs" for p
        using cl True by (cases "a_ip x = p") auto
      with Cons True cl show ?thesis by (simp add: messages_def)
    qed
  next
    case m: False
    show ?thesis
    proof (cases "a_ip x \<in> R")
      case True
      have "(\<Sum>p\<in>R. mset (map as_delivered (channel_part i p (x # xs))))
          = mset (map as_delivered (channel_part i (a_ip x) (x # xs)))
            + (\<Sum>p\<in>R - {a_ip x}. mset (map as_delivered (channel_part i p (x # xs))))"
        by (rule sum.remove[OF Cons.prems True])
      also have "(\<Sum>p\<in>R - {a_ip x}. mset (map as_delivered (channel_part i p (x # xs))))
          = (\<Sum>p\<in>R - {a_ip x}. mset (map as_delivered (channel_part i p xs)))"
        by (intro sum.cong refl) auto
      also have "mset (map as_delivered (channel_part i (a_ip x) (x # xs))) + \<dots>
          = add_mset (handed x) (\<Sum>p\<in>R. mset (map as_delivered (channel_part i p xs)))"
        using m by (simp add: sum.remove[OF Cons.prems True])
      finally show ?thesis using Cons.IH[OF Cons.prems] m True by (simp add: messages_def)
    next
      case False
      then have "(\<Sum>p\<in>R. mset (map as_delivered (channel_part i p (x # xs))))
          = (\<Sum>p\<in>R. mset (map as_delivered (channel_part i p xs)))"
        by (intro sum.cong refl) (metis channel_part_simps(2))
      with Cons.IH[OF Cons.prems] m False show ?thesis by (simp add: messages_def)
    qed
  qed
qed

lemma mset_replayed:
  "distinct (map fst items) \<Longrightarrow> mset (concat (map replayed items))
    = (\<Sum>p\<in>fst ` set items. mset (map as_delivered (the (map_of items p))))"
proof (induction items)
  case (Cons y items)
  obtain p ms where y: "y = (p, ms)" by (cases y)
  have "(\<Sum>q\<in>fst ` set items. mset (map as_delivered (the (map_of (y # items) q))))
      = (\<Sum>q\<in>fst ` set items. mset (map as_delivered (the (map_of items q))))"
    using Cons.prems by (intro sum.cong refl) (auto simp: y)
  with Cons show ?case by (simp add: y replayed_def)
qed simp

subsection \<open>From the first marker to the last\<close>

text \<open>
  The hypotheses a snapshot run needs of its sidecar and its host: the tunnel is up, the
  membership has no duplicates, iterating over a set visits its elements, the kernel takes
  the datagrams, and the sequence numbers fit their header field.
\<close>

definition healthy :: "env \<Rightarrow> world \<Rightarrow> world \<Rightarrow> bool" where
  "healthy E w v \<longleftrightarrow> world_inv w \<and> \<not> is_snapshotting (snapshot_ctrl w) \<and> tunnel_transport w
     \<and> distinct (MESH_MEMBERS E) \<and> (\<forall>xs. set (set_iter E xs) = set xs) \<and> (\<forall>n. send_ok E n)
     \<and> (\<forall>p\<in>set (others E w). is_uint 8 (send_seq (peer_of v p)))"

lemma opened_window:
  assumes "opened E i ip seq ms v u" and "snapping u"
  shows "window i u" and "world_inv u"
  using assms by (auto simp: opened_def Let_def window_def snapping_def snapping_inv)

lemma channel_part_append_close:
  "closes i x \<Longrightarrow> channel_part i p (xs @ [x]) = channel_part i p xs"
proof (induction xs)
  case Nil
  then show ?case by (cases "a_ip x = p") auto
next
  case (Cons y xs)
  then show ?case
    by (cases "a_ip y = p"; cases "closes i y"; cases "is_marker y") (auto dest: closes_marker)
qed

lemma close_seq_append:
  "close_seq i p (xs @ [x]) = (if p \<in> closed i xs then close_seq i p xs
     else if a_ip x = p \<and> closes i x then a_seq x else close_seq i p [])"
  by (induction xs) auto

text \<open>The first marker, when at least one more is needed.\<close>

lemma first_marker_run:
  assumes h: "healthy E w v" and i: "utf8_valid i"
    and drain: "drain_intercept E (recording_started E i ip w) = (Inr (), v)"
    and more: "set (others E w) - {ip} \<noteq> {}"
  obtains u where "process_message E ip seq (MARKER @ i) sp dp tip w = (Inr True, u)"
    and "opened E i ip seq (others E w) v u" and "window i u" and "world_inv u"
proof -
  obtain u where u: "open_cut E ip seq (MARKER @ i) w = (Inr (), u)"
    "opened E i ip seq (others E w) v u" "snapping u"
    using open_cut_run[of w E i ip v seq] h i drain by (auto simp: healthy_def)
  have "recording_channels (snapshot_ctrl u) \<noteq> []"
    using u(2) more by (auto simp: opened_def Let_def)
  then have "process_message E ip seq (MARKER @ i) sp dp tip w = (Inr True, u)"
    using h u(1)
    by (simp add: process_message_marker_idle healthy_def first_marker_def finish_if_done_def
        pseq_run pbind_pget pret_run del: process_message_n.simps)
  with u opened_window[OF u(2,3)] that show ?thesis by blast
qed


text \<open>The posted cut, read off the arrivals: where each channel was cut, and what was in it.\<close>

definition cut_of :: "env \<Rightarrow> bytes \<Rightarrow> string list \<Rightarrow> world \<Rightarrow> arrival list \<Rightarrow> json" where
  "cut_of E i ms v arrivals = cut_artifact E ''complete'' i (set ms)
     (\<lambda>p. Some (send_seq (peer_of v p) + 1)) (\<lambda>p. Some (close_seq i p arrivals + 1))
     (\<lambda>p. channel_part i p arrivals)"

text \<open>What the controller holds when the last marker arrives, in terms of all arrivals.\<close>

lemma window_facts:
  assumes R_def: "R = set ms - {a_ip x\<^sub>0}" and s: "opened E i (a_ip x\<^sub>0) (a_seq x\<^sub>0) ms v s"
    and t: "records i s xs t" and x\<^sub>0: "closes i x\<^sub>0" and x: "closes i x"
    and last: "R - closed i xs = {a_ip x}"
  shows "map_of (channel_states (snapshot_ctrl t)) p
      = (if p \<in> set ms then Some (channel_part i p (x\<^sub>0 # xs @ [x])) else None)"
    and "map_of (recorded_send_seq (snapshot_ctrl t)) p =
      (if p \<in> set ms then Some (send_seq (peer_of v p) + 1) else None)"
    and "p \<in> set ms \<Longrightarrow> ((map_of (recorded_recv_seq (snapshot_ctrl t)))(a_ip x \<mapsto> a_seq x + 1)) p
      = Some (close_seq i p (x\<^sub>0 # xs @ [x]) + 1)"
    and "insert (a_ip x) (cut_peers (snapshot_ctrl t)) = set ms"
proof -
  let ?all = "x\<^sub>0 # xs @ [x]" and ?t = "snapshot_ctrl t"
  have R: "set (recording_channels (snapshot_ctrl s)) = R"
    using s by (simp add: opened_def Let_def R_def)
  have part: "channel_part i p ?all = (if p = a_ip x\<^sub>0 then [] else channel_part i p xs)" for p
    using x\<^sub>0 x by (cases "p = a_ip x\<^sub>0") (auto simp: channel_part_append_close)
  show chan: "map_of (channel_states ?t) p = (if p \<in> set ms then Some (channel_part i p ?all) else None)"
    for p
    using t s unfolding records_def opened_def Let_def part by (auto simp: R_def)
  show sent: "map_of (recorded_send_seq ?t) p =
      (if p \<in> set ms then Some (send_seq (peer_of v p) + 1) else None)" for p
    using t s by (simp add: records_def opened_def Let_def)
  show "((map_of (recorded_recv_seq ?t))(a_ip x \<mapsto> a_seq x + 1)) p = Some (close_seq i p ?all + 1)"
    if p: "p \<in> set ms" for p
  proof -
    have notx: "a_ip x \<noteq> a_ip x\<^sub>0" "a_ip x \<notin> closed i xs"
      and sub: "p \<in> closed i xs \<or> p = a_ip x \<or> p = a_ip x\<^sub>0" using p last by (auto simp: R_def)
    have "map_of (recorded_recv_seq ?t) p =
        (if p \<in> R \<and> p \<in> closed i xs then Some (close_seq i p xs + 1)
         else map_of (recorded_recv_seq (snapshot_ctrl s)) p)"
      using t R unfolding records_def Let_def by simp
    moreover have "map_of (recorded_recv_seq (snapshot_ctrl s)) p =
        (if p = a_ip x\<^sub>0 \<and> a_ip x\<^sub>0 \<in> set ms then Some (a_seq x\<^sub>0 + 1) else None)"
      using s by (simp add: opened_def Let_def)
    ultimately show ?thesis
      using sub p x\<^sub>0 x notx by (auto simp: R_def close_seq_append)
  qed
  have "dom (map_of (recorded_recv_seq ?t)) \<subseteq> set ms"
    using t s by (auto simp: records_def opened_def Let_def dom_def R_def split: if_splits)
  moreover have "dom (map_of (recorded_send_seq ?t)) = set ms" "dom (map_of (channel_states ?t)) = set ms"
    by (auto simp: dom_def sent chan)
  moreover have "a_ip x \<in> set ms" using last by (auto simp: R_def)
  ultimately show "insert (a_ip x) (cut_peers ?t) = set ms" by (auto simp: cut_peers_def)
qed

lemma snapshot_run:
  assumes R_def: "R = set (others E w) - {a_ip x\<^sub>0}" and h: "healthy E w v" and i: "utf8_valid i"
    and drain: "drain_intercept E (recording_started E i (a_ip x\<^sub>0) w) = (Inr (), v)"
    and x\<^sub>0: "closes i x\<^sub>0" and xs: "\<forall>x\<in>set xs. readable x" and x: "closes i x"
    and last: "R - closed i xs = {a_ip x}"
  obtains u items where "pfor (arrive E) (x\<^sub>0 # xs @ [x]) w = (Inr (), u)"
    and "requests (trace u) = requests (trace v)
      @ [checkpoint_req E i, PostSnapshotState (cut_of E i (others E w) v (x\<^sub>0 # xs @ [x]))]"
    and "tunneled (trace u) = tunneled (trace v)
      @ map (\<lambda>p. (marker_frame v (MARKER @ i) p, p)) (others E w)"
    and "delivered (trace u) = delivered (trace v) @ map handed (passing i R xs)
      @ concat (map replayed items)"
    and "distinct (map fst items)" and "map_of items =
      (\<lambda>p. if p \<in> set (others E w) then Some (channel_part i p (x\<^sub>0 # xs @ [x])) else None)"
    and "\<not> is_snapshotting (snapshot_ctrl u)" and "world_inv u"
proof -
  let ?all = "x\<^sub>0 # xs @ [x]"
  let ?ms = "others E w"
  have send: "\<forall>n. send_ok E n" using h by (simp add: healthy_def)
  have more: "set ?ms - {a_ip x\<^sub>0} \<noteq> {}" using last by (auto simp: R_def)
  obtain s where s: "process_message E (a_ip x\<^sub>0) (a_seq x\<^sub>0) (MARKER @ i) (a_src_port x\<^sub>0)
      (a_dst_port x\<^sub>0) (a_local_ip x\<^sub>0) w = (Inr True, s)"
    "opened E i (a_ip x\<^sub>0) (a_seq x\<^sub>0) ?ms v s" "window i s" "world_inv s"
    by (rule first_marker_run[OF h i drain more])
  have first: "arrive E x\<^sub>0 w = (Inr (), s)"
    using s(1) x\<^sub>0 by (simp add: arrive_def closes_def process_and_deliver_run)
  have R: "set (recording_channels (snapshot_ctrl s)) = R"
    using s(2) by (simp add: opened_def Let_def R_def)
  obtain t where t: "pfor (arrive E) xs s = (Inr (), t)" "records i s xs t"
    using window_run[OF s(3) send xs] last R by auto
  have wt: "window i t" by (rule records_window[OF s(3) t(2)])
  have "preserves world_inv (pfor (arrive E) xs)"
    by (rule preserves_pfor) (simp add: arrive_def process_and_deliver_inv)
  from preserves_runD[OF this s(4) t(1)] have invt: "world_inv t" .
  have lt: "set (recording_channels (snapshot_ctrl t)) = {a_ip x}"
    using t(2) last R by (simp add: records_def Let_def)
  obtain u where u: "process_message E (a_ip x) (a_seq x) (MARKER @ i) (a_src_port x)
      (a_dst_port x) (a_local_ip x) t = (Inr True, u)"
    "posts_and_hands_over t u (PostSnapshotState
       (cut_artifact E ''complete'' i (insert (a_ip x) (cut_peers (snapshot_ctrl t)))
         (map_of (recorded_send_seq (snapshot_ctrl t)))
         ((map_of (recorded_recv_seq (snapshot_ctrl t)))(a_ip x \<mapsto> a_seq x + 1))
         (channel_of (snapshot_ctrl t))))
       (concat (map replayed (channel_states (snapshot_ctrl t))))"
    "snapshot_ctrl u = cleared (snapshot_ctrl t)"
    by (rule process_message_last[OF wt invt send i lt])
  have final: "arrive E x t = (Inr (), u)"
    using u(1) x by (simp add: arrive_def closes_def process_and_deliver_run)
  let ?t = "snapshot_ctrl t"
  note facts = window_facts[OF R_def s(2) t(2) x\<^sub>0 x last]
  have art: "cut_artifact E ''complete'' i (insert (a_ip x) (cut_peers ?t))
         (map_of (recorded_send_seq ?t)) ((map_of (recorded_recv_seq ?t))(a_ip x \<mapsto> a_seq x + 1))
         (channel_of ?t) = cut_of E i ?ms v ?all"
    unfolding cut_of_def facts(4)
    by (rule cut_artifact_cong) (simp_all only: finite_set facts(1-3) if_True channel_of_def option.case)
  have ts: "hands_over s t (map handed (passing i R xs))"
    using t(2) R by (simp add: records_def Let_def)
  have tr: "trace s = trace v @ [HttpReq (checkpoint_req E i)]
      @ map (\<lambda>p. TunnelSend (marker_frame v (MARKER @ i) p) p) ?ms"
    using s(2) by (simp add: opened_def Let_def)
  have reads: "requests (map (\<lambda>p. TunnelSend (f p) p) ps) = []"
    "delivered (map (\<lambda>p. TunnelSend (f p) p) ps) = []"
    "tunneled (map (\<lambda>p. TunnelSend (f p) p) ps) = map (\<lambda>p. (f p, p)) ps" for f ps
    by (induction ps) (simp_all add: requests_def delivered_def tunneled_def)
  have head: "requests (trace s) = requests (trace v) @ [checkpoint_req E i]"
    "delivered (trace s) = delivered (trace v)"
    "tunneled (trace s) = tunneled (trace v) @ map (\<lambda>p. (marker_frame v (MARKER @ i) p, p)) ?ms"
    unfolding tr readings_append by (simp_all add: reads)
  show ?thesis
  proof (rule that[of u "channel_states ?t"])
    show "pfor (arrive E) ?all w = (Inr (), u)"
      by (simp add: pfor_append pseq_run first t(1) final pret_run)
    show "requests (trace u) = requests (trace v)
        @ [checkpoint_req E i, PostSnapshotState (cut_of E i ?ms v ?all)]"
      using u(2) ts head by (simp add: posts_and_hands_over_def hands_over_def art)
    show "tunneled (trace u) = tunneled (trace v)
        @ map (\<lambda>p. (marker_frame v (MARKER @ i) p, p)) ?ms"
      using u(2) ts head by (simp add: posts_and_hands_over_def hands_over_def)
    show "delivered (trace u) = delivered (trace v) @ map handed (passing i R xs)
        @ concat (map replayed (channel_states ?t))"
      using u(2) ts head by (simp add: posts_and_hands_over_def hands_over_def)
    show "distinct (map fst (channel_states ?t))"
      using invt by (simp add: world_inv_def ctrl_ok_def)
    show "map_of (channel_states ?t) = (\<lambda>p. if p \<in> set ?ms then Some (channel_part i p ?all) else None)"
      by (rule ext) (rule facts(1))
    show "\<not> is_snapshotting (snapshot_ctrl u)" using u(3) by (simp add: cleared_def)
    show "world_inv u" using u(2) by (simp add: posts_and_hands_over_def)
  qed
qed


text \<open>What the replay hands over, as a multiset: the states of the recorded channels.\<close>

lemma mset_items:
  assumes dist: "distinct (map fst items)" and items: "map_of items =
      (\<lambda>p. if p \<in> set ms then Some (channel_part i p (x\<^sub>0 # xs @ [x])) else None)"
    and x\<^sub>0: "closes i x\<^sub>0" and x: "closes i x"
  shows "mset (concat (map replayed items))
    = (\<Sum>p\<in>set ms - {a_ip x\<^sub>0}. mset (map as_delivered (channel_part i p xs)))"
proof -
  have keys: "fst ` set items = set ms"
    using pydict.set_keys[of items] by (auto simp: items dom_def split: if_splits)
  have "mset (concat (map replayed items))
      = (\<Sum>p\<in>set ms. mset (map as_delivered (channel_part i p (x\<^sub>0 # xs @ [x]))))"
    by (simp add: mset_replayed[OF dist] keys items)
  also have "\<dots> = (\<Sum>p\<in>set ms - {a_ip x\<^sub>0}. mset (map as_delivered (channel_part i p (x\<^sub>0 # xs @ [x]))))"
    by (rule sum.mono_neutral_right) (use x\<^sub>0 in auto)
  also have "\<dots> = (\<Sum>p\<in>set ms - {a_ip x\<^sub>0}. mset (map as_delivered (channel_part i p xs)))"
    using x by (intro sum.cong refl) (auto simp: channel_part_append_close)
  finally show ?thesis .
qed

subsection \<open>An example run\<close>

text \<open>The marker of one member, three messages, and the marker of the other member.\<close>

definition demo_arrival :: "string \<Rightarrow> int \<Rightarrow> bytes \<Rightarrow> arrival" where
  "demo_arrival ip seq p = \<lparr>a_ip = ip, a_seq = seq, a_payload = p, a_src_port = 5000,
     a_dst_port = 6000, a_local_ip = ''10.24.24.10''\<rparr>"

definition demo_first :: arrival where
  "demo_first = demo_arrival ''10.24.24.11'' 0 (MARKER @ ''s1'')"

definition demo_window :: "arrival list" where
  "demo_window = [demo_arrival ''10.24.24.12'' 7 ''early'', demo_arrival ''10.24.24.11'' 1 ''late'',
     demo_arrival ''10.24.24.12'' 8 ''early too'']"

definition demo_last :: arrival where
  "demo_last = demo_arrival ''10.24.24.12'' 9 (MARKER @ ''s1'')"

definition demo_cut_world :: world where
  "demo_cut_world = recording_started demo_env ''s1'' (a_ip demo_first) demo_world"

lemma demo_others: "others demo_env demo_world = [''10.24.24.11'', ''10.24.24.12'']"
  by (simp add: others_def self_ip_of_def)

lemma demo_run:
  "healthy demo_env demo_world demo_cut_world" "utf8_valid ''s1''"
  "drain_intercept demo_env (recording_started demo_env ''s1'' (a_ip demo_first) demo_world)
    = (Inr (), demo_cut_world)"
  "closes ''s1'' demo_first" "\<forall>x\<in>set demo_window. readable x" "closes ''s1'' demo_last"
  "set (others demo_env demo_world) - {a_ip demo_first} - closed ''s1'' demo_window = {a_ip demo_last}"
proof -
  show "healthy demo_env demo_world demo_cut_world"
    using demo_world_inv
    by (simp add: healthy_def SnapshotController_def demo_others demo_cut_world_def
        recording_started_def is_uint_def PeerState_def)
  show "utf8_valid ''s1''" by (simp add: utf8_valid_ascii)
  show "drain_intercept demo_env (recording_started demo_env ''s1'' (a_ip demo_first) demo_world)
    = (Inr (), demo_cut_world)"
    by (simp add: drain_intercept_pfor recording_started_def demo_cut_world_def pret_run)
  show "closes ''s1'' demo_first" "closes ''s1'' demo_last"
    by (simp_all add: demo_first_def demo_last_def demo_arrival_def closes_def)
  show "\<forall>x\<in>set demo_window. readable x"
    by (simp add: demo_window_def demo_arrival_def readable_def is_marker_def MARKER_def starts_with_def)
  have "closed ''s1'' demo_window = {}"
    by (simp add: demo_window_def demo_arrival_def closes_def MARKER_def)
  then show "set (others demo_env demo_world) - {a_ip demo_first} - closed ''s1'' demo_window
      = {a_ip demo_last}"
    by (auto simp: demo_others demo_first_def demo_last_def demo_arrival_def)
qed

subsection \<open>Properties\<close>

text \<open>
  C1: From the first marker of a snapshot to the last, whatever messages and markers arrive
  in between on any channel, the sidecar requests one checkpoint, sends one marker per
  other member carrying that channel's next sequence number, and posts one artifact, the
  Chandy-Lamport cut: per peer the send coordinate right after the marker, the receive
  coordinate right after the peer's marker, and exactly the messages that arrived from the
  peer between the two cuts. Then it is idle again.
\<close>

theorem snapshot_posts_the_cut:
  assumes "healthy E w v" and "utf8_valid i"
    and "drain_intercept E (recording_started E i (a_ip x\<^sub>0) w) = (Inr (), v)"
    and "closes i x\<^sub>0" and "\<forall>x\<in>set xs. readable x" and "closes i x"
    and "set (others E w) - {a_ip x\<^sub>0} - closed i xs = {a_ip x}"
  shows "\<exists>u. pfor (arrive E) (x\<^sub>0 # xs @ [x]) w = (Inr (), u)
    \<and> requests (trace u) = requests (trace v)
        @ [checkpoint_req E i, PostSnapshotState (cut_of E i (others E w) v (x\<^sub>0 # xs @ [x]))]
    \<and> tunneled (trace u) = tunneled (trace v)
        @ map (\<lambda>p. (marker_frame v (MARKER @ i) p, p)) (others E w)
    \<and> \<not> is_snapshotting (snapshot_ctrl u) \<and> world_inv u"
  by (rule snapshot_run[OF refl assms]) blast

theorem snapshot_posts_the_cut_witness:
  "\<exists>u. pfor (arrive demo_env) (demo_first # demo_window @ [demo_last]) demo_world = (Inr (), u)
    \<and> length (requests (trace u)) = 2 \<and> \<not> is_snapshotting (snapshot_ctrl u)"
  using snapshot_posts_the_cut[OF demo_run] by (auto simp: demo_cut_world_def recording_started_def)

text \<open>
  C2: No message is lost, repeated or invented by a snapshot: the datagrams the application
  has received when it ends are those of before and exactly one for each message that
  arrived in the meantime (as multisets).
\<close>

theorem snapshot_conserves_messages:
  assumes "healthy E w v" and "utf8_valid i"
    and "drain_intercept E (recording_started E i (a_ip x\<^sub>0) w) = (Inr (), v)"
    and "closes i x\<^sub>0" and "\<forall>x\<in>set xs. readable x" and "closes i x"
    and "set (others E w) - {a_ip x\<^sub>0} - closed i xs = {a_ip x}"
    and "pfor (arrive E) (x\<^sub>0 # xs @ [x]) w = (Inr (), u)"
  shows "mset (delivered (trace u)) = mset (delivered (trace v)) + messages xs"
proof -
  define R where "R = set (others E w) - {a_ip x\<^sub>0}"
  obtain u' items where "pfor (arrive E) (x\<^sub>0 # xs @ [x]) w = (Inr (), u')"
    and del: "delivered (trace u') = delivered (trace v) @ map handed (passing i R xs)
      @ concat (map replayed items)"
    and dist: "distinct (map fst items)" and map: "map_of items =
      (\<lambda>p. if p \<in> set (others E w) then Some (channel_part i p (x\<^sub>0 # xs @ [x])) else None)"
    by (rule snapshot_run[OF R_def assms(1-6)]) (use assms(7) R_def in auto)
  then have u: "u = u'" using assms(8) by simp
  show ?thesis
    using passing_and_recorded[of R xs i] mset_items[OF dist map assms(4,6)]
    by (simp add: u del R_def)
qed

theorem snapshot_conserves_messages_witness:
  "\<exists>u. pfor (arrive demo_env) (demo_first # demo_window @ [demo_last]) demo_world = (Inr (), u)
    \<and> mset (delivered (trace u)) = messages demo_window"
proof -
  obtain u where u: "pfor (arrive demo_env) (demo_first # demo_window @ [demo_last]) demo_world = (Inr (), u)"
    by (rule snapshot_run[OF refl demo_run])
  from snapshot_conserves_messages[OF demo_run u] u show ?thesis
    by (simp add: demo_cut_world_def recording_started_def)
qed

text \<open>
  C13: Any marker that reaches a sidecar which is not taking a snapshot opens a cut, whatever
  its id and its sender: the queued application datagrams are forwarded first, then the
  application is checkpointed, then every other member gets the marker with its channel's
  next number, in that order; every channel but the marker's own is recorded from here, and
  the wait for the other markers is bounded by the timeout.
\<close>

theorem first_marker_opens_cut:
  assumes "healthy E w v" and "utf8_valid i"
    and "drain_intercept E (recording_started E i ip w) = (Inr (), v)"
    and "set (others E w) - {ip} \<noteq> {}"
  shows "\<exists>u. process_message E ip seq (MARKER @ i) sp dp tip w = (Inr True, u)
    \<and> local_sock v = []
    \<and> trace u = trace v @ [HttpReq (checkpoint_req E i)]
        @ map (\<lambda>jp. TunnelSend (marker_frame v (MARKER @ i) jp) jp) (others E w)
    \<and> is_snapshotting (snapshot_ctrl u) \<and> current_snapshot_id (snapshot_ctrl u) = Some i
    \<and> set (recording_channels (snapshot_ctrl u)) = set (others E w) - {ip}
    \<and> snapshot_deadline (snapshot_ctrl u) = Some (clock u + SNAPSHOT_TIMEOUT)"
  by (rule first_marker_run[OF assms, of seq sp dp tip])
    (use drain_intercept_empties[OF assms(3)] in \<open>auto simp: opened_def Let_def\<close>)

theorem first_marker_opens_cut_witness:
  "\<exists>u. process_message demo_env ''10.24.24.11'' 0 (MARKER @ ''s1'') 0 0 [] demo_world = (Inr True, u)
    \<and> set (recording_channels (snapshot_ctrl u)) = {''10.24.24.12''}"
proof -
  have more: "set (others demo_env demo_world) - {a_ip demo_first} = {''10.24.24.12''}"
    by (auto simp: demo_others demo_first_def demo_arrival_def)
  then have "set (others demo_env demo_world) - {a_ip demo_first} \<noteq> {}" by simp
  from first_marker_opens_cut[OF demo_run(1-3) this, of 0 0 0 "[]"] more show ?thesis
    by (auto simp: demo_first_def demo_arrival_def)
qed

end
