(* ===== verification/Schema.thy ===== *)
theory Schema
  imports Controller
begin

text \<open>
  The shape of an artifact, as the docstring of \<open>_build_artifact\<close> gives it, as a checker on
  JSON values, and the proof that whatever is built has it.
\<close>

subsection \<open>The checker\<close>

text \<open>An object with exactly these keys, in this order, and values of these shapes.\<close>

definition object_shape :: "(string \<times> (json \<Rightarrow> bool)) list \<Rightarrow> json \<Rightarrow> bool" where
  "object_shape shape j =
     (case j of JObj kvs \<Rightarrow>
        list_all2 (\<lambda>(k, P) (k', v). k = k' \<and> P v) shape kvs
      | _ \<Rightarrow> False)"

definition is_int :: "json \<Rightarrow> bool" where
  "is_int j = (case j of JInt _ \<Rightarrow> True | _ \<Rightarrow> False)"

definition is_str :: "json \<Rightarrow> bool" where
  "is_str j = (case j of JStr _ \<Rightarrow> True | _ \<Rightarrow> False)"

text \<open>Whole quads over the base64 alphabet and the padding character.\<close>

definition is_b64 :: "json \<Rightarrow> bool" where
  "is_b64 j = (case j of
      JStr s \<Rightarrow> length s mod 4 = 0 \<and> list_all (\<lambda>c. c = CHR ''='' \<or> b64_val c \<noteq> None) s
    | _ \<Rightarrow> False)"

definition msg_shape :: "json \<Rightarrow> bool" where
  "msg_shape = object_shape [(''seq'', is_int), (''payload_b64'', is_b64), (''src_port'', is_int),
     (''dst_port'', is_int), (''target_local_ip'', is_str)]"

definition peer_shape :: "json \<Rightarrow> bool" where
  "peer_shape = object_shape
     [(''send_seq'', \<lambda>j. j = JNull \<or> is_int j), (''recv_seq'', \<lambda>j. j = JNull \<or> is_int j),
      (''channel'', \<lambda>j. case j of JArr ms \<Rightarrow> list_all msg_shape ms | _ \<Rightarrow> False)]"

text \<open>The peers come sorted and without repetition.\<close>

definition peers_shape :: "json \<Rightarrow> bool" where
  "peers_shape j = (case j of
      JObj kvs \<Rightarrow> sorted (map fst kvs) \<and> distinct (map fst kvs) \<and> list_all (peer_shape \<circ> snd) kvs
    | _ \<Rightarrow> False)"

definition artifact_shape :: "json \<Rightarrow> bool" where
  "artifact_shape = object_shape
     [(''snapshot_id'', \<lambda>j. j = JNull \<or> is_str j \<and> j \<noteq> JStr []), (''node'', is_str),
      (''status'', \<lambda>j. j = JStr ''complete'' \<or> j = JStr ''aborted''), (''peers'', peers_shape)]"

definition request_shape :: "http_req \<Rightarrow> bool" where
  "request_shape req = (case req of PostSnapshotState j \<Rightarrow> artifact_shape j | _ \<Rightarrow> True)"

subsection \<open>What is built has the shape\<close>

lemma b64encode_shape: "is_b64 (JStr (b64encode bs))"
proof (induction bs rule: b64encode.induct)
  case (4 a b c rest)
  then show ?case by (simp add: is_b64_def Let_def)
qed (simp_all add: is_b64_def Let_def)

lemma msg_json_shape: "msg_shape (msg_json m)"
  by (simp add: msg_shape_def object_shape_def msg_json_def is_int_def is_str_def b64encode_shape)

lemma json_opt_int_shape: "json_opt_int x = JNull \<or> is_int (json_opt_int x)"
  by (simp add: json_opt_int_def is_int_def split: option.split)

lemma peer_json_shape: "peer_shape (peer_json c p)"
  by (simp add: peer_shape_def object_shape_def peer_json_def json_opt_int_shape list_all_iff
      msg_json_shape)

lemma build_artifact_shape:
  assumes "build_artifact E st c = Inr j" and "st = ''complete'' \<or> st = ''aborted''"
  shows "artifact_shape j"
proof -
  obtain sid where sid: "snapshot_id_json c = Inr sid"
    and j: "j = JObj [(''snapshot_id'', sid), (''node'', JStr (container_id E)), (''status'', JStr st),
      (''peers'', JObj (map (\<lambda>peer. (peer, peer_json c peer)) (artifact_peers c)))]"
    using assms(1) by (auto simp: build_artifact_def split: sum.splits)
  have "sid = JNull \<or> is_str sid \<and> sid \<noteq> JStr []"
    using sid by (auto simp: snapshot_id_json_def is_str_def decode_def simp del: utf8_valid.simps(2)
        split: option.splits list.splits if_splits)
  moreover have "sorted (artifact_peers c)" "distinct (artifact_peers c)"
    by (simp_all add: artifact_peers_def)
  ultimately show ?thesis
    using assms(2) by (auto simp: artifact_shape_def object_shape_def j is_str_def peers_shape_def o_def
        list_all_iff peer_json_shape)
qed

end
