(* ===== verification/Stable.thy ===== *)
theory Stable
  imports Cut Schema
begin

text \<open>
  A property of the world that the elementary effects keep is kept by everything built from
  them. \<open>carried\<close> names the effects of sending, receiving and spoofing; \<open>stable\<close> adds those
  of the controller, whose requests have the shape of \<open>Schema\<close>. Instances of \<open>stable\<close>: the receive side of the tunnel (\<open>still\<close>), which
  only \<open>datagram_received\<close> moves, and the length of the intercept queue, which only shrinks.
\<close>

locale carried =
  fixes P :: "world \<Rightarrow> bool"
  assumes carry_emit: "P w \<Longrightarrow> \<forall>req. e \<noteq> HttpReq req \<Longrightarrow> P (emit e w)"
    and carry_ensured: "P w \<Longrightarrow> P (ensured ip w)"
    and carry_sent: "P w \<Longrightarrow> data_header_pack (0, send_seq (peer_of w ip), sp, dp, tip) = Inr header \<Longrightarrow>
      P (sent_data ip (header @ payload) w)"
    and carry_socks: "P w \<Longrightarrow> P (w\<lparr>spoof_sockets := d\<rparr>)"
    and carry_next_sock: "P w \<Longrightarrow> P (w\<lparr>next_sock := k\<rparr>)"
    and carry_queue: "P w \<Longrightarrow> P (w\<lparr>local_sock := tl (local_sock w)\<rparr>)"
begin

lemma primitives [preserves_intro]:
  "preserves P (get_peer ip)" "preserves P (tunnel_sendto pk ip)"
  "preserves P (spoof_sendto E sock p addr)"
  unfolding get_peer_pmod tunnel_sendto_def spoof_sendto_def
  by (intro preserves_intro preserves_pmod; simp add: carry_emit carry_ensured)+

lemma recvmsg_rule [preserves_intro]: "preserves P recvmsg"
proof (rule preservesI)
  fix w assume "P w"
  then show "P (snd (recvmsg w))"
    using carry_queue[of w] by (cases "local_sock w") (simp_all add: recvmsg_def pbind_pget pseq_pmod pret_run)
qed

lemma evicted_carried: "P w \<Longrightarrow> P (evicted w)"
  by (simp add: evicted_def carry_emit carry_socks)

lemma get_spoof_sock_rule [preserves_intro]: "preserves P (get_spoof_sock E ip port)"
proof (rule preservesI)
  fix w assume "P w"
  then show "P (snd (get_spoof_sock E ip port w))"
    by (cases "map_of (spoof_sockets w) (ip, port)")
      (simp_all add: get_spoof_sock_hit get_spoof_sock_miss missed_def Let_def evicted_carried
        carry_emit carry_socks carry_next_sock)
qed

lemma send_data_rule [preserves_intro]: "preserves P (send_data ip sp dp tip p)"
proof (rule preservesI)
  fix w assume "P w"
  then show "P (snd (send_data ip sp dp tip p w))"
    by (cases rule: send_data_cases[of ip sp dp tip p w])
      (simp_all add: carry_sent carry_emit del: data_header_pack.simps)
qed

lemma forward_intercepted_rule [preserves_intro]: "preserves P (forward_intercepted E d anc addr)"
  unfolding forward_intercepted_def forward_to_def send_plain_def by (intro preserves_intro)

lemma drain_loop_rule [preserves_intro]: "preserves P (drain_loop E n)"
  by (induction n) (auto intro!: preserves_intro)

end

locale stable = carried +
  assumes stable_ctrl: "P w \<Longrightarrow> P (upd_ctrl f w)"
    and stable_http: "P w \<Longrightarrow> request_shape req \<Longrightarrow> P (emit (HttpReq req) w)"
    and stable_clock: "P w \<Longrightarrow> P (w\<lparr>clock := t\<rparr>)"
begin

lemma ctrl_rule [preserves_intro]: "preserves P (pmod (upd_ctrl f))"
  "preserves P (pmod (\<lambda>w. upd_ctrl (g w) w))"
  by (simp_all add: preserves_pmod stable_ctrl)

lemma http_call_rule [preserves_intro]: "request_shape req \<Longrightarrow> preserves P (http_call E req)"
  unfolding http_call_def by (intro preserves_intro preserves_pmod) (simp add: stable_http stable_clock)

lemma trigger_app_snapshot_rule [preserves_intro]: "preserves P (trigger_app_snapshot E sid)"
  unfolding trigger_app_snapshot_def
  by (intro preserves_intro) (simp add: request_shape_def checkpoint_req_def)

lemma post_artifact_rule: "artifact_shape a \<Longrightarrow> preserves P (post_artifact E a)"
  unfolding post_artifact_def by (intro preserves_intro) (simp add: request_shape_def)

lemma self_mesh_ip_rule [preserves_intro]: "preserves P (self_mesh_ip E)"
  by (rule preservesI) (simp add: self_mesh_ip_run stable_ctrl)

lemma open_cut_rule [preserves_intro]: "preserves P (open_cut E ip seq p)"
  unfolding open_cut_def Let_def drain_intercept_def broadcast_marker_def
  by (intro preserves_intro)

lemma flush_rule:
  assumes "\<And>a b c d e f. preserves P (deliver a b c d e f)"
  shows "preserves P (flush_and_reset deliver)"
  unfolding flush_and_reset_def flush_channel_def deliver_msg_def Let_def
  by (intro preserves_intro assms)

lemma finish_rule:
  assumes "\<And>a b c d e f. preserves P (deliver a b c d e f)"
  shows "preserves P (finish_global_snapshot E deliver)" and "preserves P (abort_snapshot E deliver)"
proof -
  note flush = flush_rule[OF assms]
  have post: "preserves P (pbind (plift (build_artifact E st c))
      (\<lambda>a. pseq (post_artifact E a) (flush_and_reset deliver)))" if "st = ''complete'' \<or> st = ''aborted''" for st c
    by (intro preserves_pbind_plift preserves_pseq post_artifact_rule flush)
      (rule build_artifact_shape[OF _ that])
  show "preserves P (finish_global_snapshot E deliver)" "preserves P (abort_snapshot E deliver)"
    unfolding finish_global_snapshot_def abort_snapshot_def
    by (intro preserves_pbind preserves_pget post; simp)+
qed

lemma process_message_n_rule [preserves_intro]:
  "preserves P (process_message_n E n ip seq p sp dp tip)"
proof (induction n arbitrary: ip seq p sp dp tip)
  case (Suc n)
  have "preserves P (deliver_with E (process_message_n E n) a b c d e f)" for a b c d e f
    unfolding deliver_with_def by (intro preserves_intro Suc)
  then show ?case
    unfolding process_message_n.simps process_message_with_def first_marker_def later_marker_def
      finish_if_done_def record_msg_def Let_def
    by (intro preserves_intro finish_rule)
qed (simp add: preserves_praise)

lemma process_and_deliver_rule [preserves_intro]:
  "preserves P (process_and_deliver E seq p ip sp dp tip)"
  unfolding process_and_deliver_def process_message_def deliver_with_def by (intro preserves_intro)

end

interpretation still: stable "\<lambda>w. still w = s" for s
  by unfold_locales (simp_all del: data_header_pack.simps)

interpretation short: stable "\<lambda>w. length (local_sock w) \<le> k" for k
  by unfold_locales (simp_all del: data_header_pack.simps)

interpretation extends: stable "\<lambda>w. \<exists>es. trace w = t @ es" for t
  by unfold_locales (auto simp del: data_header_pack.simps)

lemmas still_rules [preserves_intro] = still.process_and_deliver_rule

end
