(* ===== verification/Reassembly.thy ===== *)
theory Reassembly
  imports Prelude
begin

text \<open>
  The in-order receiver of one peer, without the delivery it triggers: the next expected
  sequence number and the buffer of packets that came too early. The locale states what a
  client may rely on and proves, for any arrivals (lost, duplicated, reordered), that what
  comes out is the sender's stream, in order, each number once, up to the first gap.
\<close>

lemma interval_gap:
  fixes n n' b s :: int
  assumes "\<And>k. n \<le> k \<Longrightarrow> k < n' \<Longrightarrow> k \<in> insert s D" and "\<And>k. k \<in> D \<Longrightarrow> n < k"
    and "n \<le> n'" and "b \<le> n"
  shows "{b..<n'} \<union> {k \<in> insert s D. n' \<le> k} = {b..<n} \<union> D \<union> {k. k = s \<and> b \<le> s}"
proof (rule set_eqI)
  fix x
  show "x \<in> {b..<n'} \<union> {k \<in> insert s D. n' \<le> k} \<longleftrightarrow> x \<in> {b..<n} \<union> D \<union> {k. k = s \<and> b \<le> s}"
    using assms(1)[of x] assms(2)[of x] assms(3,4)
    by (cases "n \<le> x"; cases "x < n'"; cases "x = s") auto
qed

subsection \<open>The contract\<close>

locale in_order_receiver =
  fixes next_seq :: "'r \<Rightarrow> int"
    and held :: "'r \<Rightarrow> int \<Rightarrow> 'm option"
    and accept :: "int \<times> 'm \<Rightarrow> 'r \<Rightarrow> 'r \<times> (int \<times> 'm) list"
    and inv :: "'r \<Rightarrow> bool"
  assumes inv_accept: "inv r \<Longrightarrow> inv (fst (accept e r))"
    and inv_held: "inv r \<Longrightarrow> held r k \<noteq> None \<Longrightarrow> next_seq r < k"
    and next_mono: "inv r \<Longrightarrow> next_seq r \<le> next_seq (fst (accept e r))"
    and out_seqs: "inv r \<Longrightarrow> map fst (snd (accept e r)) = [next_seq r..next_seq (fst (accept e r)) - 1]"
    and out_content: "inv r \<Longrightarrow> (k, x) \<in> set (snd (accept (s, m) r)) \<Longrightarrow>
      k = s \<and> x = m \<or> held r k = Some x"
    and held_content: "inv r \<Longrightarrow> held (fst (accept (s, m) r)) k = Some x \<Longrightarrow>
      k = s \<and> x = m \<or> held r k = Some x"
    and held_dom: "inv r \<Longrightarrow> dom (held (fst (accept (s, m) r)))
      = {k \<in> insert s (dom (held r)). next_seq (fst (accept (s, m) r)) \<le> k}"
begin

text \<open>The receiver run over a list of arrivals, collecting what comes out.\<close>

fun run :: "(int \<times> 'm) list \<Rightarrow> 'r \<Rightarrow> 'r \<times> (int \<times> 'm) list" where
  "run [] r = (r, [])"
| "run (e # es) r =
     (let (r', out) = accept e r; (r'', out') = run es r' in (r'', out @ out'))"

lemma run_Cons:
  "fst (run (e # es) r) = fst (run es (fst (accept e r)))"
  "snd (run (e # es) r) = snd (accept e r) @ snd (run es (fst (accept e r)))"
  by (simp_all add: case_prod_unfold Let_def)

lemma inv_run: "inv r \<Longrightarrow> inv (fst (run es r))"
  by (induction es arbitrary: r) (simp_all add: run_Cons inv_accept del: run.simps(2))

lemma run_mono: "inv r \<Longrightarrow> next_seq r \<le> next_seq (fst (run es r))"
proof (induction es arbitrary: r)
  case (Cons e es)
  show ?case
    unfolding run_Cons
    using next_mono[OF Cons.prems] Cons.IH[OF inv_accept[OF Cons.prems]] by (rule order_trans)
qed simp

lemma run_seqs:
  "inv r \<Longrightarrow> map fst (snd (run es r)) = [next_seq r..next_seq (fst (run es r)) - 1]"
proof (induction es arbitrary: r)
  case (Cons e es)
  let ?r = "fst (accept e r)"
  have "map fst (snd (run (e # es) r)) = [next_seq r..next_seq ?r - 1]
      @ [next_seq ?r..next_seq (fst (run es ?r)) - 1]"
    using Cons.IH[OF inv_accept[OF Cons.prems]] out_seqs[OF Cons.prems]
    by (simp only: run_Cons map_append)
  also have "\<dots> = [next_seq r..next_seq (fst (run es ?r)) - 1]"
    using next_mono[OF Cons.prems, of e] run_mono[OF inv_accept[OF Cons.prems, of e], of es]
      upto_split1[of "next_seq r" "next_seq ?r" "next_seq (fst (run es ?r)) - 1"]
    by (cases "next_seq ?r \<le> next_seq (fst (run es ?r)) - 1") auto
  finally show ?case by (simp only: run_Cons)
qed simp

text \<open>Every arrival, and everything already held, carries the sender's content.\<close>

definition from_stream :: "(int \<Rightarrow> 'm) \<Rightarrow> 'r \<Rightarrow> bool" where
  "from_stream sent r \<longleftrightarrow> (\<forall>k x. held r k = Some x \<longrightarrow> x = sent k)"

lemma run_content:
  assumes "inv r" and "from_stream sent r" and "\<forall>e\<in>set es. snd e = sent (fst e)"
    and "(k, x) \<in> set (snd (run es r))"
  shows "x = sent k"
  using assms
proof (induction es arbitrary: r)
  case (Cons e es)
  obtain s m where e: "e = (s, m)" and m: "m = sent s" using Cons.prems(3) by (cases e) auto
  have "from_stream sent (fst (accept e r))"
    using Cons.prems(2) held_content[OF Cons.prems(1)] m unfolding from_stream_def e by blast
  note IH = Cons.IH[OF inv_accept[OF Cons.prems(1)] this]
  from Cons.prems(4) consider "(k, x) \<in> set (snd (accept (s, m) r))"
    | "(k, x) \<in> set (snd (run es (fst (accept e r))))"
    unfolding run_Cons e by auto
  then show ?case
  proof cases
    case 1
    then show ?thesis
      using out_content[OF Cons.prems(1) 1] Cons.prems(2) m by (auto simp: from_stream_def)
  next
    case 2
    then show ?thesis using IH Cons.prems(3) by simp
  qed
qed simp

text \<open>First in, first out: the output is the sender's stream from the first number on.\<close>

lemma run_fifo:
  assumes "inv r" and "from_stream sent r" and "\<forall>e\<in>set es. snd e = sent (fst e)"
  shows "snd (run es r) = map (\<lambda>k. (k, sent k)) [next_seq r..next_seq (fst (run es r)) - 1]"
proof -
  let ?out = "snd (run es r)"
  have "?out = map (\<lambda>k. (k, sent k)) (map fst ?out)"
    using run_content[OF assms] by (auto simp: o_def intro!: map_idI[symmetric])
  then show ?thesis by (simp only: run_seqs[OF assms(1)])
qed

text \<open>What has arrived is what was handed out and what is held.\<close>

definition got :: "int \<Rightarrow> 'r \<Rightarrow> int set" where
  "got b r = {b..<next_seq r} \<union> dom (held r)"

lemma got_accept:
  assumes "inv r" and "b \<le> next_seq r"
  shows "got b (fst (accept (s, m) r)) = got b r \<union> {k. k = s \<and> b \<le> s}"
proof -
  let ?r = "fst (accept (s, m) r)"
  have "k \<in> insert s (dom (held r))" if "next_seq r \<le> k" "k < next_seq ?r" for k
  proof -
    from that have "k \<in> set (map fst (snd (accept (s, m) r)))"
      by (simp add: out_seqs[OF assms(1)] del: set_map)
    then show ?thesis using out_content[OF assms(1)] by fastforce
  qed
  moreover have "next_seq r < k" if "k \<in> dom (held r)" for k
    using inv_held[OF assms(1)] that by blast
  moreover have "next_seq r \<le> next_seq ?r" by (rule next_mono[OF assms(1)])
  ultimately show ?thesis
    unfolding got_def held_dom[OF assms(1)] using assms(2) by (rule interval_gap)
qed

lemma run_got:
  assumes "inv r" and "b \<le> next_seq r"
  shows "got b (fst (run es r)) = got b r \<union> {k \<in> fst ` set es. b \<le> k}"
  using assms
proof (induction es arbitrary: r)
  case (Cons e es)
  obtain s m where e: "e = (s, m)" by (cases e)
  have "b \<le> next_seq (fst (accept e r))"
    using Cons.prems next_mono[OF Cons.prems(1), of e] by simp
  from Cons.IH[OF inv_accept[OF Cons.prems(1)] this] show ?case
    by (auto simp: run_Cons e got_accept[OF Cons.prems] simp del: run.simps(2))
qed simp

lemma next_not_got: "inv r \<Longrightarrow> next_seq r \<notin> got b r"
  using inv_held[of r "next_seq r"] by (auto simp: got_def)

text \<open>
  A fresh receiver stops at the first number that never arrived, and at no other: every
  number below it was handed out, also after any loss, repetition or reordering.
\<close>

lemma run_stops_at_gap:
  assumes "inv r" and "dom (held r) = {}"
  shows "next_seq (fst (run es r)) \<notin> fst ` set es"
    and "\<And>k. next_seq r \<le> k \<Longrightarrow> k < next_seq (fst (run es r)) \<Longrightarrow> k \<in> fst ` set es"
proof -
  let ?b = "next_seq r"
  have got: "got ?b (fst (run es r)) = {k \<in> fst ` set es. ?b \<le> k}"
    using run_got[OF assms(1), of ?b es] assms(2) by (simp add: got_def[of _ r])
  show "next_seq (fst (run es r)) \<notin> fst ` set es"
    using next_not_got[OF inv_run[OF assms(1)], of es ?b] run_mono[OF assms(1), of es] got by auto
  show "k \<in> fst ` set es" if "?b \<le> k" "k < next_seq (fst (run es r))" for k
  proof -
    from that have "k \<in> got ?b (fst (run es r))" by (simp add: got_def)
    then show ?thesis unfolding got by blast
  qed
qed

lemma run_complete:
  assumes "inv r" and "dom (held r) = {}" and "{next_seq r..<n} \<subseteq> fst ` set es"
  shows "n \<le> next_seq (fst (run es r))"
  using run_stops_at_gap(1)[OF assms(1,2), of es] run_mono[OF assms(1), of es] assms(3)
  by (meson atLeastLessThan_iff linorder_not_le subsetD)

end

subsection \<open>The reassembly the tunnel does\<close>

lemma length_delete_present: "map_of d k = Some v \<Longrightarrow> length (AList.delete k d) < length d"
proof (induction d)
  case (Cons e d)
  have "length (AList.delete k d) \<le> length d" by (rule length_delete_le)
  with Cons show ?case by (cases e) auto
qed simp

function rx_flush :: "int \<Rightarrow> (int \<times> 'm) list \<Rightarrow> (int \<times> (int \<times> 'm) list) \<times> (int \<times> 'm) list" where
  "rx_flush n buf =
     (case map_of buf n of
        None \<Rightarrow> ((n, buf), [])
      | Some m \<Rightarrow>
          (let (r, out) = rx_flush (n + 1) (AList.delete n buf) in (r, (n, m) # out)))"
  by pat_completeness auto

termination
  by (relation "measure (\<lambda>(n, buf). length buf)") (simp_all add: length_delete_present)

declare rx_flush.simps [simp del]

definition rx_accept :: "int \<times> 'm \<Rightarrow> int \<times> (int \<times> 'm) list \<Rightarrow>
    (int \<times> (int \<times> 'm) list) \<times> (int \<times> 'm) list" where
  "rx_accept e r =
     (if fst e = fst r then
        (let (r', out) = rx_flush (fst r + 1) (snd r) in (r', e # out))
      else if fst r < fst e then ((fst r, AList.update (fst e) (snd e) (snd r)), [])
      else (r, []))"

definition rx_inv :: "int \<times> (int \<times> 'm) list \<Rightarrow> bool" where
  "rx_inv r \<longleftrightarrow> distinct (map fst (snd r)) \<and> (\<forall>k\<in>set (map fst (snd r)). fst r < k)"

lemma rx_flush_None: "map_of buf n = None \<Longrightarrow> rx_flush n buf = ((n, buf), [])"
  by (simp add: rx_flush.simps)

lemma rx_flush_Some:
  "map_of buf n = Some m \<Longrightarrow> rx_flush n buf =
     (fst (rx_flush (n + 1) (AList.delete n buf)),
      (n, m) # snd (rx_flush (n + 1) (AList.delete n buf)))"
  by (simp add: rx_flush.simps[of n buf] case_prod_unfold Let_def)

lemma rx_flush_spec:
  assumes "distinct (map fst buf)" and "\<And>k. map_of buf k \<noteq> None \<Longrightarrow> n \<le> k"
  shows "n \<le> fst (fst (rx_flush n buf))
    \<and> map fst (snd (rx_flush n buf)) = [n..fst (fst (rx_flush n buf)) - 1]
    \<and> (\<forall>(k, x)\<in>set (snd (rx_flush n buf)). map_of buf k = Some x)
    \<and> map_of (snd (fst (rx_flush n buf))) = map_of buf |` {k. fst (fst (rx_flush n buf)) \<le> k}
    \<and> rx_inv (fst (rx_flush n buf))"
  using assms
proof (induction n buf rule: rx_flush.induct)
  case (1 n buf)
  show ?case
  proof (cases "map_of buf n")
    case None
    have "n < k" if "map_of buf k \<noteq> None" for k
      using 1(3)[OF that] None that by (cases "k = n") auto
    then have "\<forall>k\<in>set (map fst buf). n < k"
      unfolding pydict.set_keys by blast
    moreover have "map_of buf |` {k. n \<le> k} = map_of buf"
    proof (rule ext)
      fix k show "(map_of buf |` {k. n \<le> k}) k = map_of buf k"
        using 1(3)[of k] by (cases "map_of buf k") (auto simp: restrict_map_def)
    qed
    ultimately show ?thesis using 1(2) None by (simp add: rx_flush_None rx_inv_def)
  next
    case (Some m)
    let ?buf = "AList.delete n buf"
    have gt: "n + 1 \<le> k" if "map_of ?buf k \<noteq> None" for k
      using that 1(3)[of k] by (cases "k = n") auto
    have "distinct (map fst ?buf)" using 1(2) by simp
    from 1(1)[OF Some this gt] have
      IH: "n + 1 \<le> fst (fst (rx_flush (n + 1) ?buf))"
        "map fst (snd (rx_flush (n + 1) ?buf)) = [n + 1..fst (fst (rx_flush (n + 1) ?buf)) - 1]"
        "\<forall>(k, x)\<in>set (snd (rx_flush (n + 1) ?buf)). map_of ?buf k = Some x"
        "map_of (snd (fst (rx_flush (n + 1) ?buf)))
          = map_of ?buf |` {k. fst (fst (rx_flush (n + 1) ?buf)) \<le> k}"
        "rx_inv (fst (rx_flush (n + 1) ?buf))" by blast+
    have "[n..fst (fst (rx_flush (n + 1) ?buf)) - 1] = n # [n + 1..fst (fst (rx_flush (n + 1) ?buf)) - 1]"
      using IH(1) by (subst upto_rec1) auto
    moreover have "map_of ?buf |` {k. m \<le> k} = map_of buf |` {k. m \<le> k}" if "n + 1 \<le> m" for m
      using that by (auto simp: restrict_map_def fun_eq_iff)
    moreover have "\<forall>(k, x)\<in>set (snd (rx_flush (n + 1) ?buf)). map_of buf k = Some x"
      using IH(3) by (auto split: if_splits)
    ultimately show ?thesis
      unfolding rx_flush_Some[OF Some] using IH Some by simp
  qed
qed

lemma rx_accept_simps:
  "s = fst r \<Longrightarrow> rx_accept (s, m) r =
     (fst (rx_flush (fst r + 1) (snd r)), (s, m) # snd (rx_flush (fst r + 1) (snd r)))"
  "fst r < s \<Longrightarrow> rx_accept (s, m) r = ((fst r, AList.update s m (snd r)), [])"
  "s < fst r \<Longrightarrow> rx_accept (s, m) r = (r, [])"
  by (simp_all add: rx_accept_def case_prod_unfold Let_def)

text \<open>All the laws at once, for one arrival.\<close>

lemma rx_accept_spec:
  assumes inv: "rx_inv r"
  shows "rx_inv (fst (rx_accept (s, m) r))"
    and "fst r \<le> fst (fst (rx_accept (s, m) r))"
    and "map fst (snd (rx_accept (s, m) r)) = [fst r..fst (fst (rx_accept (s, m) r)) - 1]"
    and "\<And>k x. (k, x) \<in> set (snd (rx_accept (s, m) r)) \<Longrightarrow> k = s \<and> x = m \<or> map_of (snd r) k = Some x"
    and "map_of (snd (fst (rx_accept (s, m) r)))
      = ((map_of (snd r))(s \<mapsto> m)) |` {k. fst (fst (rx_accept (s, m) r)) \<le> k}"
proof -
  have above: "map_of (snd r) k = None" if "k \<le> fst r" for k
    using inv that unfolding rx_inv_def pydict.set_keys by (metis domIff leD)
  have out: "rx_inv (fst (rx_accept (s, m) r)) \<and> fst r \<le> fst (fst (rx_accept (s, m) r))
    \<and> map fst (snd (rx_accept (s, m) r)) = [fst r..fst (fst (rx_accept (s, m) r)) - 1]
    \<and> (\<forall>(k, x)\<in>set (snd (rx_accept (s, m) r)). k = s \<and> x = m \<or> map_of (snd r) k = Some x)
    \<and> map_of (snd (fst (rx_accept (s, m) r)))
      = ((map_of (snd r))(s \<mapsto> m)) |` {k. fst (fst (rx_accept (s, m) r)) \<le> k}"
  proof (cases s "fst r" rule: linorder_cases)
    case less
    then show ?thesis
      using inv above by (auto simp: rx_accept_simps restrict_map_def fun_eq_iff)
  next
    case equal
    let ?f = "rx_flush (fst r + 1) (snd r)"
    have keys: "fst r + 1 \<le> k" if "map_of (snd r) k \<noteq> None" for k
      using that above[of k] by force
    have d: "distinct (map fst (snd r))" using inv by (simp add: rx_inv_def)
    note spec = rx_flush_spec[OF d keys]
    have "[fst r..fst (fst ?f) - 1] = fst r # [fst r + 1..fst (fst ?f) - 1]"
      using spec by (subst upto_rec1) auto
    moreover have "map_of (snd r) |` {k. n \<le> k} = ((map_of (snd r))(s \<mapsto> m)) |` {k. n \<le> k}"
      if "fst r + 1 \<le> n" for n
      using that equal by (auto simp: restrict_map_def fun_eq_iff)
    ultimately show ?thesis using spec equal by (auto simp: rx_accept_simps)
  next
    case greater
    have "set (map fst (AList.update s m (snd r))) = insert s (set (map fst (snd r)))"
      by (rule pydict.set_keys_put)
    then have "rx_inv (fst r, AList.update s m (snd r))"
      using inv greater by (simp add: rx_inv_def)
    then show ?thesis
      using greater above by (auto simp: rx_accept_simps restrict_map_def fun_eq_iff)
  qed
  then show "rx_inv (fst (rx_accept (s, m) r))"
    and "fst r \<le> fst (fst (rx_accept (s, m) r))"
    and "map fst (snd (rx_accept (s, m) r)) = [fst r..fst (fst (rx_accept (s, m) r)) - 1]"
    and "map_of (snd (fst (rx_accept (s, m) r)))
      = ((map_of (snd r))(s \<mapsto> m)) |` {k. fst (fst (rx_accept (s, m) r)) \<le> k}" by blast+
  show "k = s \<and> x = m \<or> map_of (snd r) k = Some x" if "(k, x) \<in> set (snd (rx_accept (s, m) r))" for k x
    using out that by blast
qed

interpretation rx: in_order_receiver fst "\<lambda>r. map_of (snd r)" rx_accept rx_inv
proof unfold_locales
  fix r :: "int \<times> (int \<times> 'm) list" and e :: "int \<times> 'm" and k :: int
  assume inv: "rx_inv r"
  obtain s m where e: "e = (s, m)" by (cases e)
  show "rx_inv (fst (rx_accept e r))" "fst r \<le> fst (fst (rx_accept e r))"
    "map fst (snd (rx_accept e r)) = [fst r..fst (fst (rx_accept e r)) - 1]"
    unfolding e by (rule rx_accept_spec[OF inv])+
  show "map_of (snd r) k \<noteq> None \<Longrightarrow> fst r < k"
    using inv unfolding rx_inv_def pydict.set_keys by blast
next
  fix r :: "int \<times> (int \<times> 'm) list" and s k :: int and m x :: 'm
  assume inv: "rx_inv r"
  note spec = rx_accept_spec[OF inv, where s = s and m = m]
  show "(k, x) \<in> set (snd (rx_accept (s, m) r)) \<Longrightarrow> k = s \<and> x = m \<or> map_of (snd r) k = Some x"
    by (rule spec(4))
  show "map_of (snd (fst (rx_accept (s, m) r))) k = Some x \<Longrightarrow> k = s \<and> x = m \<or> map_of (snd r) k = Some x"
    unfolding spec(5) by (auto simp: restrict_map_def split: if_splits)
  show "dom (map_of (snd (fst (rx_accept (s, m) r))))
      = {k \<in> insert s (dom (map_of (snd r))). fst (fst (rx_accept (s, m) r)) \<le> k}"
    unfolding spec(5) by (auto simp: restrict_map_def split: if_splits)
qed

end
