(* ===== verification/Tunnel.thy ===== *)
theory Tunnel
  imports Recording Stable Reassembly Demo
begin

text \<open>
  \<open>TunnelProtocol.datagram_received\<close>: the three kinds of tunnel packets (data, ack, plain),
  the strict in-order delivery of data, and the lemmas that tie the handler to the
  reassembly of \<^verbatim>\<open>Reassembly.thy\<close>.
\<close>

subsection \<open>The code\<close>

definition bump_recv_seq :: "string \<Rightarrow> unit act" where
  "bump_recv_seq ip = pmod (upd_peer ip (\<lambda>p. p\<lparr>recv_seq := recv_seq p + 1\<rparr>))"

text \<open>
  The loop that flushes the buffer, with a bound on its iterations: each pops an entry, so
  the number of entries and one more for the failing test are enough (\<open>flush_buffer_run\<close>).
\<close>

fun flush_loop :: "env \<Rightarrow> nat \<Rightarrow> string \<Rightarrow> unit act" where
  "flush_loop E 0 ip = praise RecursionError"
| "flush_loop E (Suc n) ip =
     pbind (pget (\<lambda>w. recv_seq (peer_of w ip))) (\<lambda>seq.
     pbind (pget (\<lambda>w. map_of (recv_buffer (peer_of w ip)) seq)) (\<lambda>entry.
       case entry of
         None \<Rightarrow> pret ()
       | Some (next_payload, next_src_port, next_dst_port, next_local_ip) \<Rightarrow>
           pseq (pmod (upd_peer ip (\<lambda>p. p\<lparr>recv_buffer := AList.delete seq (recv_buffer p)\<rparr>)))
          (pseq (process_and_deliver E seq next_payload ip next_src_port next_dst_port next_local_ip)
          (pseq (bump_recv_seq ip) (flush_loop E n ip)))))"

definition flush_buffer :: "env \<Rightarrow> string \<Rightarrow> unit act" where
  "flush_buffer E ip =
     pbind (pget (\<lambda>w. length (recv_buffer (peer_of w ip)))) (\<lambda>n. flush_loop E (Suc n) ip)"

definition in_order :: "env \<Rightarrow> string \<Rightarrow> int \<Rightarrow> buffered \<Rightarrow> unit act" where
  "in_order E remote_ip seq m =
     (case m of (payload, src_port, dst_port, local_ip) \<Rightarrow>
        pbind (pget (\<lambda>w. recv_seq (peer_of w remote_ip))) (\<lambda>recv.
          if seq = recv then
            pseq (process_and_deliver E seq payload remote_ip src_port dst_port local_ip)
           (pseq (bump_recv_seq remote_ip) (flush_buffer E remote_ip))
          else if recv < seq then
            pmod (upd_peer remote_ip (\<lambda>p. p\<lparr>recv_buffer := AList.update seq m (recv_buffer p)\<rparr>))
          else pret ()))"

definition receive_data :: "env \<Rightarrow> bytes \<Rightarrow> string \<Rightarrow> unit act" where
  "receive_data E data remote_ip =
     (if length data < DATA_HEADER_size then pret ()
      else
        pbind (plift (data_header_unpack (take DATA_HEADER_size data)))
          (\<lambda>(_, seq, orig_src_port, orig_dst_port, target_ip_bytes).
        pbind (plift (inet_ntoa target_ip_bytes)) (\<lambda>exact_local_ip.
        pbind (plift (ack_header_pack (1, seq))) (\<lambda>ack_packet.
          pseq (tunnel_sendto ack_packet remote_ip)
            (in_order E remote_ip seq
              (drop DATA_HEADER_size data, orig_src_port, orig_dst_port, exact_local_ip))))))"

definition receive_plain :: "env \<Rightarrow> bytes \<Rightarrow> string \<Rightarrow> unit act" where
  "receive_plain E data remote_ip =
     (if length data < DATA_HEADER_size then pret ()
      else
        pbind (plift (data_header_unpack (take DATA_HEADER_size data)))
          (\<lambda>(_, _, orig_src_port, orig_dst_port, target_ip_bytes).
        pbind (plift (inet_ntoa target_ip_bytes)) (\<lambda>exact_local_ip.
        pbind (get_spoof_sock E remote_ip orig_src_port) (\<lambda>spoof_sock.
          spoof_sendto E spoof_sock (drop DATA_HEADER_size data) (exact_local_ip, orig_dst_port)))))"

definition receive_ack :: "bytes \<Rightarrow> string \<Rightarrow> unit act" where
  "receive_ack data remote_ip =
     (if length data < ACK_HEADER_size then pret ()
      else
        pbind (plift (ack_header_unpack (take ACK_HEADER_size data))) (\<lambda>(_, seq).
          pmod (upd_peer remote_ip (\<lambda>p. p\<lparr>unacked := AList.delete seq (unacked p)\<rparr>))))"

definition datagram_received :: "env \<Rightarrow> bytes \<Rightarrow> string \<Rightarrow> unit act" where
  "datagram_received E data remote_ip =
     pseq (get_peer remote_ip)
       (if length data < 5 then pret ()
        else
          (let msg_type = (of_char (data ! 0) :: int) in
           if msg_type = 0 then receive_data E data remote_ip
           else if msg_type = 2 then receive_plain E data remote_ip
           else if msg_type = 1 then receive_ack data remote_ip
           else pret ()))"

subsection \<open>The handler is the reassembly\<close>

definition to_arrival :: "string \<Rightarrow> int \<times> buffered \<Rightarrow> arrival" where
  "to_arrival ip e = (case e of (seq, payload, src_port, dst_port, local_ip) \<Rightarrow>
     \<lparr>a_ip = ip, a_seq = seq, a_payload = payload, a_src_port = src_port, a_dst_port = dst_port,
      a_local_ip = local_ip\<rparr>)"

text \<open>One packet leaves the reassembly: out of the buffer, delivered, counted.\<close>

definition pop :: "string \<Rightarrow> int \<Rightarrow> world \<Rightarrow> world" where
  "pop ip seq = upd_peer ip (\<lambda>p. p\<lparr>recv_buffer := AList.delete seq (recv_buffer p)\<rparr>)"

definition release :: "env \<Rightarrow> string \<Rightarrow> int \<times> buffered \<Rightarrow> unit act" where
  "release E ip e =
     pseq (pmod (pop ip (fst e))) (pseq (arrive E (to_arrival ip e)) (bump_recv_seq ip))"

lemma rx_of_simps [simp]:
  "rx_of (upd_ctrl f w) jp = rx_of w jp" "rx_of (emit e w) jp = rx_of w jp"
  "rx_of (ensured ip w) jp = rx_of w jp"
  "rx_of (pop ip seq w) jp =
     (if jp = ip then (fst (rx_of w ip), AList.delete seq (snd (rx_of w ip))) else rx_of w jp)"
  by (simp_all add: rx_of_def pop_def)

lemma bump_run: "bump_recv_seq ip w = (Inr (), upd_peer ip (\<lambda>p. p\<lparr>recv_seq := recv_seq p + 1\<rparr>) w)"
  by (simp add: bump_recv_seq_def pmod_run)

lemma rx_of_bump [simp]:
  "rx_of (upd_peer ip (\<lambda>p. p\<lparr>recv_seq := recv_seq p + 1\<rparr>) w) jp =
     (if jp = ip then (fst (rx_of w ip) + 1, snd (rx_of w ip)) else rx_of w jp)"
  by (simp add: rx_of_def)

lemma arrive_still [preserves_intro]: "preserves (\<lambda>w. still w = s) (arrive E x)"
  unfolding arrive_def by (intro preserves_intro)

lemma arrive_rx: "arrive E x w = (r, v) \<Longrightarrow> rx_of v = rx_of w \<and> tunnel_transport v = tunnel_transport w"
  using preserves_runD[OF arrive_still refl, of E x w r v] by (simp add: still_def)

lemma arrive_extends: "\<exists>es. trace (snd (arrive E x w)) = trace w @ es"
proof -
  have "preserves (\<lambda>v. \<exists>es. trace v = trace w @ es) (arrive E x)"
    unfolding arrive_def by (rule extends.process_and_deliver_rule)
  from preservesD[OF this, of w] show ?thesis by simp
qed

lemma arrive_to_arrival:
  "arrive E (to_arrival ip (seq, p, sp, dp, lip)) = process_and_deliver E seq p ip sp dp lip"
  by (simp add: arrive_def to_arrival_def)

lemma release_rx:
  assumes "release E ip e w = (Inr (), v)"
  shows "rx_of v jp = (if jp = ip then (fst (rx_of w ip) + 1, AList.delete (fst e) (snd (rx_of w ip)))
      else rx_of w jp)"
    and "tunnel_transport v = tunnel_transport w"
proof -
  obtain u where u: "arrive E (to_arrival ip e) (pop ip (fst e) w) = (Inr (), u)"
    and v: "v = upd_peer ip (\<lambda>p. p\<lparr>recv_seq := recv_seq p + 1\<rparr>) u"
    using assms by (auto simp: release_def pseq_pmod bump_run elim!: pseq_InrD)
  show "rx_of v jp = (if jp = ip then (fst (rx_of w ip) + 1, AList.delete (fst e) (snd (rx_of w ip)))
      else rx_of w jp)"
    and "tunnel_transport v = tunnel_transport w"
    using arrive_rx[OF u] by (simp_all add: v) (simp_all add: pop_def)
qed

lemma release_first: "pseq (release E ip e) n w =
    pseq (arrive E (to_arrival ip e)) (pseq (bump_recv_seq ip) n) (pop ip (fst e) w)"
  by (simp add: release_def pseq_assoc pseq_pmod)

lemma release_run: "release E ip e w =
    (case arrive E (to_arrival ip e) (pop ip (fst e) w) of (Inl x, t) \<Rightarrow> (Inl x, t)
     | (Inr _, t) \<Rightarrow> (Inr (), upd_peer ip (\<lambda>p. p\<lparr>recv_seq := recv_seq p + 1\<rparr>) t))"
  by (simp add: release_def pseq_run pmod_run bump_run split: prod.split sum.split)

lemma flush_loop_run:
  assumes "length (snd (rx_of w ip)) \<le> k"
  shows "flush_loop E (Suc k) ip w =
    pfor (release E ip) (snd (rx_flush (fst (rx_of w ip)) (snd (rx_of w ip)))) w"
  using assms
proof (induction k arbitrary: w)
  case 0
  then show ?case by (simp add: pbind_pget pret_run rx_of_def rx_flush_None)
next
  case (Suc k)
  obtain n buf where rx: "rx_of w ip = (n, buf)" by fastforce
  have fields: "recv_seq (peer_of w ip) = n" "recv_buffer (peer_of w ip) = buf"
    using rx by (simp_all add: rx_of_def)
  show ?case
  proof (cases "map_of buf n")
    case None
    then show ?thesis
      by (subst flush_loop.simps) (simp add: pbind_pget fields rx pret_run rx_flush_None)
  next
    case (Some m)
    obtain p sp dp lip where m: "m = (p, sp, dp, lip)" by (cases m)
    have step: "flush_loop E (Suc (Suc k)) ip w = pseq (release E ip (n, m)) (flush_loop E (Suc k) ip) w"
      by (subst flush_loop.simps)
        (simp add: pbind_pget fields Some m release_first arrive_to_arrival pseq_pmod pop_def
          del: flush_loop.simps)
    obtain r u where rel: "release E ip (n, m) w = (r, u)" by fastforce
    show ?thesis
    proof (cases r)
      case (Inl e)
      then show ?thesis
        by (simp add: step rx rx_flush_Some[OF Some] pseq_run rel del: flush_loop.simps)
    next
      case (Inr x)
      then have ru: "rx_of u ip = (n + 1, AList.delete n buf)"
        using release_rx(1)[of E ip "(n, m)" w u ip] rel rx by simp
      have "length (snd (rx_of u ip)) \<le> k"
        using length_delete_present[OF Some] Suc.prems rx ru by simp
      from Suc.IH[OF this] Inr show ?thesis
        by (simp add: step rx rx_flush_Some[OF Some] pseq_run rel ru del: flush_loop.simps)
    qed
  qed
qed

lemma flush_buffer_run:
  "flush_buffer E ip w = pfor (release E ip) (snd (rx_flush (fst (rx_of w ip)) (snd (rx_of w ip)))) w"
  using flush_loop_run[of w ip "length (recv_buffer (peer_of w ip))" E]
  by (simp add: flush_buffer_def pbind_pget rx_of_def del: flush_loop.simps)

lemma upd_peer_same:
  assumes "ip \<in> set (map fst (peers w))" and "f (peer_of w ip) = peer_of w ip"
  shows "upd_peer ip f w = w"
proof -
  have "AList.update k v d = d" if "map_of d k = Some v" for k v and d :: "(string \<times> peer_state) list"
    using that by (induction d) (auto split: if_splits)
  moreover have "map_of (peers w) ip = Some (peer_of w ip)"
    using assms(1) unfolding pydict.set_keys by (auto simp: peer_of_def)
  ultimately show ?thesis using assms(2) by (simp add: upd_peer_def)
qed

definition hold :: "string \<Rightarrow> int \<Rightarrow> buffered \<Rightarrow> world \<Rightarrow> world" where
  "hold ip seq m = upd_peer ip (\<lambda>p. p\<lparr>recv_buffer := AList.update seq m (recv_buffer p)\<rparr>)"

lemma in_order_run:
  assumes "ip \<in> set (map fst (peers w))" and inv: "rx_inv (rx_of w ip)"
  shows "in_order E ip seq m w =
    (if fst (rx_of w ip) < seq then (Inr (), hold ip seq m w)
     else pfor (release E ip) (snd (rx_accept (seq, m) (rx_of w ip))) w)"
proof -
  obtain n buf where rx: "rx_of w ip = (n, buf)" by fastforce
  obtain p sp dp lip where m: "m = (p, sp, dp, lip)" by (cases m)
  have fields: "recv_seq (peer_of w ip) = n" "recv_buffer (peer_of w ip) = buf"
    using rx by (simp_all add: rx_of_def)
  have out: "in_order E ip seq m w = pfor (release E ip) (snd (rx_accept (seq, m) (n, buf))) w"
    if eq: "seq = n"
  proof -
    have "map_of buf n = None"
      using inv unfolding rx rx_inv_def pydict.set_keys by (metis domIff fst_conv less_irrefl snd_conv)
    then have "AList.delete n buf = buf" by (simp add: map_of_eq_None_iff delete_idem)
    then have pop: "pop ip n w = w"
      unfolding pop_def by (intro upd_peer_same assms(1)) (simp add: fields)
    have "in_order E ip seq m w = pseq (release E ip (n, m)) (flush_buffer E ip) w"
      by (simp add: in_order_def m pbind_pget fields eq release_first pop arrive_to_arrival)
    also have "\<dots> = pfor (release E ip) ((n, m) # snd (rx_flush (n + 1) buf)) w"
    proof (cases "release E ip (n, m) w")
      case (Pair r u)
      have "flush_buffer E ip u = pfor (release E ip) (snd (rx_flush (n + 1) buf)) u" if "r = Inr ()"
        using release_rx(1)[of E ip "(n, m)" w u ip] Pair that rx \<open>AList.delete n buf = buf\<close>
        by (simp add: flush_buffer_run)
      with Pair show ?thesis by (cases r) (simp_all add: pseq_run)
    qed
    finally show ?thesis using eq by (simp add: rx_accept_simps)
  qed
  show ?thesis
    using out by (cases seq n rule: linorder_cases)
      (simp_all add: rx, simp_all add: in_order_def m pbind_pget fields pret_run pmod_run hold_def rx_accept_simps)
qed

lemma releases_rx:
  assumes "pfor (release E ip) (snd (rx_flush n buf)) w = (Inr (), v)" and "rx_of w ip = (n, buf)"
  shows "rx_of v = (rx_of w)(ip := fst (rx_flush n buf)) \<and> tunnel_transport v = tunnel_transport w"
  using assms
proof (induction n buf arbitrary: w rule: rx_flush.induct)
  case (1 n buf)
  show ?case
  proof (cases "map_of buf n")
    case None
    with 1 show ?thesis by (auto simp: rx_flush_None pret_run fun_eq_iff)
  next
    case (Some m)
    from 1(2) obtain u where u: "release E ip (n, m) w = (Inr (), u)"
      and rest: "pfor (release E ip) (snd (rx_flush (n + 1) (AList.delete n buf))) u = (Inr (), v)"
      by (auto simp: rx_flush_Some[OF Some] elim!: pseq_InrD)
    have ru: "rx_of u = (rx_of w)(ip := (n + 1, AList.delete n buf))"
      using release_rx(1)[OF u] 1(3) by auto
    with 1(1)[OF Some rest] release_rx(2)[OF u] show ?thesis
      by (simp add: rx_flush_Some[OF Some] fun_eq_iff)
  qed
qed

lemma rx_of_hold [simp]:
  "rx_of (hold ip seq m w) = (rx_of w)(ip := (fst (rx_of w ip), AList.update seq m (snd (rx_of w ip))))"
  by (rule ext) (simp add: hold_def rx_of_def)

lemma in_order_rx:
  assumes ip: "ip \<in> set (map fst (peers w))" and inv: "rx_inv (rx_of w ip)"
    and run: "in_order E ip seq m w = (Inr (), v)"
  shows "rx_of v = (rx_of w)(ip := fst (rx_accept (seq, m) (rx_of w ip)))"
    and "tunnel_transport v = tunnel_transport w"
proof -
  obtain n buf where rx: "rx_of w ip = (n, buf)" by fastforce
  have "rx_of v = (rx_of w)(ip := fst (rx_accept (seq, m) (rx_of w ip)))
    \<and> tunnel_transport v = tunnel_transport w"
  proof (cases seq n rule: linorder_cases)
    case less
    with run have "v = w" by (simp add: in_order_run[OF ip inv] rx rx_accept_simps pret_run)
    with less rx show ?thesis by (simp add: rx_accept_simps fun_upd_idem)
  next
    case equal
    have inv': "map_of buf n = None"
      using inv unfolding rx rx_inv_def pydict.set_keys by (metis domIff fst_conv less_irrefl snd_conv)
    from run equal obtain u where u: "release E ip (n, m) w = (Inr (), u)"
      and rest: "pfor (release E ip) (snd (rx_flush (n + 1) buf)) u = (Inr (), v)"
      by (auto simp: in_order_run[OF ip inv] rx rx_accept_simps elim!: pseq_InrD)
    have ru: "rx_of u = (rx_of w)(ip := (n + 1, buf))"
      using release_rx(1)[OF u] rx inv' by (auto simp: map_of_eq_None_iff delete_idem)
    with releases_rx[OF rest] release_rx(2)[OF u] equal show ?thesis
      by (simp add: rx rx_accept_simps fun_eq_iff)
  next
    case greater
    with run have v: "v = hold ip seq m w" by (simp add: in_order_run[OF ip inv] rx)
    from greater show ?thesis
      by (simp add: v rx rx_accept_simps) (simp add: hold_def)
  qed
  then show "rx_of v = (rx_of w)(ip := fst (rx_accept (seq, m) (rx_of w ip)))"
    and "tunnel_transport v = tunnel_transport w" by simp_all
qed

subsection \<open>Frames\<close>

text \<open>The bytes of a data packet and of the acknowledgement it gets.\<close>

definition data_frame :: "int \<Rightarrow> int \<Rightarrow> int \<Rightarrow> bytes \<Rightarrow> bytes \<Rightarrow> bytes" where
  "data_frame seq src_port dst_port target payload =
     data_header (0, seq, src_port, dst_port, target) @ payload"

definition ack_frame :: "int \<Rightarrow> bytes" where
  "ack_frame seq = be_bytes 1 1 @ be_bytes 8 seq"

lemma data_header_split:
  assumes "data_header_ok x"
  shows "length (data_header x @ p) \<ge> DATA_HEADER_size"
    and "data_header_unpack (take DATA_HEADER_size (data_header x @ p)) = Inr x"
    and "drop DATA_HEADER_size (data_header x @ p) = p"
  using data_codec.header_payload[OF assms data_header_pack_ok[OF assms], of p]
    data_header_length[OF data_header_pack_ok[OF assms]] by simp_all

lemma datagram_data_run:
  assumes ok: "data_header_ok (0, seq, sp, dp, target)" and up: "tunnel_transport w"
    and ip: "inet_ntoa target = Inr local_ip"
  shows "datagram_received E (data_frame seq sp dp target payload) ip w =
    in_order E ip seq (payload, sp, dp, local_ip)
      (emit (TunnelSend (ack_frame seq) ip) (ensured ip w))"
proof -
  have head: "data_frame seq sp dp target payload ! 0 = CHR 0x00"
    by (simp add: data_frame_def char_of_def)
  have len: "\<not> length (data_frame seq sp dp target payload) < 5"
    using data_header_split(1)[OF ok, of payload] by (simp add: data_frame_def DATA_HEADER_size_def)
  have ack: "ack_header_pack (1, seq) = Inr (ack_frame seq)"
    using ok by (simp add: ack_frame_def is_uint_def)
  show ?thesis
    using data_header_split[OF ok, of payload] len up
    by (simp add: datagram_received_def pseq_run get_peer_run head receive_data_def ip
        tunnel_sendto_def pbind_pget pmod_run ack linorder_not_less
        del: ack_header_pack.simps data_header.simps flip: data_frame_def)
qed


subsection \<open>First in, first out, up to the application\<close>

definition is_message :: "buffered \<Rightarrow> bool" where
  "is_message m \<longleftrightarrow> \<not> starts_with MARKER (fst m)"

definition to_app :: "int \<times> buffered \<Rightarrow> bytes \<times> string \<times> int" where
  "to_app e = (case e of (seq, payload, src_port, dst_port, local_ip) \<Rightarrow> (payload, local_ip, dst_port))"

text \<open>Outside a snapshot, one release is one datagram for the application.\<close>

lemma release_idle:
  assumes w: "idle w" and send: "\<forall>n. send_ok E n" and m: "is_message (snd e)"
  shows "\<exists>v. release E ip e w = (Inr (), v) \<and> idle v
    \<and> delivered (trace v) = delivered (trace w) @ [to_app e]
    \<and> tunneled (trace v) = tunneled (trace w)"
proof -
  obtain seq p sp dp lip where e: "e = (seq, p, sp, dp, lip)" by (cases e)
  let ?w = "pop ip seq w"
  have base: "base_inv ?w" "\<not> is_snapshotting (snapshot_ctrl ?w)"
    using w by (auto simp: idle_def pop_def peer_ok_def intro!: base_inv_upd_peer)
  obtain u where u: "spoof_deliver E p ip sp dp lip ?w = (Inr (), u)"
    "hands_over ?w u [(p, lip, dp)]" "snapshot_ctrl u = snapshot_ctrl ?w"
    by (rule spoof_deliver_run[OF base(1) send])
  let ?v = "upd_peer ip (\<lambda>p. p\<lparr>recv_seq := recv_seq p + 1\<rparr>) u"
  have "arrive E (to_arrival ip e) ?w = (Inr (), u)"
    using base(2) m u(1)
    by (simp add: e arrive_to_arrival process_and_deliver_run process_message_pass is_message_def)
  then have "release E ip e w = (Inr (), ?v)"
    by (simp add: release_def e pseq_run pmod_run bump_run)
  moreover have "idle ?v"
    using u base by (auto simp: idle_def hands_over_def peer_ok_def intro!: base_inv_upd_peer)
  ultimately show ?thesis
    using u(2) by (intro exI[of _ ?v]) (simp add: hands_over_def e to_app_def pop_def)
qed

lemma releases_idle:
  assumes "idle w" and "\<forall>n. send_ok E n" and "\<forall>e\<in>set es. is_message (snd e)"
  shows "\<exists>v. pfor (release E ip) es w = (Inr (), v) \<and> idle v
    \<and> delivered (trace v) = delivered (trace w) @ map to_app es
    \<and> tunneled (trace v) = tunneled (trace w)"
  using assms
proof (induction es arbitrary: w)
  case Nil
  then show ?case by (simp add: pret_run)
next
  case (Cons e es)
  then obtain u where u: "release E ip e w = (Inr (), u)" "idle u"
    "delivered (trace u) = delivered (trace w) @ [to_app e]" "tunneled (trace u) = tunneled (trace w)"
    using release_idle[OF Cons.prems(1,2), of e ip] by auto
  obtain v where v: "pfor (release E ip) es u = (Inr (), v)" "idle v"
    "delivered (trace v) = delivered (trace u) @ map to_app es"
    "tunneled (trace v) = tunneled (trace u)"
    using Cons.IH[OF u(2) Cons.prems(2)] Cons.prems(3) by auto
  show ?case
    using u v by (intro exI[of _ v]) (auto simp: pseq_run)
qed

text \<open>A data packet as it is on the wire, from one sender.\<close>

type_synonym packet = "int \<times> bytes \<times> int \<times> int \<times> bytes"

definition packet_ok :: "packet \<Rightarrow> bool" where
  "packet_ok d = (case d of (seq, payload, src_port, dst_port, target) \<Rightarrow>
     data_header_ok (0, seq, src_port, dst_port, target) \<and> \<not> starts_with MARKER payload)"

definition packet_bytes :: "packet \<Rightarrow> bytes" where
  "packet_bytes d = (case d of (seq, payload, src_port, dst_port, target) \<Rightarrow>
     data_frame seq src_port dst_port target payload)"

definition quad :: "bytes \<Rightarrow> string" where
  "quad b = (case inet_ntoa b of Inl _ \<Rightarrow> [] | Inr s \<Rightarrow> s)"

definition packet_entry :: "packet \<Rightarrow> int \<times> buffered" where
  "packet_entry d = (case d of (seq, payload, src_port, dst_port, target) \<Rightarrow>
     (seq, payload, src_port, dst_port, quad target))"

lemma fst_packet_entry [simp]: "fst (packet_entry d) = fst d"
  by (simp add: packet_entry_def split: prod.split)

lemma quad_ok: "length b = 4 \<Longrightarrow> inet_ntoa b = Inr (quad b)"
  using inet_codec.enc_ok[of b] by (auto simp: quad_def)

definition held_messages :: "int \<times> (int \<times> buffered) list \<Rightarrow> bool" where
  "held_messages r \<longleftrightarrow> (\<forall>k m. map_of (snd r) k = Some m \<longrightarrow> is_message m)"

lemma packet_received:
  assumes w: "idle w" and up: "tunnel_transport w" and send: "\<forall>n. send_ok E n"
    and inv: "rx_inv (rx_of w ip)" and held: "held_messages (rx_of w ip)" and d: "packet_ok d"
  obtains v where "datagram_received E (packet_bytes d) ip w = (Inr (), v)"
    and "idle v" and "tunnel_transport v"
    and "rx_of v = (rx_of w)(ip := fst (rx_accept (packet_entry d) (rx_of w ip)))"
    and "delivered (trace v) = delivered (trace w)
      @ map to_app (snd (rx_accept (packet_entry d) (rx_of w ip)))"
    and "tunneled (trace v) = tunneled (trace w) @ [(ack_frame (fst d), ip)]"
    and "rx_inv (rx_of v ip)" and "held_messages (rx_of v ip)"
proof -
  obtain seq p sp dp t where d': "d = (seq, p, sp, dp, t)" by (cases d)
  let ?m = "(p, sp, dp, quad t)"
  let ?w = "emit (TunnelSend (ack_frame seq) ip) (ensured ip w)"
  have ok: "data_header_ok (0, seq, sp, dp, t)" and mp: "is_message ?m"
    using d by (simp_all add: d' packet_ok_def is_message_def del: data_header_ok.simps)
  have e: "packet_entry d = (seq, ?m)" by (simp add: d' packet_entry_def)
  have run: "datagram_received E (packet_bytes d) ip w = in_order E ip seq ?m ?w"
    unfolding d' packet_bytes_def prod.case
    by (rule datagram_data_run[OF ok up]) (use ok quad_ok in simp)
  have ip: "ip \<in> set (map fst (peers ?w))" by (simp add: keys_ensured del: set_map)
  have rx: "rx_of ?w = rx_of w" by (rule ext) simp
  have inv': "rx_inv (rx_of ?w ip)" using inv by simp
  have w': "idle ?w" using w by (simp add: idle_def)
  have out: "\<forall>e\<in>set (snd (rx_accept (seq, ?m) (rx_of w ip))). is_message (snd e)"
    using rx.out_content[OF inv] held mp by (fastforce simp: held_messages_def)
  have "\<exists>v. in_order E ip seq ?m ?w = (Inr (), v) \<and> idle v
    \<and> delivered (trace v) = delivered (trace w) @ map to_app (snd (rx_accept (seq, ?m) (rx_of w ip)))
    \<and> tunneled (trace v) = tunneled (trace w) @ [(ack_frame seq, ip)]"
  proof (cases "fst (rx_of w ip) < seq")
    case True
    then show ?thesis
      using w' by (auto simp: in_order_run[OF ip inv'] rx_accept_simps idle_def hold_def peer_ok_def
          intro!: base_inv_upd_peer)
  next
    case False
    then show ?thesis
      using releases_idle[OF w' send out, of ip] by (auto simp: in_order_run[OF ip inv'])
  qed
  then obtain v where v: "in_order E ip seq ?m ?w = (Inr (), v)" "idle v"
    "delivered (trace v) = delivered (trace w) @ map to_app (snd (rx_accept (seq, ?m) (rx_of w ip)))"
    "tunneled (trace v) = tunneled (trace w) @ [(ack_frame seq, ip)]" by blast
  have rv: "rx_of v = (rx_of w)(ip := fst (rx_accept (seq, ?m) (rx_of w ip)))" "tunnel_transport v"
    using in_order_rx[OF ip inv' v(1)] up by (simp_all add: rx)
  have "held_messages (rx_of v ip)"
    using rx.held_content[OF inv] held mp by (fastforce simp: held_messages_def rv(1))
  moreover have "rx_inv (rx_of v ip)" using rx.inv_accept[OF inv] by (simp add: rv(1))
  ultimately show ?thesis
    using v rv run by (intro that[of v]) (simp_all add: e, simp_all add: d')
qed

text \<open>And a whole sequence of them.\<close>

lemma packets_received:
  assumes "idle w" and "tunnel_transport w" and "\<forall>n. send_ok E n"
    and "rx_inv (rx_of w ip)" and "held_messages (rx_of w ip)" and "\<forall>d\<in>set ds. packet_ok d"
  shows "\<exists>v. pfor (\<lambda>d. datagram_received E (packet_bytes d) ip) ds w = (Inr (), v)
    \<and> rx_of v = (rx_of w)(ip := fst (rx.run (map packet_entry ds) (rx_of w ip)))
    \<and> delivered (trace v) = delivered (trace w)
        @ map to_app (snd (rx.run (map packet_entry ds) (rx_of w ip)))
    \<and> tunneled (trace v) = tunneled (trace w) @ map (\<lambda>d. (ack_frame (fst d), ip)) ds"
  using assms
proof (induction ds arbitrary: w)
  case Nil
  then show ?case by (auto simp: pret_run)
next
  case (Cons d ds)
  have d: "packet_ok d" and ds: "\<forall>d\<in>set ds. packet_ok d" using Cons.prems(6) by simp_all
  obtain u where u: "datagram_received E (packet_bytes d) ip w = (Inr (), u)"
    "idle u" "tunnel_transport u"
    "rx_of u = (rx_of w)(ip := fst (rx_accept (packet_entry d) (rx_of w ip)))"
    "delivered (trace u) = delivered (trace w)
      @ map to_app (snd (rx_accept (packet_entry d) (rx_of w ip)))"
    "tunneled (trace u) = tunneled (trace w) @ [(ack_frame (fst d), ip)]"
    "rx_inv (rx_of u ip)" "held_messages (rx_of u ip)"
    by (rule packet_received[OF Cons.prems(1-5) d])
  obtain v where v: "pfor (\<lambda>d. datagram_received E (packet_bytes d) ip) ds u = (Inr (), v)"
    "rx_of v = (rx_of u)(ip := fst (rx.run (map packet_entry ds) (rx_of u ip)))"
    "delivered (trace v) = delivered (trace u)
      @ map to_app (snd (rx.run (map packet_entry ds) (rx_of u ip)))"
    "tunneled (trace v) = tunneled (trace u) @ map (\<lambda>d. (ack_frame (fst d), ip)) ds"
    using Cons.IH[OF u(2,3) Cons.prems(3) u(7,8) ds] by blast
  show ?case
    using v u by (intro exI[of _ v]) (simp add: pseq_run rx.run_Cons del: rx.run.simps(2))
qed


text \<open>
  Packets of one stream, in any order: what is handed over is the stream itself, from the
  receiver's position on, also when the receiver already holds some of it.
\<close>

definition in_stream :: "(int \<Rightarrow> packet) \<Rightarrow> int \<Rightarrow> buffered" where
  "in_stream stream k = snd (packet_entry (stream k))"

definition of_stream :: "(int \<Rightarrow> packet) \<Rightarrow> packet \<Rightarrow> bool" where
  "of_stream stream d \<longleftrightarrow> packet_ok d \<and> stream (fst d) = d"

lemma stream_received:
  assumes "idle w" and "tunnel_transport w" and "\<forall>n. send_ok E n"
    and inv: "rx_inv (rx_of w ip)" and held: "held_messages (rx_of w ip)"
    and str: "rx.from_stream (in_stream stream) (rx_of w ip)"
    and ds: "\<forall>d\<in>set ds. of_stream stream d"
  obtains v where "pfor (\<lambda>d. datagram_received E (packet_bytes d) ip) ds w = (Inr (), v)"
    and "rx_of v = (rx_of w)(ip := fst (rx.run (map packet_entry ds) (rx_of w ip)))"
    and "delivered (trace v) = delivered (trace w)
      @ map (\<lambda>k. to_app (packet_entry (stream k))) [fst (rx_of w ip)..fst (rx_of v ip) - 1]"
    and "tunneled (trace v) = tunneled (trace w) @ map (\<lambda>d. (ack_frame (fst d), ip)) ds"
proof -
  have "\<forall>d\<in>set ds. packet_ok d" using ds by (simp add: of_stream_def)
  then obtain v where v: "pfor (\<lambda>d. datagram_received E (packet_bytes d) ip) ds w = (Inr (), v)"
    "rx_of v = (rx_of w)(ip := fst (rx.run (map packet_entry ds) (rx_of w ip)))"
    "delivered (trace v) = delivered (trace w) @ map to_app (snd (rx.run (map packet_entry ds) (rx_of w ip)))"
    "tunneled (trace v) = tunneled (trace w) @ map (\<lambda>d. (ack_frame (fst d), ip)) ds"
    using packets_received[OF assms(1-3) inv held] by blast
  have "\<forall>e\<in>set (map packet_entry ds). snd e = in_stream stream (fst e)"
    using ds by (auto simp: of_stream_def in_stream_def)
  from rx.run_fifo[OF inv str this]
  have "map to_app (snd (rx.run (map packet_entry ds) (rx_of w ip)))
      = map (\<lambda>k. to_app (packet_entry (stream k))) [fst (rx_of w ip)..fst (rx_of v ip) - 1]"
    by (simp add: v(2) in_stream_def to_app_def split_beta)
  with v show ?thesis by (intro that[of v]) simp_all
qed

text \<open>From an empty buffer: delivery stops at the first packet that is missing.\<close>

lemma reordered_stream:
  assumes "idle w" and "tunnel_transport w" and "\<forall>n. send_ok E n" and "rx_of w ip = (b, [])"
    and "\<forall>d\<in>set ds. packet_ok d \<and> stream (fst d) = d"
  shows "\<exists>v n. pfor (\<lambda>d. datagram_received E (packet_bytes d) ip) ds w = (Inr (), v)
    \<and> fst (rx_of v ip) = n \<and> b \<le> n \<and> n \<notin> fst ` set ds \<and> {b..<n} \<subseteq> fst ` set ds
    \<and> delivered (trace v) = delivered (trace w)
        @ map (\<lambda>k. to_app (packet_entry (stream k))) [b..n - 1]
    \<and> tunneled (trace v) = tunneled (trace w) @ map (\<lambda>d. (ack_frame (fst d), ip)) ds"
proof -
  let ?es = "map packet_entry ds"
  have inv: "rx_inv (rx_of w ip)" and held: "held_messages (rx_of w ip)"
    and str: "rx.from_stream (in_stream stream) (rx_of w ip)"
    and empty: "dom (map_of (snd (rx_of w ip))) = {}"
    by (simp_all add: assms(4) rx_inv_def held_messages_def rx.from_stream_def)
  have fsts: "fst ` set ?es = fst ` set ds"
    by (simp add: image_image)
  have ds: "\<forall>d\<in>set ds. of_stream stream d" using assms(5) by (simp add: of_stream_def)
  obtain v where v: "pfor (\<lambda>d. datagram_received E (packet_bytes d) ip) ds w = (Inr (), v)"
    "rx_of v = (rx_of w)(ip := fst (rx.run ?es (rx_of w ip)))"
    "delivered (trace v) = delivered (trace w)
      @ map (\<lambda>k. to_app (packet_entry (stream k))) [fst (rx_of w ip)..fst (rx_of v ip) - 1]"
    "tunneled (trace v) = tunneled (trace w) @ map (\<lambda>d. (ack_frame (fst d), ip)) ds"
    by (rule stream_received[OF assms(1-3) inv held str ds])
  let ?n = "fst (rx_of v ip)"
  have "?n \<notin> fst ` set ds" using rx.run_stops_at_gap(1)[OF inv empty, of ?es] unfolding fsts by (simp add: v(2))
  moreover have "{b..<?n} \<subseteq> fst ` set ds"
    using rx.run_stops_at_gap(2)[OF inv empty, of _ ?es] unfolding fsts by (auto simp: assms(4) v(2))
  moreover have "b \<le> ?n" using rx.run_mono[OF inv, of ?es] by (simp add: assms(4) v(2))
  ultimately show ?thesis using v(1,3,4) by (intro exI[of _ v] exI[of _ ?n]) (simp add: assms(4))
qed

subsection \<open>Acknowledgements, plain packets, runts\<close>

lemma ack_frame_run:
  assumes "is_uint 8 seq"
  shows "datagram_received E (ack_frame seq @ rest) ip w =
    (Inr (), upd_peer ip (\<lambda>p. p\<lparr>unacked := AList.delete seq (unacked p)\<rparr>) (ensured ip w))"
proof -
  have ok: "ack_header_ok (1, seq)" using assms by (simp add: is_uint_def)
  have pack: "ack_header_pack (1, seq) = Inr (ack_frame seq)"
    using assms by (simp add: ack_frame_def is_uint_def)
  have head: "(ack_frame seq @ rest) ! 0 = CHR 0x01" by (simp add: ack_frame_def char_of_def)
  have len: "length (ack_frame seq @ rest) \<ge> 9" by (simp add: ack_frame_def)
  show ?thesis
    using ack_codec.header_payload[OF ok pack, of rest] len
    by (simp add: datagram_received_def pseq_run get_peer_run head receive_ack_def pmod_run
        ACK_HEADER_size_def Let_def)
qed

definition plain_frame :: "int \<Rightarrow> int \<Rightarrow> bytes \<Rightarrow> bytes \<Rightarrow> bytes" where
  "plain_frame src_port dst_port target payload =
     data_header (2, 0, src_port, dst_port, target) @ payload"

lemma plain_frame_run:
  assumes ok: "data_header_ok (2, 0, sp, dp, target)"
  shows "datagram_received E (plain_frame sp dp target payload) ip w =
    spoof_deliver E payload ip sp dp (quad target) (ensured ip w)"
proof -
  have head: "plain_frame sp dp target payload ! 0 = CHR 0x02"
    by (simp add: plain_frame_def char_of_def)
  have len: "\<not> length (plain_frame sp dp target payload) < 5"
    using data_header_split(1)[OF ok, of payload] by (simp add: plain_frame_def DATA_HEADER_size_def)
  have ip: "inet_ntoa target = Inr (quad target)" by (rule quad_ok) (use ok in simp)
  show ?thesis
    using data_header_split[OF ok, of payload] len
    by (simp add: datagram_received_def pseq_run get_peer_run head receive_plain_def ip
        linorder_not_less spoof_deliver_def del: data_header.simps flip: plain_frame_def)
qed

subsection \<open>Properties\<close>

text \<open>
  C4: The tunnel is reliable and first-in-first-out up to the application. Let data packets
  of one peer's stream arrive in any order, any number of times, with any of them missing:
  every packet is acknowledged, and outside a snapshot the application receives exactly the
  stream from the receiver's position on, in order, each packet once, up to the first
  number that never arrived.
\<close>

theorem tunnel_delivers_in_order:
  assumes "idle w" and "tunnel_transport w" and "\<forall>n. send_ok E n" and "rx_of w ip = (b, [])"
    and "\<forall>d\<in>set ds. packet_ok d \<and> stream (fst d) = d"
  shows "\<exists>v n. pfor (\<lambda>d. datagram_received E (packet_bytes d) ip) ds w = (Inr (), v)
    \<and> fst (rx_of v ip) = n \<and> b \<le> n \<and> n \<notin> fst ` set ds \<and> {b..<n} \<subseteq> fst ` set ds
    \<and> delivered (trace v) = delivered (trace w)
        @ map (\<lambda>k. to_app (packet_entry (stream k))) [b..n - 1]
    \<and> tunneled (trace v) = tunneled (trace w) @ map (\<lambda>d. (ack_frame (fst d), ip)) ds"
  by (rule reordered_stream[OF assms])

definition demo_packet :: "int \<Rightarrow> packet" where
  "demo_packet n = (n, [char_of (65 + n)], 5000, 6000, ZERO_IP)"

theorem tunnel_delivers_in_order_witness:
  "\<exists>v. pfor (\<lambda>d. datagram_received demo_env (packet_bytes d) ''10.24.24.11'')
      (map demo_packet [1, 0, 0, 3]) demo_world = (Inr (), v)
    \<and> delivered (trace v) = [(''A'', quad ZERO_IP, 6000), (''B'', quad ZERO_IP, 6000)]"
proof -
  have rx: "rx_of demo_world ''10.24.24.11'' = (0, [])" by (simp add: rx_of_def PeerState_def)
  have ok: "\<forall>d\<in>set (map demo_packet [1, 0, 0, 3]). packet_ok d \<and> demo_packet (fst d) = d"
    by (simp add: demo_packet_def packet_ok_def is_uint_def MARKER_def starts_with_def)
  obtain v n where v: "pfor (\<lambda>d. datagram_received demo_env (packet_bytes d) ''10.24.24.11'')
      (map demo_packet [1, 0, 0, 3]) demo_world = (Inr (), v)"
    and n: "0 \<le> n" "n \<notin> fst ` set (map demo_packet [1, 0, 0, 3])"
      "{0..<n} \<subseteq> fst ` set (map demo_packet [1, 0, 0, 3])"
    and del: "delivered (trace v) = delivered (trace demo_world)
      @ map (\<lambda>k. to_app (packet_entry (demo_packet k))) [0..n - 1]"
    using tunnel_delivers_in_order[OF demo_idle demo_up demo_sends rx ok] by blast
  have "n \<notin> {0, 1, 3}" "{0..<n} \<subseteq> {0, 1, 3}" using n(2,3) by (auto simp: demo_packet_def)
  then have "n = 2" using n(1) by (cases "n \<le> 2") (auto simp: subset_iff dest: spec[of _ 2])
  then show ?thesis
    using v del
    by (intro exI[of _ v]) (simp add: upto.simps demo_packet_def packet_entry_def to_app_def char_of_def)
qed

text \<open>
  C33: An acknowledgement takes exactly the packet it names out of the retransmission table
  and touches nothing else; a repeated one changes nothing.
\<close>

theorem ack_releases_one_packet:
  assumes "is_uint 8 seq" and "datagram_received E (ack_frame seq) ip w = (r, v)"
  shows "r = Inr () \<and> map_of (unacked (peer_of v ip)) = (map_of (unacked (peer_of w ip)))(seq := None)
    \<and> send_seq (peer_of v ip) = send_seq (peer_of w ip) \<and> rx_of v ip = rx_of w ip
    \<and> (\<forall>jp. jp \<noteq> ip \<longrightarrow> peer_of v jp = peer_of w jp) \<and> trace v = trace w"
  using ack_frame_run[OF assms(1), of E "[]" ip w] assms(2) by (auto simp: rx_of_def)

theorem ack_releases_one_packet_witness:
  "map_of (unacked (peer_of (snd (datagram_received demo_env (ack_frame 3) ''10.24.24.11''
      (upd_peer ''10.24.24.11'' (\<lambda>p. p\<lparr>unacked := [(3, 0, ''x''), (4, 0, ''y'')]\<rparr>) demo_world)))
      ''10.24.24.11'')) = [4 \<mapsto> (0, ''y'')]"
proof -
  let ?w = "upd_peer ''10.24.24.11'' (\<lambda>p. p\<lparr>unacked := [(3, 0, ''x''), (4, 0, ''y'')]\<rparr>) demo_world"
  have "is_uint 8 3" by (simp add: is_uint_def)
  from ack_releases_one_packet[OF this prod.collapse[symmetric], of demo_env "''10.24.24.11''" ?w]
  show ?thesis by (auto simp: fun_eq_iff)
qed

text \<open>
  C32: Plain packets bypass the reliable tunnel and the snapshot: also in the middle of a
  snapshot, and even if the payload looks like a marker, a plain packet is handed to the
  application at once, without acknowledgement, sequence number or recording.
\<close>

theorem plain_packet_bypasses_snapshot:
  assumes "base_inv w" and "\<forall>n. send_ok E n" and "data_header_ok (2, 0, sp, dp, target)"
  shows "\<exists>v. datagram_received E (plain_frame sp dp target payload) ip w = (Inr (), v)
    \<and> delivered (trace v) = delivered (trace w) @ [(payload, quad target, dp)]
    \<and> tunneled (trace v) = tunneled (trace w) \<and> snapshot_ctrl v = snapshot_ctrl w
    \<and> (\<forall>jp. peer_of v jp = peer_of w jp)"
proof -
  have "base_inv (ensured ip w)" using assms(1) by simp
  then obtain v where v: "spoof_deliver E payload ip sp dp (quad target) (ensured ip w) = (Inr (), v)"
    "hands_over (ensured ip w) v [(payload, quad target, dp)]"
    "snapshot_ctrl v = snapshot_ctrl (ensured ip w)"
    by (rule spoof_deliver_run[OF _ assms(2)])
  have "peer_of v jp = peer_of (ensured ip w) jp" for jp
    using v(2) by (simp add: hands_over_def peer_of_def)
  with v show ?thesis by (simp add: plain_frame_run[OF assms(3)] hands_over_def)
qed

theorem plain_packet_bypasses_snapshot_witness:
  "\<exists>v. datagram_received demo_env (plain_frame 1 2 ZERO_IP (MARKER @ ''s'')) ''10.24.24.200''
      (upd_ctrl (begin_snapshot ''s1'') demo_world) = (Inr (), v)
    \<and> delivered (trace v) = [(MARKER @ ''s'', quad ZERO_IP, 2)]"
proof -
  have "base_inv (upd_ctrl (begin_snapshot ''s1'') demo_world)"
    using demo_base_inv by simp
  from plain_packet_bypasses_snapshot[OF this, of demo_env 1 2 ZERO_IP "MARKER @ ''s''" "''10.24.24.200''"]
  show ?thesis by (auto simp: is_uint_def)
qed

text \<open>
  C24: A delivery that raises loses its packet and everything behind it. The acknowledgement
  has gone out before the delivery; when it reaches the sender, the packet leaves the
  retransmission table, so it is never sent again. But the receiver still waits for its number:
  whatever other packets of the stream arrive afterwards, in any order and also when the host
  works again, none is delivered, although every one of them is acknowledged.
\<close>

theorem error_after_ack_stalls_peer:
  assumes "idle w" and "tunnel_transport w" and "rx_of w ip = (fst d, [])"
    and "packet_ok d" and "\<forall>n. \<not> send_ok E n"
    and "datagram_received F (ack_frame (fst d)) jp s = (r, s')"
    and "\<forall>n. send_ok E' n" and "\<forall>x\<in>set ds. packet_ok x \<and> stream (fst x) = x \<and> fst x \<noteq> fst d"
  shows "\<exists>v u. datagram_received E (packet_bytes d) ip w = (Inl OSError, v)
    \<and> tunneled (trace v) = tunneled (trace w) @ [(ack_frame (fst d), ip)]
    \<and> map_of (unacked (peer_of s' jp)) (fst d) = None
    \<and> pfor (\<lambda>x. datagram_received E' (packet_bytes x) ip) ds v = (Inr (), u)
    \<and> delivered (trace u) = delivered (trace w)
    \<and> tunneled (trace u) = tunneled (trace v) @ map (\<lambda>x. (ack_frame (fst x), ip)) ds"
proof -
  obtain seq p sp dp t where d: "d = (seq, p, sp, dp, t)" by (cases d)
  let ?w = "emit (TunnelSend (ack_frame seq) ip) (ensured ip w)"
  have ok: "data_header_ok (0, seq, sp, dp, t)" "\<not> starts_with MARKER p"
    using assms(4) by (simp_all add: d packet_ok_def del: data_header_ok.simps)
  have run: "datagram_received E (packet_bytes d) ip w = in_order E ip seq (p, sp, dp, quad t) ?w"
    unfolding d packet_bytes_def prod.case
    by (rule datagram_data_run[OF ok(1) assms(2)]) (use ok quad_ok in simp)
  obtain v where v: "spoof_deliver E p ip sp dp (quad t) ?w = (Inl OSError, v)"
    "hands_over ?w v []" "snapshot_ctrl v = snapshot_ctrl ?w"
    by (rule spoof_deliver_refused[OF assms(5)])
  have idle: "\<not> is_snapshotting (snapshot_ctrl ?w)" "base_inv ?w" using assms(1) by (simp_all add: idle_def)
  have "process_and_deliver E seq p ip sp dp (quad t) ?w = (Inl OSError, v)"
    using v(1) idle(1) ok(2) by (simp add: process_and_deliver_run process_message_pass)
  moreover have "recv_seq (peer_of ?w ip) = seq" using assms(3) by (simp add: rx_of_def d)
  ultimately have raised: "datagram_received E (packet_bytes d) ip w = (Inl OSError, v)"
    by (simp add: run in_order_def pbind_pget pseq_run)
  have peers: "peer_of v = peer_of ?w" using v(2) by (auto simp: hands_over_def peer_of_def)
  have "idle v" "tunnel_transport v" "rx_of v ip = (seq, [])" "delivered (trace v) = delivered (trace w)"
    "tunneled (trace v) = tunneled (trace w) @ [(ack_frame seq, ip)]"
    using v(2,3) idle assms(2,3) peers by (auto simp: idle_def hands_over_def rx_of_def d)
  moreover from this obtain u n where u: "pfor (\<lambda>x. datagram_received E' (packet_bytes x) ip) ds v = (Inr (), u)"
    "seq \<le> n" "{seq..<n} \<subseteq> fst ` set ds"
    "delivered (trace u) = delivered (trace v) @ map (\<lambda>k. to_app (packet_entry (stream k))) [seq..n - 1]"
    "tunneled (trace u) = tunneled (trace v) @ map (\<lambda>x. (ack_frame (fst x), ip)) ds"
    using reordered_stream[OF _ _ assms(7), of v ip seq ds stream] assms(8) by auto
  have "n = seq" using u(2,3) assms(8) by (auto simp: d subset_iff order_le_less)
  moreover have "map_of (unacked (peer_of s' jp)) seq = None"
    using ack_frame_run[of seq F "[]" jp s] ok(1) assms(6) by (auto simp: d)
  ultimately show ?thesis using raised u by (intro exI[of _ v] exI[of _ u]) (simp add: d)
qed

theorem error_after_ack_stalls_peer_witness:
  "\<exists>v u. datagram_received (demo_env\<lparr>send_ok := (\<lambda>_. False)\<rparr>) (packet_bytes (demo_packet 0))
      ''10.24.24.11'' demo_world = (Inl OSError, v)
    \<and> pfor (\<lambda>x. datagram_received demo_env (packet_bytes x) ''10.24.24.11'') (map demo_packet [2, 1]) v = (Inr (), u)
    \<and> delivered (trace u) = []"
proof -
  have rx: "rx_of demo_world ''10.24.24.11'' = (fst (demo_packet 0), [])"
    by (simp add: rx_of_def PeerState_def demo_packet_def)
  have ok: "packet_ok (demo_packet 0)"
    "\<forall>x\<in>set (map demo_packet [2, 1]). packet_ok x \<and> demo_packet (fst x) = x \<and> fst x \<noteq> fst (demo_packet 0)"
    by (simp_all add: demo_packet_def packet_ok_def is_uint_def MARKER_def starts_with_def)
  have deaf: "\<forall>n. \<not> send_ok (demo_env\<lparr>send_ok := (\<lambda>_. False)\<rparr>) n" by simp
  from error_after_ack_stalls_peer[OF demo_idle demo_up rx ok(1) deaf prod.collapse[symmetric] demo_sends ok(2),
      where F = demo_env and jp = "''10.24.24.10''" and s = demo_world]
  show ?thesis by auto
qed

end
