(* ===== verification/Routing.thy ===== *)
theory Routing
  imports Tunnel Snapshot_Run
begin

text \<open>
  Where an intercepted datagram goes, and what the drain at the start of a snapshot sends:
  the queued datagrams of each channel in order, numbered just before the marker.
\<close>

subsection \<open>The ancillary data of the kernel\<close>

text \<open>A \<open>struct sockaddr_in\<close>: family, port, address, padding.\<close>

definition sockaddr_in :: "bytes \<Rightarrow> int \<Rightarrow> bytes" where
  "sockaddr_in dst port = [CHR 0x02, CHR 0x00] @ be_bytes 2 port @ dst @ replicate 8 (CHR 0x00)"

definition orig_dst_cmsg :: "bytes \<Rightarrow> int \<Rightarrow> (int \<times> int \<times> bytes) list" where
  "orig_dst_cmsg dst port = [(SOL_IP, IP_RECVORIGDSTADDR, sockaddr_in dst port)]"

lemma orig_dst_cmsg_run:
  assumes "length dst = 4" and "is_uint 2 port"
  shows "orig_dst (orig_dst_cmsg dst port) = Inr (Some (quad dst, port))"
  using assms quad_ok[OF assms(1)] be_int_of_uint[OF assms(2)]
  by (simp add: orig_dst_cmsg_def sockaddr_in_def del: be_bytes.simps)

lemma quad_neq_Nil: "length dst = 4 \<Longrightarrow> quad dst \<noteq> []"
  using inet_ntoa_neq_Nil[OF quad_ok] .

definition mesh_prefix :: bytes where
  "mesh_prefix = [CHR 0x0A, CHR 0x18, CHR 0x18]"

lemma in_mesh_network_bytes:
  assumes "length dst = 4"
  shows "in_mesh_network (quad dst) = Inr (take 3 dst = mesh_prefix)"
proof -
  obtain a b c d where dst: "dst = [a, b, c, d]"
    using assms by (auto simp: length_Suc_conv numeral_eq_Suc)
  have "inet_ntoa [a, b, c, d] = Inr (quad dst)" using quad_ok[OF assms] by (simp add: dst)
  from in_mesh_network_quad[OF this] show ?thesis by (simp add: dst mesh_prefix_def)
qed

subsection \<open>One datagram\<close>

lemma forward_intercepted_to:
  assumes "length dst = 4" and "is_uint 2 port" and "port \<noteq> 0"
  shows "forward_intercepted E data (orig_dst_cmsg dst port) addr = forward_to E data addr (quad dst) port"
  by (simp add: forward_intercepted_def orig_dst_cmsg_run[OF assms(1,2)] quad_neq_Nil[OF assms(1)] assms(3))

lemma forward_outside:
  assumes "length dst = 4" and "take 3 dst \<noteq> mesh_prefix"
  shows "forward_to E data addr (quad dst) port = spoof_deliver E data (fst addr) (snd addr) port (quad dst)"
  by (simp add: forward_to_def in_mesh_network_bytes[OF assms(1)] assms(2) spoof_deliver_def)

lemma forward_member:
  assumes "length dst = 4" and "take 3 dst = mesh_prefix" and "use_rudp E w (quad dst)"
    and "tunnel_transport w"
    and "data_header_ok (0, send_seq (peer_of w (quad dst)), snd addr, port, dst)"
  shows "forward_to E data addr (quad dst) port w =
    (Inr (), sent_data (quad dst) (data_frame (send_seq (peer_of w (quad dst))) (snd addr) port dst data)
      (ensured (quad dst) w))"
proof -
  have aton: "inet_aton (quad dst) = Inr dst" by (rule inet_roundtrip[OF quad_ok[OF assms(1)]])
  have "send_data (quad dst) (snd addr) port dst data (ensured (quad dst) w) =
    (Inr (), sent_data (quad dst) (data_frame (send_seq (peer_of w (quad dst))) (snd addr) port dst data)
      (ensured (quad dst) w))"
    unfolding data_frame_def
    by (rule send_data_run) (simp_all add: assms(4) data_header_pack_ok[OF assms(5)] del: data_header_pack.simps)
  then show ?thesis
    by (simp add: forward_to_def in_mesh_network_bytes[OF assms(1)] assms(2,3) aton pbind_pget pseq_run
        get_peer_run)
qed

lemma forward_non_member:
  assumes "length dst = 4" and "take 3 dst = mesh_prefix" and "\<not> use_rudp E w (quad dst)"
    and "tunnel_transport w" and "data_header_ok (2, 0, snd addr, port, dst)"
  shows "forward_to E data addr (quad dst) port w =
    (Inr (), emit (TunnelSend (plain_frame (snd addr) port dst data) (quad dst)) w)"
proof -
  have aton: "inet_aton (quad dst) = Inr dst" by (rule inet_roundtrip[OF quad_ok[OF assms(1)]])
  have "send_plain (quad dst) (snd addr) port dst data w =
    (Inr (), emit (TunnelSend (plain_frame (snd addr) port dst data) (quad dst)) w)"
    unfolding plain_frame_def
    by (rule send_plain_run) (simp_all add: assms(4) data_header_pack_ok[OF assms(5)] del: data_header_pack.simps)
  then show ?thesis
    by (simp add: forward_to_def in_mesh_network_bytes[OF assms(1)] assms(2,3) aton pbind_pget)
qed

subsection \<open>A queue of datagrams for members\<close>

text \<open>An application datagram: destination, port, source address, source port, payload.\<close>

type_synonym app_datagram = "bytes \<times> int \<times> string \<times> int \<times> bytes"

fun queued :: "app_datagram \<Rightarrow> intercepted" where
  "queued (dst, port, src, sp, data) = (data, orig_dst_cmsg dst port, (src, sp))"

fun dgram_ip :: "app_datagram \<Rightarrow> string" where
  "dgram_ip (dst, port, src, sp, data) = quad dst"

fun to_member :: "env \<Rightarrow> app_datagram \<Rightarrow> bool" where
  "to_member E (dst, port, src, sp, data) \<longleftrightarrow>
     length dst = 4 \<and> is_uint 2 port \<and> port \<noteq> 0 \<and> is_uint 2 sp \<and> take 3 dst = mesh_prefix
     \<and> quad dst \<in> set (MESH_MEMBERS E)"

fun dgram_frame :: "int \<Rightarrow> app_datagram \<Rightarrow> bytes" where
  "dgram_frame seq (dst, port, src, sp, data) = data_frame seq sp port dst data"

text \<open>The frames of a stream that starts at a sequence number.\<close>

fun frames :: "int \<Rightarrow> app_datagram list \<Rightarrow> bytes list" where
  "frames n [] = []"
| "frames n (d # ds) = dgram_frame n d # frames (n + 1) ds"

text \<open>The packets sent to one peer.\<close>

definition sent_to :: "string \<Rightarrow> event list \<Rightarrow> bytes list" where
  "sent_to ip es = map fst (filter (\<lambda>x. snd x = ip) (tunneled es))"

lemma sent_to_simps [simp]:
  "sent_to ip (a @ b) = sent_to ip a @ sent_to ip b" "sent_to ip [] = []"
  "sent_to ip [TunnelSend pk jp] = (if jp = ip then [pk] else [])"
  by (simp_all add: sent_to_def)

definition seqs_fit :: "world \<Rightarrow> nat \<Rightarrow> bool" where
  "seqs_fit w n \<longleftrightarrow> (\<forall>ip. 0 \<le> send_seq (peer_of w ip) \<and> send_seq (peer_of w ip) + int n \<le> 256 ^ 8)"

lemma seqs_fit_Suc: "seqs_fit w (Suc n) \<Longrightarrow> is_uint 8 (send_seq (peer_of w ip))"
  unfolding seqs_fit_def is_uint_def by (drule spec[of _ ip]) linarith

lemma take_forward_member:
  assumes "to_member E d" and "is_server w" and "tunnel_transport w"
    and "is_uint 8 (send_seq (peer_of w (dgram_ip d)))"
  shows "take_forward E (queued d) w = (Inr (), sent_data (dgram_ip d)
    (dgram_frame (send_seq (peer_of w (dgram_ip d))) d)
    (ensured (dgram_ip d) (w\<lparr>local_sock := tl (local_sock w)\<rparr>)))"
proof -
  obtain dst port src sp data where d: "d = (dst, port, src, sp, data)" by (cases d)
  let ?w = "w\<lparr>local_sock := tl (local_sock w)\<rparr>"
  have "forward_to E data (src, sp) (quad dst) port ?w = (Inr (), sent_data (quad dst)
      (data_frame (send_seq (peer_of ?w (quad dst))) (snd (src, sp)) port dst data) (ensured (quad dst) ?w))"
    by (rule forward_member) (use assms in \<open>simp_all add: d use_rudp_def is_uint_def\<close>)
  then show ?thesis
    using assms(1) by (simp add: d take_forward_def pseq_pmod forward_intercepted_to)
qed

lemma seqs_fit_less: "seqs_fit w (Suc n) \<Longrightarrow> (\<And>ip. peer_of v ip = peer_of w ip) \<Longrightarrow> seqs_fit v n"
  unfolding seqs_fit_def by (metis add_left_mono int_ops(4) linear not_less_eq_eq of_nat_le_iff order_trans order_refl)

lemma seqs_fit_sent:
  assumes "seqs_fit w (Suc n)"
  shows "seqs_fit (sent_data jp f (ensured jp (w\<lparr>local_sock := q\<rparr>))) n"
  unfolding seqs_fit_def
proof
  fix ip
  have "0 \<le> send_seq (peer_of w ip) \<and> send_seq (peer_of w ip) + int (Suc n) \<le> 256 ^ 8"
    using assms unfolding seqs_fit_def by blast
  then show "0 \<le> send_seq (peer_of (sent_data jp f (ensured jp (w\<lparr>local_sock := q\<rparr>))) ip)
    \<and> send_seq (peer_of (sent_data jp f (ensured jp (w\<lparr>local_sock := q\<rparr>))) ip) + int n \<le> 256 ^ 8"
    by auto
qed

lemma tunneled_Cons [simp]: "tunneled (TunnelSend pk ip # es) = (pk, ip) # tunneled es"
  "tunneled (HttpReq req # es) = tunneled es"
  by (simp_all add: tunneled_def)

lemma tunneled_sends: "tunneled (map (\<lambda>p. TunnelSend (f p) p) ps) = map (\<lambda>p. (f p, p)) ps"
  by (induction ps) (simp_all add: tunneled_def)

lemma requests_sends: "requests (map (\<lambda>p. TunnelSend (f p) p) ps) = []"
  by (induction ps) (simp_all add: requests_def)

lemma sent_to_http [simp]: "sent_to p (HttpReq req # es) = sent_to p es"
  by (simp add: sent_to_def)

lemma sent_to_sends:
  "distinct ps \<Longrightarrow> p \<in> set ps \<Longrightarrow> sent_to p (map (\<lambda>p. TunnelSend (f p) p) ps) = [f p]"
proof (induction ps)
  case (Cons q ps)
  have "filter (\<lambda>x. snd x = q) (map (\<lambda>p. (f p, p)) ps) = []" if "q \<notin> set ps"
    using that by (auto simp: filter_empty_conv)
  with Cons show ?case by (auto simp: sent_to_def tunneled_sends)
qed simp

text \<open>What the pass over the queue leaves, from the state it starts in.\<close>

definition forwarded :: "app_datagram list \<Rightarrow> world \<Rightarrow> world \<Rightarrow> bool" where
  "forwarded ds w v \<longleftrightarrow>
     (\<forall>ip. sent_to ip (trace v) = sent_to ip (trace w)
          @ frames (send_seq (peer_of w ip)) (filter (\<lambda>d. dgram_ip d = ip) ds)
        \<and> send_seq (peer_of v ip) = send_seq (peer_of w ip) + int (length (filter (\<lambda>d. dgram_ip d = ip) ds)))
     \<and> delivered (trace v) = delivered (trace w) \<and> requests (trace v) = requests (trace w)
     \<and> snapshot_ctrl v = snapshot_ctrl w \<and> clock v = clock w"

lemma pfor_take_forward_members:
  assumes "list_all (to_member E) ds" and "is_server w" and "tunnel_transport w"
    and "seqs_fit w (length ds)"
  shows "\<exists>v. pfor (take_forward E) (map queued ds) w = (Inr (), v) \<and> forwarded ds w v"
  using assms
proof (induction ds arbitrary: w)
  case Nil
  then show ?case by (simp add: pret_run forwarded_def)
next
  case (Cons d ds)
  let ?ip = "dgram_ip d"
  let ?f = "dgram_frame (send_seq (peer_of w ?ip)) d"
  let ?u = "sent_data ?ip ?f (ensured ?ip (w\<lparr>local_sock := tl (local_sock w)\<rparr>))"
  have uint: "is_uint 8 (send_seq (peer_of w ?ip))"
    by (rule seqs_fit_Suc[of w "length ds"]) (use Cons.prems(4) in simp)
  have first: "take_forward E (queued d) w = (Inr (), ?u)"
    by (rule take_forward_member) (use Cons.prems uint in simp_all)
  have "seqs_fit ?u (length ds)"
    by (rule seqs_fit_sent) (use Cons.prems(4) in simp)
  then obtain v where v: "pfor (take_forward E) (map queued ds) ?u = (Inr (), v)" "forwarded ds ?u v"
    using Cons.IH[of ?u] Cons.prems by auto
  have "forwarded (d # ds) w v"
    using v(2) by (auto simp: forwarded_def)
  then show ?case using v(1) first by (simp add: pseq_run)
qed

lemma drain_members:
  assumes "local_sock w = map queued ds" and "list_all (to_member E) ds" and "is_server w"
    and "tunnel_transport w" and "seqs_fit w (length ds)"
  obtains v where "drain_intercept E w = (Inr (), v)" and "forwarded ds w v"
  using pfor_take_forward_members[OF assms(2-5)] that by (auto simp: drain_intercept_pfor assms(1))

subsection \<open>Properties\<close>

text \<open>
  C16: Where an intercepted datagram goes depends on its original destination alone: outside
  the mesh it is sent directly, from a socket bound to the application's address; to another
  member it goes as the next packet of that member's reliable stream and is kept for
  retransmission; to any other address of the mesh, or from a sidecar that is not a member,
  it goes as an unnumbered packet, once.
\<close>

theorem forwarding_follows_membership:
  assumes "length dst = 4" and "is_uint 2 port" and "port \<noteq> 0" and "is_uint 2 sp"
    and "tunnel_transport w" and "base_inv w" and "\<forall>n. send_ok E n"
    and "is_uint 8 (send_seq (peer_of w (quad dst)))"
  shows "\<exists>v. forward_intercepted E data (orig_dst_cmsg dst port) (src, sp) w = (Inr (), v)
    \<and> (if take 3 dst \<noteq> mesh_prefix then
         delivered (trace v) = delivered (trace w) @ [(data, quad dst, port)]
         \<and> (\<exists>sock. last (trace v) = SpoofSend sock data (quad dst) port \<and> sock_bound sock \<in> {None, Some (src, sp)})
       else if is_server w \<and> quad dst \<in> set (MESH_MEMBERS E) then
         (let seq = send_seq (peer_of w (quad dst)); f = data_frame seq sp port dst data in
          trace v = trace w @ [TunnelSend f (quad dst)] \<and> send_seq (peer_of v (quad dst)) = seq + 1
          \<and> map_of (unacked (peer_of v (quad dst))) seq = Some (clock w, f))
       else v = emit (TunnelSend (plain_frame sp port dst data) (quad dst)) w)"
proof -
  have run: "forward_intercepted E data (orig_dst_cmsg dst port) (src, sp) w
      = forward_to E data (src, sp) (quad dst) port w"
    by (simp add: forward_intercepted_to[OF assms(1-3)])
  consider "take 3 dst \<noteq> mesh_prefix" | "take 3 dst = mesh_prefix" "use_rudp E w (quad dst)"
    | "take 3 dst = mesh_prefix" "\<not> use_rudp E w (quad dst)" by blast
  then show ?thesis
  proof cases
    case 1
    obtain sock v where "spoof_deliver E data src sp port (quad dst) w
        = (Inr (), emit (SpoofSend sock data (quad dst) port) v)"
      "sock_bound sock \<in> {None, Some (src, sp)}" "hands_over w v []"
      by (rule spoof_deliver_sock[OF assms(6,7)])
    with 1 show ?thesis by (auto simp: run forward_outside[OF assms(1)] hands_over_def)
  next
    case 2
    have "data_header_ok (0, send_seq (peer_of w (quad dst)), snd (src, sp), port, dst)"
      using assms by (simp add: is_uint_def)
    from forward_member[OF assms(1) 2 assms(5) this] 2 show ?thesis
      by (simp add: run use_rudp_def Let_def)
  next
    case 3
    have "data_header_ok (2, 0, snd (src, sp), port, dst)" using assms by (simp add: is_uint_def)
    from forward_non_member[OF assms(1) 3 assms(5) this] 3 show ?thesis
      by (simp add: run use_rudp_def)
  qed
qed

definition demo_dst :: bytes where
  "demo_dst = [CHR 0x0A, CHR 0x18, CHR 0x18, CHR 0x0B]"

lemma quad_demo: "quad demo_dst = ''10.24.24.11''"
  unfolding demo_dst_def by code_simp

theorem forwarding_follows_membership_witness:
  "\<exists>v. forward_intercepted demo_env ''x'' (orig_dst_cmsg demo_dst 6000) (''10.24.24.10'', 5000) demo_world
      = (Inr (), v) \<and> trace v = [TunnelSend (data_frame 0 5000 6000 demo_dst ''x'') ''10.24.24.11'']"
proof -
  have "take 3 demo_dst = mesh_prefix" "length demo_dst = 4"
    by (simp_all add: demo_dst_def mesh_prefix_def)
  with forwarding_follows_membership[of demo_dst 6000 5000 demo_world demo_env "''x''" "''10.24.24.10''"]
  show ?thesis
    using demo_base_inv by (auto simp: quad_demo is_uint_def PeerState_def Let_def)
qed

text \<open>
  C15: The datagrams the application has queued when the first marker arrives land before
  the cut of their channel: towards every other member the sidecar sends first the queued
  datagrams for it, in order and numbered consecutively, and then the marker with the next
  number; the application is checkpointed after the last of them and before the first
  marker.
\<close>

theorem queued_datagrams_precede_the_marker:
  assumes "world_inv w" and "\<not> is_snapshotting (snapshot_ctrl w)" and "tunnel_transport w"
    and "is_server w" and "distinct (MESH_MEMBERS E)" and "\<forall>xs. set (set_iter E xs) = set xs"
    and "utf8_valid i" and "set (others E w) - {ip} \<noteq> {}" and "\<forall>n. send_ok E n"
    and "local_sock w = map queued ds" and "list_all (to_member E) ds" and "seqs_fit w (Suc (length ds))"
  shows "\<exists>u. process_message E ip seq (MARKER @ i) sp dp tip w = (Inr True, u)
    \<and> (\<forall>p\<in>set (others E w). let mine = filter (\<lambda>d. dgram_ip d = p) ds; n = send_seq (peer_of w p) in
        sent_to p (trace u) = sent_to p (trace w) @ frames n mine
          @ [data_header (0, n + int (length mine), 0, 0, ZERO_IP) @ MARKER @ i])
    \<and> (\<exists>before markers. trace u = before @ [HttpReq (checkpoint_req E i)] @ markers
        \<and> requests before = requests (trace w) \<and> tunneled markers
          = map (\<lambda>p. (data_header (0, send_seq (peer_of w p) + int (length (filter (\<lambda>d. dgram_ip d = p) ds)),
              0, 0, ZERO_IP) @ MARKER @ i, p)) (others E w))"
proof -
  let ?w = "recording_started E i ip w"
  have same: "local_sock ?w = map queued ds" "is_server ?w" "tunnel_transport ?w" "seqs_fit ?w (length ds)"
    "\<And>p. peer_of ?w p = peer_of w p" "trace ?w = trace w"
    using assms seqs_fit_less[OF assms(12), of ?w] by (simp_all add: recording_started_def)
  obtain v where v: "drain_intercept E ?w = (Inr (), v)" "forwarded ds ?w v"
    by (rule drain_members[OF same(1) assms(11) same(2-4)])
  let ?n = "\<lambda>p. send_seq (peer_of w p) + int (length (filter (\<lambda>d. dgram_ip d = p) ds))"
  have seq: "send_seq (peer_of v p) = ?n p" for p
    using v(2) by (simp add: forwarded_def same(5))
  have fit: "is_uint 8 (?n p)" for p
  proof -
    have "0 \<le> send_seq (peer_of w p) \<and> send_seq (peer_of w p) + int (Suc (length ds)) \<le> 256 ^ 8"
      using assms(12) unfolding seqs_fit_def by blast
    moreover have "length (filter (\<lambda>d. dgram_ip d = p) ds) \<le> length ds" by simp
    ultimately show ?thesis unfolding is_uint_def by linarith
  qed
  have "healthy E w v"
    using assms fit by (simp add: healthy_def seq)
  from first_marker_run[OF this assms(7) v(1) assms(8), of seq sp dp tip]
  obtain u where u: "process_message E ip seq (MARKER @ i) sp dp tip w = (Inr True, u)"
    and o: "opened E i ip seq (others E w) v u" by blast
  let ?markers = "map (\<lambda>p. TunnelSend (marker_frame v (MARKER @ i) p) p) (others E w)"
  have tr: "trace u = trace v @ [HttpReq (checkpoint_req E i)] @ ?markers"
    using o by (simp add: opened_def Let_def)
  have "distinct (others E w)" using assms(5) by (simp add: others_def)
  then have "\<forall>p\<in>set (others E w). let mine = filter (\<lambda>d. dgram_ip d = p) ds; n = send_seq (peer_of w p) in
        sent_to p (trace u) = sent_to p (trace w) @ frames n mine
          @ [data_header (0, n + int (length mine), 0, 0, ZERO_IP) @ MARKER @ i]"
    using v(2) same(5,6)
    by (simp add: tr Let_def sent_to_sends forwarded_def marker_frame_def del: data_header.simps)
  moreover have "requests (trace v) = requests (trace w)" using v(2) same(6) by (simp add: forwarded_def)
  moreover have "tunneled ?markers = map (\<lambda>p. (data_header (0, ?n p, 0, 0, ZERO_IP) @ MARKER @ i, p)) (others E w)"
    by (simp add: tunneled_sends marker_frame_def seq del: data_header.simps)
  ultimately show ?thesis using u tr by blast
qed

definition demo_datagram :: app_datagram where
  "demo_datagram = (demo_dst, 6000, ''10.24.24.10'', 5000, ''x'')"

definition demo_queued :: world where
  "demo_queued = demo_world\<lparr>local_sock := map queued [demo_datagram]\<rparr>"

theorem queued_datagrams_precede_the_marker_witness:
  "\<exists>u. process_message demo_env ''127.0.0.1'' 0 (MARKER @ ''s1'') 0 0 ''127.0.0.1'' demo_queued = (Inr True, u)
    \<and> sent_to ''10.24.24.11'' (trace u)
      = [data_frame 0 5000 6000 demo_dst ''x'', data_header (0, 1, 0, 0, ZERO_IP) @ MARKER @ ''s1'']"
proof -
  let ?w = demo_queued
  have inv: "world_inv ?w" using demo_world_inv by (simp add: demo_queued_def world_inv_def)
  have dst: "length demo_dst = 4" "take 3 demo_dst = mesh_prefix"
    by (simp_all add: demo_dst_def mesh_prefix_def)
  then have "list_all (to_member demo_env) [demo_datagram]"
    by (simp add: demo_datagram_def quad_demo is_uint_def)
  moreover have "seqs_fit ?w (Suc (length [demo_datagram]))"
    by (simp add: seqs_fit_def demo_queued_def PeerState_def)
  moreover have o: "others demo_env ?w = [''10.24.24.11'', ''10.24.24.12'']"
    by (simp add: others_def self_ip_of_def)
  ultimately show ?thesis
    using queued_datagrams_precede_the_marker[OF inv, of demo_env "''s1''" "''127.0.0.1''" "[demo_datagram]" 0 0 0 "''127.0.0.1''"]
    by (simp add: utf8_valid_ascii o demo_queued_def SnapshotController_def quad_demo PeerState_def
        demo_datagram_def del: data_header.simps) (elim conjE exE, blast)
qed

end
