(* ===== verification/Agreement.thy ===== *)
theory Agreement
  imports Routing
begin

text \<open>
  What makes the local cuts of two sidecars one cut: the marker carries the sender's
  coordinate to the receiver, and what the receiver records of the channel is the interval
  of sequence numbers between the two cuts. Also the order in which recorded messages and
  the ones after them reach the application.
\<close>

subsection \<open>The channel state is an interval\<close>

lemma takeWhile_interval:
  assumes "map a_seq ys = [k..k + int (length ys) - 1]"
    and "\<forall>y\<in>set ys. is_marker y \<longrightarrow> closes i y" and "\<exists>y\<in>set ys. closes i y"
  shows "map a_seq (filter (\<lambda>x. \<not> is_marker x) (takeWhile (\<lambda>x. \<not> closes i x) ys))
    = [k..a_seq (hd (filter (closes i) ys)) - 1]"
  using assms
proof (induction ys arbitrary: k)
  case Nil
  then show ?case by simp
next
  case (Cons y ys)
  have seqs: "a_seq y = k" "map a_seq ys = [k + 1..k + 1 + int (length ys) - 1]"
    using Cons.prems(1) by (simp_all add: upto.simps[of k])
  show ?case
  proof (cases "closes i y")
    case True
    then show ?thesis using seqs(1) by simp
  next
    case False
    then have "\<not> is_marker y" "\<exists>z\<in>set ys. closes i z" using Cons.prems(2,3) by auto
    with Cons.IH[OF seqs(2)] Cons.prems(2) have IH: "map a_seq (filter (\<lambda>x. \<not> is_marker x)
        (takeWhile (\<lambda>x. \<not> closes i x) ys)) = [k + 1..a_seq (hd (filter (closes i) ys)) - 1]"
      by simp
    have "k + 1 \<le> a_seq (hd (filter (closes i) ys))"
    proof -
      have "filter (closes i) ys \<noteq> []"
        using \<open>\<exists>z\<in>set ys. closes i z\<close> by (simp add: filter_empty_conv)
      then have "hd (filter (closes i) ys) \<in> set ys" by (metis filter_is_subset hd_in_set subsetD)
      then have "a_seq (hd (filter (closes i) ys)) \<in> set (map a_seq ys)" by simp
      then show ?thesis unfolding seqs(2) by simp
    qed
    then have "[k..a_seq (hd (filter (closes i) ys)) - 1]
        = k # [k + 1..a_seq (hd (filter (closes i) ys)) - 1]"
      by (simp add: upto.simps[of k])
    with False \<open>\<not> is_marker y\<close> IH seqs(1) show ?thesis by simp
  qed
qed

lemma channel_part_interval:
  assumes "map a_seq (filter (\<lambda>x. a_ip x = p) xs) = [k..k + int (length (filter (\<lambda>x. a_ip x = p) xs)) - 1]"
    and "\<forall>x\<in>set xs. a_ip x = p \<and> is_marker x \<longrightarrow> closes i x" and "p \<in> closed i xs"
  shows "map m_seq (channel_part i p xs) = [k..close_seq i p xs - 1]"
proof -
  have "map a_seq (filter (\<lambda>x. \<not> is_marker x) (takeWhile (\<lambda>x. \<not> closes i x) (filter (\<lambda>x. a_ip x = p) xs)))
      = [k..a_seq (hd (filter (closes i) (filter (\<lambda>x. a_ip x = p) xs))) - 1]"
    by (rule takeWhile_interval[OF assms(1)]) (use assms(2,3) in \<open>auto simp: closed_def\<close>)
  then show ?thesis
    by (simp add: channel_part_def close_seq_def comp_def to_msg_def conj_commute)
qed

subsection \<open>The marker arrives at the other end\<close>

lemma marker_frame_data:
  "marker_frame v payload p = data_frame (send_seq (peer_of v p)) 0 0 ZERO_IP payload"
  by (simp add: marker_frame_def data_frame_def)

text \<open>An in-order packet whose successor is not buffered: delivered, then counted.\<close>

lemma datagram_next_run:
  assumes "data_header_ok (0, n, sp, dp, target)" and "tunnel_transport w" and "rx_of w ip = (n, buf)"
    and "map_of buf (n + 1) = None"
    and "arrive E (to_arrival ip (n, payload, sp, dp, quad target))
      (emit (TunnelSend (ack_frame n) ip) (ensured ip w)) = (Inr (), v)"
  shows "datagram_received E (data_frame n sp dp target payload) ip w =
      (Inr (), upd_peer ip (\<lambda>p. p\<lparr>recv_seq := recv_seq p + 1\<rparr>) v)"
    and "rx_of (upd_peer ip (\<lambda>p. p\<lparr>recv_seq := recv_seq p + 1\<rparr>) v) ip = (n + 1, buf)"
proof -
  let ?w = "emit (TunnelSend (ack_frame n) ip) (ensured ip w)"
  have "datagram_received E (data_frame n sp dp target payload) ip w =
      in_order E ip n (payload, sp, dp, quad target) ?w"
    by (rule datagram_data_run[OF assms(1,2)]) (use assms(1) quad_ok in simp)
  moreover have "recv_seq (peer_of ?w ip) = n" using assms(3) by (simp add: rx_of_def)
  moreover have rx: "rx_of v ip = (n, buf)" using arrive_rx[OF assms(5)] assms(3) by simp
  ultimately show "datagram_received E (data_frame n sp dp target payload) ip w =
      (Inr (), upd_peer ip (\<lambda>p. p\<lparr>recv_seq := recv_seq p + 1\<rparr>) v)"
    using assms(5)
    by (simp add: in_order_def pbind_pget pseq_run arrive_to_arrival bump_run flush_buffer_run
        rx_flush_None[OF assms(4)] pret_run)
  show "rx_of (upd_peer ip (\<lambda>p. p\<lparr>recv_seq := recv_seq p + 1\<rparr>) v) ip = (n + 1, buf)"
    using rx by simp
qed

text \<open>The marker of the sender's cut, received in order by a sidecar that awaits it.\<close>

lemma marker_received_recording:
  assumes b: "is_snapshotting (snapshot_ctrl b)" "current_snapshot_id (snapshot_ctrl b) = Some i"
    "from_ip \<in> set (recording_channels (snapshot_ctrl b))"
    "set (recording_channels (snapshot_ctrl b)) \<noteq> {from_ip}" "tunnel_transport b"
    and rx: "rx_of b from_ip = (n, buf)" "map_of buf (n + 1) = None" and n: "is_uint 8 n"
  shows "\<exists>v. datagram_received E (data_frame n 0 0 ZERO_IP (MARKER @ i)) from_ip b = (Inr (), v)
    \<and> snapshot_ctrl v = close_channel from_ip n (snapshot_ctrl b) \<and> rx_of v from_ip = (n + 1, buf)"
proof -
  let ?b = "emit (TunnelSend (ack_frame n) from_ip) (ensured from_ip b)"
  have "process_message E from_ip n (MARKER @ i) 0 0 (quad ZERO_IP) ?b
      = (Inr True, upd_ctrl (close_channel from_ip n) ?b)"
    by (rule process_message_close_some) (use b in simp_all)
  then have "arrive E (to_arrival from_ip (n, MARKER @ i, 0, 0, quad ZERO_IP)) ?b
      = (Inr (), upd_ctrl (close_channel from_ip n) ?b)"
    by (simp add: arrive_to_arrival process_and_deliver_run)
  from datagram_next_run[OF _ b(5) rx this] n show ?thesis by (simp add: is_uint_def)
qed

text \<open>And by a sidecar that learns of the snapshot by it.\<close>

lemma marker_received_idle:
  assumes h: "healthy E (emit (TunnelSend (ack_frame n) from_ip) (ensured from_ip b)) b'"
    and i: "utf8_valid i"
    and drain: "drain_intercept E (recording_started E i from_ip
      (emit (TunnelSend (ack_frame n) from_ip) (ensured from_ip b))) = (Inr (), b')"
    and mem: "from_ip \<in> set (others E b)" and more: "set (others E b) \<noteq> {from_ip}"
    and rx: "rx_of b from_ip = (n, buf)" "map_of buf (n + 1) = None" and n: "is_uint 8 n"
  shows "\<exists>v. datagram_received E (data_frame n 0 0 ZERO_IP (MARKER @ i)) from_ip b = (Inr (), v)
    \<and> map_of (recorded_recv_seq (snapshot_ctrl v)) from_ip = Some (n + 1)
    \<and> map_of (channel_states (snapshot_ctrl v)) from_ip = Some [] \<and> rx_of v from_ip = (n + 1, buf)"
proof -
  let ?b = "emit (TunnelSend (ack_frame n) from_ip) (ensured from_ip b)"
  have same: "others E ?b = others E b" by (simp add: others_def)
  have "set (others E ?b) - {from_ip} \<noteq> {}" using mem more by (auto simp: same)
  from first_marker_run[OF h i drain this, of n 0 0 "quad ZERO_IP"]
  obtain u where u: "process_message E from_ip n (MARKER @ i) 0 0 (quad ZERO_IP) ?b = (Inr True, u)"
    "opened E i from_ip n (others E ?b) b' u" by blast
  have arr: "arrive E (to_arrival from_ip (n, MARKER @ i, 0, 0, quad ZERO_IP)) ?b = (Inr (), u)"
    using u(1) by (simp add: arrive_to_arrival process_and_deliver_run)
  have ok: "data_header_ok (0, n, 0, 0, ZERO_IP)" using n by (simp add: is_uint_def)
  have up: "tunnel_transport b" using h by (simp add: healthy_def)
  show ?thesis
    using datagram_next_run[OF ok up rx arr] u(2) mem by (simp add: opened_def Let_def same)
qed

subsection \<open>Properties\<close>

text \<open>
  C9: What a sidecar records of a channel is an interval of the sender's sequence numbers:
  if the packets of a peer arrive consecutively, as the tunnel delivers them, from the number
  \<open>k\<close> at which the recording started, then the recorded messages are those from \<open>k\<close> up to
  the marker, none missing and none extra, and the recorded receive coordinate is the number
  after the marker.
\<close>

theorem recorded_channel_is_interval:
  assumes "window i w" and "\<forall>n. send_ok E n" and "\<forall>x\<in>set xs. readable x"
    and "set (recording_channels (snapshot_ctrl w)) - closed i xs \<noteq> {}"
    and "p \<in> set (recording_channels (snapshot_ctrl w))" and "channel_of (snapshot_ctrl w) p = []"
    and "p \<in> closed i xs" and "\<forall>x\<in>set xs. a_ip x = p \<and> is_marker x \<longrightarrow> closes i x"
    and "map a_seq (filter (\<lambda>x. a_ip x = p) xs) = [k..k + int (length (filter (\<lambda>x. a_ip x = p) xs)) - 1]"
  shows "\<exists>v r. pfor (arrive E) xs w = (Inr (), v)
    \<and> map_of (recorded_recv_seq (snapshot_ctrl v)) p = Some r
    \<and> map m_seq (channel_of (snapshot_ctrl v) p) = [k..r - 2]"
proof -
  obtain v where v: "pfor (arrive E) xs w = (Inr (), v)" "records i w xs v"
    using window_run[OF assms(1-4)] by blast
  have "map_of (channel_states (snapshot_ctrl w)) p = Some []"
    using assms(1,5,6) by (auto simp: window_def channel_of_def)
  then have "channel_of (snapshot_ctrl v) p = channel_part i p xs"
    using v(2) assms(5) by (simp add: records_def Let_def channel_of_def)
  moreover have "map_of (recorded_recv_seq (snapshot_ctrl v)) p = Some (close_seq i p xs + 1)"
    using v(2) assms(5,7) by (simp add: records_def Let_def)
  ultimately show ?thesis
    using v(1) channel_part_interval[OF assms(9,8,7)] by (intro exI[of _ v]) simp
qed

definition demo_opened :: world where
  "demo_opened = upd_ctrl (\<lambda>c. c\<lparr>is_snapshotting := True, current_snapshot_id := Some ''s1'',
     recording_channels := [''10.24.24.11'', ''10.24.24.12''],
     channel_states := [(''10.24.24.11'', []), (''10.24.24.12'', [])]\<rparr>) demo_world"

lemma demo_window_open: "window ''s1'' demo_opened"
  using demo_base_inv by (simp add: window_def demo_opened_def)

definition demo_stream :: "arrival list" where
  "demo_stream = [demo_arrival ''10.24.24.11'' 5 ''a'', demo_arrival ''10.24.24.12'' 2 ''b'',
     demo_arrival ''10.24.24.11'' 6 ''c'', demo_arrival ''10.24.24.11'' 7 (MARKER @ ''s1'')]"

theorem recorded_channel_is_interval_witness:
  "\<exists>v. pfor (arrive demo_env) demo_stream demo_opened = (Inr (), v)
    \<and> map m_seq (channel_of (snapshot_ctrl v) ''10.24.24.11'') = [5, 6]"
proof -
  let ?p = "''10.24.24.11''"
  have cl: "closes ''s1'' (demo_arrival ip n (MARKER @ ''s1''))" for ip n
    by (simp add: closes_def demo_arrival_def)
  have m: "\<not> is_marker (demo_arrival ip n [c])" for ip n c
    by (simp add: is_marker_def demo_arrival_def MARKER_def starts_with_def)
  have readable: "\<forall>x\<in>set demo_stream. readable x"
    using m by (auto simp: demo_stream_def readable_def demo_arrival_def utf8_valid_ascii)
  have closed: "closed ''s1'' demo_stream = {?p}"
    using m cl by (auto simp: demo_stream_def dest: closes_marker) (simp add: demo_arrival_def)+
  have open_still: "set (recording_channels (snapshot_ctrl demo_opened)) - closed ''s1'' demo_stream \<noteq> {}"
    by (simp add: closed demo_opened_def)
  have mine: "filter (\<lambda>x. a_ip x = ?p) demo_stream = [demo_arrival ?p 5 ''a'', demo_arrival ?p 6 ''c'',
      demo_arrival ?p 7 (MARKER @ ''s1'')]"
    by (simp add: demo_stream_def demo_arrival_def)
  have seqs: "map a_seq (filter (\<lambda>x. a_ip x = ?p) demo_stream)
      = [5..5 + int (length (filter (\<lambda>x. a_ip x = ?p) demo_stream)) - 1]"
    unfolding mine by (simp add: demo_arrival_def upto.simps)
  have markers: "\<forall>x\<in>set demo_stream. a_ip x = ?p \<and> is_marker x \<longrightarrow> closes ''s1'' x"
    using m cl by (auto simp: demo_stream_def)
  have "?p \<in> set (recording_channels (snapshot_ctrl demo_opened))" "channel_of (snapshot_ctrl demo_opened) ?p = []"
    by (simp_all add: demo_opened_def channel_of_def)
  from recorded_channel_is_interval[OF demo_window_open demo_sends readable open_still this _ markers seqs]
  obtain v r where v: "pfor (arrive demo_env) demo_stream demo_opened = (Inr (), v)"
    "map_of (recorded_recv_seq (snapshot_ctrl v)) ?p = Some r"
    "map m_seq (channel_of (snapshot_ctrl v) ?p) = [5..r - 2]"
    by (auto simp: closed)
  have "records ''s1'' demo_opened demo_stream v"
    using window_run[OF demo_window_open demo_sends readable open_still] v(1) by simp
  then have "r = close_seq ''s1'' ?p demo_stream + 1"
    using v(2) closed by (simp add: records_def Let_def demo_opened_def)
  moreover have "close_seq ''s1'' ?p demo_stream = 7"
    using m cl by (auto simp: demo_stream_def dest: closes_marker) (simp_all add: demo_arrival_def)
  ultimately show ?thesis using v by (simp add: upto.simps)
qed

text \<open>
  A sidecar to which the marker \<open>i\<close> of a peer is the next packet: it awaits it, or it is idle
  and can open the cut.
\<close>

definition takes_marker :: "env \<Rightarrow> bytes \<Rightarrow> string \<Rightarrow> world \<Rightarrow> bool" where
  "takes_marker E i ip b \<longleftrightarrow>
     tunnel_transport b \<and> map_of (snd (rx_of b ip)) (fst (rx_of b ip) + 1) = None
     \<and> (let b1 = emit (TunnelSend (ack_frame (fst (rx_of b ip))) ip) (ensured ip b) in
        is_snapshotting (snapshot_ctrl b) \<and> current_snapshot_id (snapshot_ctrl b) = Some i
          \<and> ip \<in> set (recording_channels (snapshot_ctrl b)) \<and> set (recording_channels (snapshot_ctrl b)) \<noteq> {ip}
        \<or> ip \<in> set (others E b) \<and> set (others E b) \<noteq> {ip}
          \<and> (\<exists>b'. drain_intercept E (recording_started E i ip b1) = (Inr (), b') \<and> healthy E b1 b'))"

lemma marker_received:
  assumes "takes_marker E i ip b" and "utf8_valid i" and "is_uint 8 (fst (rx_of b ip))"
  shows "\<exists>b'. datagram_received E (data_frame (fst (rx_of b ip)) 0 0 ZERO_IP (MARKER @ i)) ip b = (Inr (), b')
    \<and> map_of (recorded_recv_seq (snapshot_ctrl b')) ip = Some (fst (rx_of b ip) + 1)
    \<and> fst (rx_of b' ip) = fst (rx_of b ip) + 1"
proof -
  obtain n buf where rx: "rx_of b ip = (n, buf)" by fastforce
  then have nxt: "map_of buf (n + 1) = None" "tunnel_transport b" "is_uint 8 n"
    using assms(1,3) by (simp_all add: takes_marker_def Let_def)
  from assms(1) consider
    "is_snapshotting (snapshot_ctrl b) \<and> current_snapshot_id (snapshot_ctrl b) = Some i
      \<and> ip \<in> set (recording_channels (snapshot_ctrl b)) \<and> set (recording_channels (snapshot_ctrl b)) \<noteq> {ip}"
    | b' where "ip \<in> set (others E b)" "set (others E b) \<noteq> {ip}"
      "drain_intercept E (recording_started E i ip (emit (TunnelSend (ack_frame n) ip) (ensured ip b))) = (Inr (), b')"
      "healthy E (emit (TunnelSend (ack_frame n) ip) (ensured ip b)) b'"
    by (auto simp: takes_marker_def Let_def rx)
  then show ?thesis
  proof cases
    case 1
    then show ?thesis
      using marker_received_recording[of b i ip n buf E] rx nxt by auto
  next
    case 2
    from marker_received_idle[OF 2(4) assms(2) 2(3,1,2) rx nxt(1,3)] rx show ?thesis by auto
  qed
qed

text \<open>
  C8: The two ends of a channel record the same cut of it: when the marker that one sidecar
  sent at its cut reaches another sidecar in order, the receive coordinate that one records
  for the channel is the send coordinate the first one recorded, whether the receiver is
  waiting for the marker or learns of the snapshot by it. So a restored pair agrees on the
  next sequence number.
\<close>

theorem cut_coordinates_agree:
  assumes "healthy E a v" and "utf8_valid i"
    and "drain_intercept E (recording_started E i origin a) = (Inr (), v)"
    and "set (others E a) - {origin} \<noteq> {}" and "jp \<in> set (others E a)"
    and "process_message E origin seq (MARKER @ i) sp dp tip a = (r, a')"
    and "takes_marker E' i ip b" and "recv_seq (peer_of b ip) = send_seq (peer_of v jp)"
  shows "\<exists>frame b'. TunnelSend frame jp \<in> set (trace a')
    \<and> datagram_received E' frame ip b = (Inr (), b')
    \<and> map_of (recorded_send_seq (snapshot_ctrl a')) jp = Some (send_seq (peer_of a' jp))
    \<and> map_of (recorded_recv_seq (snapshot_ctrl b')) ip = map_of (recorded_send_seq (snapshot_ctrl a')) jp
    \<and> recv_seq (peer_of b' ip) = send_seq (peer_of a' jp)"
proof -
  from first_marker_run[OF assms(1-4), of seq sp dp tip] assms(6)
  have o: "opened E i origin seq (others E a) v a'" by auto
  let ?f = "data_frame (send_seq (peer_of v jp)) 0 0 ZERO_IP (MARKER @ i)"
  have n: "fst (rx_of b ip) = send_seq (peer_of v jp)" using assms(8) by (simp add: rx_of_def)
  moreover have "is_uint 8 (send_seq (peer_of v jp))" using assms(1,5) by (simp add: healthy_def)
  ultimately obtain b' where "datagram_received E' ?f ip b = (Inr (), b')"
    "map_of (recorded_recv_seq (snapshot_ctrl b')) ip = Some (send_seq (peer_of v jp) + 1)"
    "recv_seq (peer_of b' ip) = send_seq (peer_of v jp) + 1"
    using marker_received[OF assms(7,2)] by (auto simp: rx_of_def)
  moreover have "TunnelSend ?f jp \<in> set (trace a')"
    using o assms(5) by (auto simp: opened_def Let_def marker_frame_data)
  ultimately show ?thesis
    using o assms(5) by (intro exI[of _ ?f] exI[of _ b']) (simp add: opened_def Let_def)
qed

text \<open>The first node of the deployment triggers a snapshot; the second one is idle.\<close>

definition demo_env2 :: env where
  "demo_env2 = demo_env\<lparr>MESH_SELF := Some ''10.24.24.11''\<rparr>"

lemma demo_takes_marker: "takes_marker demo_env2 ''s1'' ''10.24.24.10'' demo_world"
proof -
  let ?ip = "''10.24.24.10''"
  let ?b = "emit (TunnelSend (ack_frame 0) ?ip) (ensured ?ip demo_world)"
  have o: "others demo_env2 demo_world = [?ip, ''10.24.24.12'']" "others demo_env2 ?b = [?ip, ''10.24.24.12'']"
    by (simp_all add: others_def self_ip_of_def demo_env2_def)
  have "world_inv ?b" using demo_base_inv demo_world_inv by (simp add: world_inv_def)
  then have "healthy demo_env2 ?b (recording_started demo_env2 ''s1'' ?ip ?b)"
    unfolding healthy_def o by (simp add: SnapshotController_def demo_env2_def recording_started_def is_uint_def PeerState_def)
  moreover have "drain_intercept demo_env2 (recording_started demo_env2 ''s1'' ?ip ?b)
      = (Inr (), recording_started demo_env2 ''s1'' ?ip ?b)"
    by (simp add: drain_intercept_pfor recording_started_def pret_run)
  ultimately show ?thesis
    unfolding takes_marker_def Let_def o by (auto simp: rx_of_def PeerState_def)
qed

lemma demo_triggered:
  "healthy demo_env demo_world (recording_started demo_env i ip demo_world)"
  "drain_intercept demo_env (recording_started demo_env i ip demo_world)
    = (Inr (), recording_started demo_env i ip demo_world)"
proof -
  show "healthy demo_env demo_world (recording_started demo_env i ip demo_world)"
    using demo_world_inv by (simp add: healthy_def SnapshotController_def demo_others recording_started_def
        is_uint_def PeerState_def)
  show "drain_intercept demo_env (recording_started demo_env i ip demo_world)
    = (Inr (), recording_started demo_env i ip demo_world)"
    by (simp add: drain_intercept_pfor recording_started_def pret_run)
qed

theorem cut_coordinates_agree_witness:
  "\<exists>frame b'. datagram_received demo_env2 frame ''10.24.24.10'' demo_world = (Inr (), b')
    \<and> map_of (recorded_recv_seq (snapshot_ctrl b')) ''10.24.24.10'' = Some 1"
proof -
  let ?a = demo_world and ?v = "recording_started demo_env ''s1'' ''127.0.0.1'' demo_world"
  note h = demo_triggered(1)[of "''s1''" "''127.0.0.1''"] and drain = demo_triggered(2)[of "''s1''" "''127.0.0.1''"]
  have u: "utf8_valid ''s1''" by (simp add: utf8_valid_ascii)
  have more: "set (others demo_env ?a) - {''127.0.0.1''} \<noteq> {}" and jp: "''10.24.24.11'' \<in> set (others demo_env ?a)"
    by (simp_all add: demo_others)
  obtain r a' where run: "process_message demo_env ''127.0.0.1'' 0 (MARKER @ ''s1'') 0 0 [] ?a = (r, a')"
    by fastforce
  have o: "opened demo_env ''s1'' ''127.0.0.1'' 0 (others demo_env ?a) ?v a'"
    by (rule first_marker_run[OF h u drain more, of 0 0 0 "[]"]) (use run in auto)
  have "recv_seq (peer_of demo_world ''10.24.24.10'') = send_seq (peer_of ?v ''10.24.24.11'')"
    by (simp add: recording_started_def PeerState_def)
  from cut_coordinates_agree[OF h u drain more jp run demo_takes_marker this]
  show ?thesis using o by (auto simp: opened_def Let_def demo_others recording_started_def PeerState_def)
qed

text \<open>
  C23: A recorded message is overtaken: with two channels still open, a message of one peer
  that precedes its marker waits for the other peer's marker, while the next message of the
  same peer, after its marker, is delivered at once. So the application gets the second
  before the first, although the tunnel handed them to the controller in order.
\<close>

theorem replay_is_overtaken:
  assumes "healthy E w v" and "utf8_valid i"
    and "drain_intercept E (recording_started E i (a_ip x\<^sub>0) w) = (Inr (), v)"
    and "closes i x\<^sub>0" and "closes i mk" and "closes i x" and "\<not> is_marker m" and "\<not> is_marker m'"
    and "a_ip mk = a_ip m" and "a_ip m' = a_ip m" and "a_ip m \<noteq> a_ip x"
    and "set (others E w) - {a_ip x\<^sub>0} = {a_ip m, a_ip x}"
  shows "\<exists>u. pfor (arrive E) (x\<^sub>0 # [m, mk, m'] @ [x]) w = (Inr (), u)
    \<and> delivered (trace u) = delivered (trace v) @ [handed m', handed m]"
proof -
  let ?xs = "[m, mk, m']"
  define R where "R = set (others E w) - {a_ip x\<^sub>0}"
  have R: "R = {a_ip m, a_ip x}" using assms(12) by (simp add: R_def)
  have mk: "is_marker mk" by (rule closes_marker[OF assms(5)])
  have notcl: "\<not> closes i m" "\<not> closes i m'" using assms(7,8) closes_marker by blast+
  have pass: "passing i R ?xs = [m']"
    using assms(5,7-11) mk by (simp add: R)
  have "R - closed i ?xs = {a_ip x}" using assms(5,9,11) notcl by (auto simp: R)
  moreover have "\<forall>y\<in>set ?xs. readable y"
    using assms(2,5,7,8) by (auto simp: readable_def closes_def)
  ultimately obtain u items where u: "pfor (arrive E) (x\<^sub>0 # ?xs @ [x]) w = (Inr (), u)"
    and del: "delivered (trace u) = delivered (trace v) @ map handed (passing i R ?xs) @ concat (map replayed items)"
    and items: "distinct (map fst items)" "map_of items =
      (\<lambda>p. if p \<in> set (others E w) then Some (channel_part i p (x\<^sub>0 # ?xs @ [x])) else None)"
    using snapshot_run[OF R_def assms(1-4) _ assms(6), of ?xs] by blast
  have part: "channel_part i (a_ip m) ?xs = [to_msg m]" "channel_part i (a_ip x) ?xs = []"
    using assms(7-11) channel_part_simps(3)[OF assms(5), of "[m']"] by (simp_all add: channel_part_def notcl assms(5))
  have "mset (concat (map replayed items)) = (\<Sum>p\<in>R. mset (map as_delivered (channel_part i p ?xs)))"
    unfolding R_def by (rule mset_items[OF items assms(4,6)])
  also have "\<dots> = mset [handed m]" using assms(11) by (simp add: R part)
  finally have "concat (map replayed items) = [handed m]" by (simp add: mset_single_iff)
  with u del pass show ?thesis by auto
qed

theorem replay_is_overtaken_witness:
  "\<exists>u. pfor (arrive demo_env) [demo_arrival ''127.0.0.1'' 0 (MARKER @ ''s1''),
        demo_arrival ''10.24.24.12'' 7 ''a'', demo_arrival ''10.24.24.12'' 8 (MARKER @ ''s1''),
        demo_arrival ''10.24.24.12'' 9 ''b'', demo_arrival ''10.24.24.11'' 4 (MARKER @ ''s1'')] demo_world = (Inr (), u)
    \<and> map fst (delivered (trace u)) = [''b'', ''a'']"
proof -
  have cl: "closes ''s1'' (demo_arrival ip n (MARKER @ ''s1''))" for ip n
    by (simp add: closes_def demo_arrival_def)
  have m: "\<not> is_marker (demo_arrival ip n [c])" for ip n c
    by (simp add: is_marker_def demo_arrival_def MARKER_def starts_with_def)
  have ip: "a_ip (demo_arrival jp n p) = jp" "handed (demo_arrival jp n p) = (p, ''10.24.24.10'', 6000)" for jp n p
    by (simp_all add: demo_arrival_def handed_def)
  have "utf8_valid ''s1''" by (simp add: utf8_valid_ascii)
  from replay_is_overtaken[OF demo_triggered(1) this demo_triggered(2), of "demo_arrival ''127.0.0.1'' 0 (MARKER @ ''s1'')"
      "demo_arrival ''10.24.24.12'' 8 (MARKER @ ''s1'')" "demo_arrival ''10.24.24.11'' 4 (MARKER @ ''s1'')"
      "demo_arrival ''10.24.24.12'' 7 ''a''" "demo_arrival ''10.24.24.12'' 9 ''b''"]
  show ?thesis
    by (simp add: cl m ip demo_others recording_started_def insert_commute) fastforce
qed

end
