(* ===== verification/Restore.thy ===== *)
theory Restore
  imports Recording Demo
begin

text \<open>
  \<open>restore_from_artifact\<close>: a fresh sidecar reads its node's artifact back, seeds the
  sequence numbers of every peer and replays the recorded channels. Shown against the
  artifact builder: what the snapshot recorded is what the restored sidecar resumes from.
  A sequence number or port of the artifact that is not a JSON number counts as an error
  here, where Python would store it and fail at its first use.
\<close>

subsection \<open>Reading JSON\<close>

definition jget :: "json \<Rightarrow> string \<Rightarrow> json \<Rightarrow> exn + json" where
  "jget obj key dflt =
     (case obj of JObj d \<Rightarrow> Inr (case map_of d key of None \<Rightarrow> dflt | Some v \<Rightarrow> v)
      | _ \<Rightarrow> Inl AttributeError)"

definition jitem :: "json \<Rightarrow> string \<Rightarrow> exn + json" where
  "jitem obj key =
     (case obj of JObj d \<Rightarrow> (case map_of d key of None \<Rightarrow> Inl KeyError | Some v \<Rightarrow> Inr v)
      | _ \<Rightarrow> Inl TypeError)"

definition jitems :: "json \<Rightarrow> exn + (string \<times> json) list" where
  "jitems obj = (case obj of JObj d \<Rightarrow> Inr d | _ \<Rightarrow> Inl AttributeError)"

definition jiter :: "json \<Rightarrow> exn + json list" where
  "jiter v =
     (case v of JArr xs \<Rightarrow> Inr xs | JObj d \<Rightarrow> Inr (map (\<lambda>e. JStr (fst e)) d)
      | JStr s \<Rightarrow> Inr (map (\<lambda>c. JStr [c]) s) | _ \<Rightarrow> Inl TypeError)"

definition json_int :: "json \<Rightarrow> exn + int" where
  "json_int v = (case v of JInt n \<Rightarrow> Inr n | JBool b \<Rightarrow> Inr (if b then 1 else 0) | _ \<Rightarrow> Inl TypeError)"

definition json_str :: "json \<Rightarrow> exn + string" where
  "json_str v = (case v of JStr s \<Rightarrow> Inr s | _ \<Rightarrow> Inl TypeError)"

definition ebind :: "exn + 'a \<Rightarrow> ('a \<Rightarrow> exn + 'b) \<Rightarrow> exn + 'b" where
  "ebind r k = (case r of Inl e \<Rightarrow> Inl e | Inr x \<Rightarrow> k x)"

lemma ebind_simps [simp]: "ebind (Inr x) k = k x" "ebind (Inl e) k = Inl e"
  by (simp_all add: ebind_def)

fun emap :: "('a \<Rightarrow> exn + 'b) \<Rightarrow> 'a list \<Rightarrow> exn + 'b list" where
  "emap f [] = Inr []"
| "emap f (x # xs) = ebind (f x) (\<lambda>y. ebind (emap f xs) (\<lambda>ys. Inr (y # ys)))"

subsection \<open>The code\<close>

fun find_node :: "json \<Rightarrow> json list \<Rightarrow> exn + json option" where
  "find_node target [] = Inr None"
| "find_node target (entry # entries) =
     ebind (jget entry ''node'' JNull) (\<lambda>node.
       if node = target then Inr (Some entry) else find_node target entries)"

definition checkpoint_target_json :: "env \<Rightarrow> json" where
  "checkpoint_target_json E = (case CHECKPOINT_TARGET E of None \<Rightarrow> JNull | Some s \<Rightarrow> JStr s)"

definition seed_field :: "json \<Rightarrow> string \<Rightarrow> (int \<Rightarrow> peer_state \<Rightarrow> peer_state) \<Rightarrow> string \<Rightarrow> unit act" where
  "seed_field artifact key put ip =
     pbind (plift (jget artifact key JNull)) (\<lambda>v.
       if v = JNull then pret ()
       else pbind (plift (json_int v)) (\<lambda>n. pmod (upd_peer ip (put n))))"

definition seed_peer :: "string \<times> json \<Rightarrow> unit act" where
  "seed_peer x =
     (case x of (peer_ip, peer_artifact) \<Rightarrow>
        pseq (get_peer peer_ip)
       (pseq (seed_field peer_artifact ''send_seq'' (\<lambda>n p. p\<lparr>send_seq := n\<rparr>) peer_ip)
         (seed_field peer_artifact ''recv_seq'' (\<lambda>n p. p\<lparr>recv_seq := n\<rparr>) peer_ip)))"

definition with_seq :: "json \<Rightarrow> exn + (int \<times> json)" where
  "with_seq m = ebind (jitem m ''seq'') (\<lambda>v. ebind (json_int v) (\<lambda>n. Inr (n, m)))"

definition read_msg :: "json \<Rightarrow> exn + recorded_msg" where
  "read_msg m =
     ebind (jitem m ''payload_b64'') (\<lambda>b. ebind (json_str b) (\<lambda>b64. ebind (b64decode b64) (\<lambda>payload.
     ebind (jitem m ''seq'') (\<lambda>s. ebind (json_int s) (\<lambda>seq.
     ebind (jitem m ''src_port'') (\<lambda>sp. ebind (json_int sp) (\<lambda>src_port.
     ebind (jitem m ''dst_port'') (\<lambda>dp. ebind (json_int dp) (\<lambda>dst_port.
     ebind (jitem m ''target_local_ip'') (\<lambda>t. ebind (json_str t) (\<lambda>target_local_ip.
       Inr \<lparr>m_seq = seq, m_payload = payload, m_src_port = src_port, m_dst_port = dst_port,
            m_target_local_ip = target_local_ip\<rparr>)))))))))))"

definition replay_entry :: "env \<Rightarrow> string \<Rightarrow> json \<Rightarrow> unit act" where
  "replay_entry E peer_ip m =
     pbind (plift (read_msg m)) (\<lambda>msg. deliver_msg (process_and_deliver E) peer_ip msg)"

definition replay_peer :: "env \<Rightarrow> string \<times> json \<Rightarrow> unit act" where
  "replay_peer E x =
     (case x of (peer_ip, peer_artifact) \<Rightarrow>
        pbind (plift (jget peer_artifact ''channel'' (JArr []))) (\<lambda>ch.
        pbind (plift (jiter ch)) (\<lambda>msgs.
        pbind (plift (emap with_seq msgs)) (\<lambda>keyed.
          pfor (replay_entry E peer_ip) (map snd (sort_key fst keyed))))))"

definition restore_node :: "env \<Rightarrow> json \<Rightarrow> unit act" where
  "restore_node E node =
     pbind (plift (jget node ''peers'' (JObj []))) (\<lambda>p.
     pbind (plift (jitems p)) (\<lambda>peers.
       pseq (pfor seed_peer peers) (pfor (replay_peer E) peers)))"

definition restore_body :: "env \<Rightarrow> string \<Rightarrow> unit act" where
  "restore_body E snapshot_id =
     pbind (pget (\<lambda>w. length (trace w))) (\<lambda>n.
     pbind (http_call E (GetSnapshot snapshot_id)) (\<lambda>ok.
       if \<not> ok then praise OSError
       else
         pbind (plift (jget (http_body E n) ''nodes'' (JArr []))) (\<lambda>ns.
         pbind (plift (jiter ns)) (\<lambda>entries.
         pbind (plift (find_node (checkpoint_target_json E) entries)) (\<lambda>found.
           case found of None \<Rightarrow> pret () | Some node \<Rightarrow> restore_node E node)))))"

definition restore_from_artifact :: "env \<Rightarrow> unit act" where
  "restore_from_artifact E =
     (case RESTORE_SNAPSHOT_ID E of
        Some (c # cs) \<Rightarrow> pcatch (restore_body E (c # cs)) (pret ())
      | _ \<Rightarrow> pret ())"

subsection \<open>Reading back what was written\<close>

lemma insort_key_map: "insort_key f (g x) (map g xs) = map g (insort_key (\<lambda>y. f (g y)) x xs)"
  by (induction xs) auto

lemma sort_key_map: "sort_key f (map g xs) = map g (sort_key (\<lambda>y. f (g y)) xs)"
  by (induction xs) (simp_all add: insort_key_map comp_def)

lemma read_msg_json [simp]: "read_msg (msg_json m) = Inr m"
  by (simp add: read_msg_def msg_json_def jitem_def json_int_def json_str_def b64_roundtrip)

lemma with_seq_json [simp]: "with_seq (msg_json m) = Inr (m_seq m, msg_json m)"
  by (simp add: with_seq_def msg_json_def jitem_def json_int_def)

lemma emap_with_seq: "emap with_seq (map msg_json ms) = Inr (map (\<lambda>m. (m_seq m, msg_json m)) ms)"
  by (induction ms) simp_all

lemma replay_entry_json:
  "replay_entry E ip (msg_json m) = deliver_msg (process_and_deliver E) ip m"
  by (simp add: replay_entry_def)

lemma replay_peer_json:
  "replay_peer E (ip, cut_peer_json s r ms)
    = pfor (deliver_msg (process_and_deliver E) ip) (sort_key m_seq ms)"
proof -
  have "map snd (sort_key fst (map (\<lambda>m. (m_seq m, msg_json m)) ms)) = map msg_json (sort_key m_seq ms)"
    by (simp add: sort_key_map o_def)
  moreover have "pfor (replay_entry E ip) (map msg_json xs)
      = pfor (deliver_msg (process_and_deliver E) ip) xs" for xs
    by (induction xs) (simp_all add: replay_entry_json)
  ultimately show ?thesis
    by (simp add: replay_peer_def cut_peer_json_def jget_def jiter_def emap_with_seq)
qed

definition seeded :: "int option \<Rightarrow> int option \<Rightarrow> peer_state \<Rightarrow> peer_state" where
  "seeded s r p = p\<lparr>send_seq := (case s of None \<Rightarrow> send_seq p | Some n \<Rightarrow> n),
     recv_seq := (case r of None \<Rightarrow> recv_seq p | Some n \<Rightarrow> n)\<rparr>"

definition same_but_peers :: "world \<Rightarrow> world \<Rightarrow> bool" where
  "same_but_peers w v \<longleftrightarrow> snapshot_ctrl v = snapshot_ctrl w \<and> trace v = trace w
     \<and> clock v = clock w \<and> local_sock v = local_sock w \<and> is_server v = is_server w
     \<and> tunnel_transport v = tunnel_transport w \<and> (base_inv w \<longrightarrow> base_inv v)"

lemma base_inv_seed:
  "base_inv w \<Longrightarrow> base_inv (upd_peer ip (\<lambda>p. p\<lparr>send_seq := n\<rparr>) w)"
  "base_inv w \<Longrightarrow> base_inv (upd_peer ip (\<lambda>p. p\<lparr>recv_seq := n\<rparr>) w)"
  by (auto simp: peer_ok_def intro!: base_inv_upd_peer)

lemma seed_peer_json:
  "\<exists>v. seed_peer (ip, cut_peer_json s r ms) w = (Inr (), v)
    \<and> (\<forall>jp. peer_of v jp = (if jp = ip then seeded s r (peer_of w ip) else peer_of w jp))
    \<and> same_but_peers w v"
  by (cases s; cases r)
    (simp_all add: seed_peer_def seed_field_def cut_peer_json_def jget_def json_opt_int_def
      json_int_def pseq_run get_peer_run pmod_run pret_run seeded_def same_but_peers_def base_inv_seed)

lemma seed_peers_json:
  assumes "distinct ps"
  shows "\<exists>v. pfor seed_peer (map (\<lambda>p. (p, cut_peer_json (s p) (r p) (ch p))) ps) w = (Inr (), v)
    \<and> (\<forall>jp. peer_of v jp = (if jp \<in> set ps then seeded (s jp) (r jp) (peer_of w jp) else peer_of w jp))
    \<and> same_but_peers w v"
  using assms
proof (induction ps arbitrary: w)
  case Nil
  then show ?case by (simp add: pret_run same_but_peers_def)
next
  case (Cons p ps)
  obtain u where u: "seed_peer (p, cut_peer_json (s p) (r p) (ch p)) w = (Inr (), u)"
    "\<forall>jp. peer_of u jp = (if jp = p then seeded (s p) (r p) (peer_of w p) else peer_of w jp)"
    "same_but_peers w u" using seed_peer_json by blast
  obtain v where v: "pfor seed_peer (map (\<lambda>p. (p, cut_peer_json (s p) (r p) (ch p))) ps) u = (Inr (), v)"
    "\<forall>jp. peer_of v jp = (if jp \<in> set ps then seeded (s jp) (r jp) (peer_of u jp) else peer_of u jp)"
    "same_but_peers u v" using Cons.IH[of u] Cons.prems by auto
  show ?case
    using u v Cons.prems by (intro exI[of _ v]) (auto simp: pseq_run same_but_peers_def)
qed

text \<open>The replay of a channel into an idle sidecar.\<close>

lemma deliver_msgs_idle:
  assumes "idle w" and "\<forall>n. send_ok E n" and "\<forall>m\<in>set ms. \<not> starts_with MARKER (m_payload m)"
  shows "\<exists>v. pfor (deliver_msg (process_and_deliver E) ip) ms w = (Inr (), v) \<and> idle v
    \<and> hands_over w v (map as_delivered ms)"
  using assms
proof (induction ms arbitrary: w)
  case Nil
  then show ?case by (simp add: pret_run hands_over_refl)
next
  case (Cons m ms)
  then have w: "base_inv w" "\<not> is_snapshotting (snapshot_ctrl w)" by (simp_all add: idle_def)
  obtain u where u: "spoof_deliver E (m_payload m) ip (m_src_port m) (m_dst_port m)
      (m_target_local_ip m) w = (Inr (), u)"
    "hands_over w u [as_delivered m]" "snapshot_ctrl u = snapshot_ctrl w"
    unfolding as_delivered_def by (rule spoof_deliver_run[OF w(1) Cons.prems(2)])
  have run: "deliver_msg (process_and_deliver E) ip m w = (Inr (), u)"
    using w(2) Cons.prems(3) u(1)
    by (simp add: deliver_msg_def process_and_deliver_run process_message_pass)
  have "idle u" using u w by (simp add: idle_def hands_over_def)
  from Cons.IH[OF this Cons.prems(2)] Cons.prems(3)
  obtain v where v: "pfor (deliver_msg (process_and_deliver E) ip) ms u = (Inr (), v)" "idle v"
    "hands_over u v (map as_delivered ms)" by auto
  show ?case
    using run v hands_over_trans[OF u(2) v(3)]
    by (intro exI[of _ v]) (simp add: pseq_run)
qed

lemma replay_peers_json:
  assumes "idle w" and "\<forall>n. send_ok E n"
    and "\<forall>p\<in>set ps. \<forall>m\<in>set (ch p). \<not> starts_with MARKER (m_payload m)"
  shows "\<exists>v. pfor (replay_peer E) (map (\<lambda>p. (p, cut_peer_json (s p) (r p) (ch p))) ps) w = (Inr (), v)
    \<and> idle v \<and> hands_over w v (concat (map (\<lambda>p. replayed (p, ch p)) ps))"
  using assms
proof (induction ps arbitrary: w)
  case Nil
  then show ?case by (simp add: pret_run hands_over_refl)
next
  case (Cons p ps)
  obtain u where u: "pfor (deliver_msg (process_and_deliver E) p) (sort_key m_seq (ch p)) w = (Inr (), u)"
    "idle u" "hands_over w u (map as_delivered (sort_key m_seq (ch p)))"
    using deliver_msgs_idle[OF Cons.prems(1,2), of "sort_key m_seq (ch p)" p] Cons.prems(3) by auto
  obtain v where v: "pfor (replay_peer E) (map (\<lambda>p. (p, cut_peer_json (s p) (r p) (ch p))) ps) u = (Inr (), v)"
    "idle v" "hands_over u v (concat (map (\<lambda>p. replayed (p, ch p)) ps))"
    using Cons.IH[OF u(2) Cons.prems(2)] Cons.prems(3) by auto
  show ?case
    using u(1) v(1,2) hands_over_trans[OF u(3) v(3)]
    by (intro exI[of _ v]) (simp add: pseq_run replay_peer_json replayed_def)
qed

text \<open>A whole node.\<close>

lemma restore_node_cut:
  assumes w: "idle w" and send: "\<forall>n. send_ok E n" and fin: "finite ps"
    and ch: "\<forall>p\<in>ps. \<forall>m\<in>set (ch p). \<not> starts_with MARKER (m_payload m)"
  shows "\<exists>v. restore_node E (cut_artifact E' st i ps s r ch) w = (Inr (), v)
    \<and> (\<forall>p. peer_of v p = (if p \<in> ps then seeded (s p) (r p) (peer_of w p) else peer_of w p))
    \<and> delivered (trace v) = delivered (trace w)
        @ concat (map (\<lambda>p. replayed (p, ch p)) (sorted_list_of_set ps))
    \<and> tunneled (trace v) = tunneled (trace w) \<and> idle v"
proof -
  let ?ps = "sorted_list_of_set ps"
  let ?items = "map (\<lambda>p. (p, cut_peer_json (s p) (r p) (ch p))) ?ps"
  obtain u where u: "pfor seed_peer ?items w = (Inr (), u)"
    "\<forall>p. peer_of u p = (if p \<in> set ?ps then seeded (s p) (r p) (peer_of w p) else peer_of w p)"
    "same_but_peers w u" using seed_peers_json[of ?ps s r ch w] by auto
  have iu: "idle u" using w u(3) by (simp add: idle_def same_but_peers_def)
  obtain v where v: "pfor (replay_peer E) ?items u = (Inr (), v)" "idle v"
    "hands_over u v (concat (map (\<lambda>p. replayed (p, ch p)) ?ps))"
    using replay_peers_json[OF iu send, of ?ps ch s r] ch fin by auto
  have "restore_node E (cut_artifact E' st i ps s r ch) w = (Inr (), v)"
    by (simp add: restore_node_def cut_artifact_def jget_def jitems_def pseq_run u(1) v(1))
  moreover have "peer_of v = peer_of u"
    using v(3) by (auto simp: hands_over_def peer_of_def)
  ultimately show ?thesis
    using u(2,3) v(2,3) fin by (auto simp: hands_over_def same_but_peers_def)
qed


subsection \<open>Properties\<close>

text \<open>The receiver's answer to a GET: the artifacts of all nodes.\<close>

definition snapshot_body :: "string \<Rightarrow> json list \<Rightarrow> json" where
  "snapshot_body sid entries = JObj [(''snapshot_id'', JStr sid), (''nodes'', JArr entries)]"

definition other_node :: "string \<Rightarrow> json \<Rightarrow> bool" where
  "other_node target entry \<longleftrightarrow>
     (case entry of JObj d \<Rightarrow> map_of d ''node'' \<noteq> Some (JStr target) | _ \<Rightarrow> False)"

lemma find_node_cut:
  assumes "list_all (other_node (container_id E')) before"
  shows "find_node (JStr (container_id E')) (before @ cut_artifact E' st i ps s r ch # rest)
    = Inr (Some (cut_artifact E' st i ps s r ch))"
  using assms
  by (induction before)
    (auto simp: other_node_def jget_def cut_artifact_def split: json.splits option.splits)

lemma restore_body_found:
  assumes "http_ok E (length (trace w))" and "CHECKPOINT_TARGET E = Some (container_id E')"
    and "http_body E (length (trace w)) = snapshot_body sid
      (before @ cut_artifact E' st i ps send recv ch # rest)"
    and "list_all (other_node (container_id E')) before"
  shows "restore_body E name w = restore_node E (cut_artifact E' st i ps send recv ch)
    ((emit (HttpReq (GetSnapshot name)) w)\<lparr>clock := clock w + http_ms E (length (trace w))\<rparr>)"
  by (simp add: restore_body_def pbind_pget pbind_Inr[where m = "http_call E r" for r, OF http_call_run]
      assms snapshot_body_def jget_def jiter_def checkpoint_target_json_def find_node_cut)

lemma restore_cut_run:
  assumes "idle w" and "\<forall>n. send_ok E n" and "http_ok E (length (trace w))"
    and "RESTORE_SNAPSHOT_ID E = Some (x # xs)" and "CHECKPOINT_TARGET E = Some (container_id E')"
    and "http_body E (length (trace w)) = snapshot_body sid
      (before @ cut_artifact E' st i ps send recv ch # rest)"
    and "list_all (other_node (container_id E')) before" and "finite ps"
    and "\<forall>p\<in>ps. \<forall>m\<in>set (ch p). \<not> starts_with MARKER (m_payload m)"
  shows "\<exists>v. restore_from_artifact E w = (Inr (), v)
    \<and> (\<forall>p. send_seq (peer_of v p) =
          (case if p \<in> ps then send p else None of None \<Rightarrow> send_seq (peer_of w p) | Some n \<Rightarrow> n))
    \<and> (\<forall>p. recv_seq (peer_of v p) =
          (case if p \<in> ps then recv p else None of None \<Rightarrow> recv_seq (peer_of w p) | Some n \<Rightarrow> n))
    \<and> delivered (trace v) = delivered (trace w)
        @ concat (map (\<lambda>p. replayed (p, ch p)) (sorted_list_of_set ps))
    \<and> (\<forall>p. unacked (peer_of v p) = unacked (peer_of w p))"
proof -
  let ?u = "(emit (HttpReq (GetSnapshot (x # xs))) w)\<lparr>clock := clock w + http_ms E (length (trace w))\<rparr>"
  let ?a = "cut_artifact E' st i ps send recv ch"
  have "idle ?u" using assms(1) by (simp add: idle_def)
  from restore_node_cut[OF this assms(2,8,9)] obtain v where
    v: "restore_node E ?a ?u = (Inr (), v)"
    "\<forall>p. peer_of v p = (if p \<in> ps then seeded (send p) (recv p) (peer_of ?u p) else peer_of ?u p)"
    "delivered (trace v) = delivered (trace ?u) @ concat (map (\<lambda>p. replayed (p, ch p)) (sorted_list_of_set ps))"
    by blast
  have "restore_body E (x # xs) w = (Inr (), v)"
    using v(1) by (simp add: restore_body_found[OF assms(3,5-7)])
  then have "restore_from_artifact E w = (Inr (), v)"
    by (simp add: restore_from_artifact_def assms(4) pcatch_def)
  then show ?thesis
    using v(2,3) by (intro exI[of _ v]) (simp add: seeded_def)
qed

text \<open>
  C5: A restored sidecar resumes at the recorded cut. Whatever artifacts of other nodes come
  first, it takes the one of its own container, seeds the send and receive coordinates of
  exactly the recorded peers, and delivers the recorded messages of every channel once, in
  sequence order, before anything else; the restore of an artifact of the recorder never
  fails.
\<close>

theorem restore_resumes_the_cut:
  assumes "idle w" and "\<forall>n. send_ok E n" and "http_ok E (length (trace w))"
    and "RESTORE_SNAPSHOT_ID E = Some (x # xs)" and "CHECKPOINT_TARGET E = Some (container_id E')"
    and "http_body E (length (trace w)) = snapshot_body sid
      (before @ cut_artifact E' st i ps send recv ch # rest)"
    and "list_all (other_node (container_id E')) before" and "finite ps"
    and "\<forall>p\<in>ps. \<forall>m\<in>set (ch p). \<not> starts_with MARKER (m_payload m)"
  shows "\<exists>v. restore_from_artifact E w = (Inr (), v)
    \<and> (\<forall>p. send_seq (peer_of v p) =
          (case if p \<in> ps then send p else None of None \<Rightarrow> send_seq (peer_of w p) | Some n \<Rightarrow> n))
    \<and> (\<forall>p. recv_seq (peer_of v p) =
          (case if p \<in> ps then recv p else None of None \<Rightarrow> recv_seq (peer_of w p) | Some n \<Rightarrow> n))
    \<and> delivered (trace v) = delivered (trace w)
        @ concat (map (\<lambda>p. replayed (p, ch p)) (sorted_list_of_set ps))"
  using restore_cut_run[OF assms] by blast

theorem restore_resumes_the_cut_witness:
  "\<exists>v. restore_from_artifact (demo_env\<lparr>RESTORE_SNAPSHOT_ID := Some ''s1'', http_body := (\<lambda>_.
        snapshot_body ''s1'' [cut_artifact demo_env ''complete'' ''s1'' {''10.24.24.11''} (\<lambda>_. Some 5)
          (\<lambda>_. Some 9) (\<lambda>_. [\<lparr>m_seq = 7, m_payload = ''hi'', m_src_port = 1, m_dst_port = 2,
            m_target_local_ip = ''10.24.24.10''\<rparr>])])\<rparr>) demo_world = (Inr (), v)
    \<and> send_seq (peer_of v ''10.24.24.11'') = 5 \<and> recv_seq (peer_of v ''10.24.24.11'') = 9
    \<and> delivered (trace v) = [(''hi'', ''10.24.24.10'', 2)]"
proof -
  let ?ch = "\<lambda>_. [\<lparr>m_seq = 7, m_payload = ''hi'', m_src_port = 1, m_dst_port = 2,
    m_target_local_ip = ''10.24.24.10''\<rparr>] :: recorded_msg list"
  let ?E = "demo_env\<lparr>RESTORE_SNAPSHOT_ID := Some ''s1'', http_body := (\<lambda>_.
        snapshot_body ''s1'' [cut_artifact demo_env ''complete'' ''s1'' {''10.24.24.11''} (\<lambda>_. Some 5)
          (\<lambda>_. Some 9) ?ch])\<rparr>"
  have "\<not> starts_with MARKER ''hi''" by (simp add: MARKER_def starts_with_def)
  then show ?thesis
    using restore_resumes_the_cut[OF demo_idle, of ?E "CHR ''s''" "''1''" demo_env "''s1''" "[]"
        "''complete''" "''s1''" "{''10.24.24.11''}" "\<lambda>_. Some 5" "\<lambda>_. Some 9" ?ch "[]"]
    by (auto simp: container_id_def replayed_def as_delivered_def)
qed

text \<open>
  C39: A recorded message survives the artifact: what is written as JSON, with its payload in
  base64, reads back as the same message for any payload bytes.
\<close>

theorem recorded_message_roundtrip: "read_msg (msg_json m) = Inr m"
  by simp

text \<open>A replay on a host that refuses the datagrams raises at the first recorded message.\<close>

lemma replay_peers_refused:
  assumes "idle w" and "\<forall>n. \<not> send_ok E n"
    and "\<forall>p\<in>set ps. \<forall>m\<in>set (ch p). \<not> starts_with MARKER (m_payload m)" and "\<exists>p\<in>set ps. ch p \<noteq> []"
  shows "\<exists>v. pfor (replay_peer E) (map (\<lambda>p. (p, cut_peer_json (s p) (r p) (ch p))) ps) w = (Inl OSError, v)
    \<and> hands_over w v []"
  using assms(3,4)
proof (induction ps)
  case (Cons p ps)
  show ?case
  proof (cases "sort_key m_seq (ch p)")
    case Nil
    then have "ch p = []" by (metis length_0_conv length_sort)
    with Nil Cons show ?thesis by (simp add: pseq_run replay_peer_json pret_run)
  next
    case (Cons m ms)
    then have "m \<in> set (ch p)" by (metis list.set_intros(1) set_sort)
    with Cons.prems(1) have m: "\<not> starts_with MARKER (m_payload m)" by simp
    obtain v where v: "spoof_deliver E (m_payload m) p (m_src_port m) (m_dst_port m) (m_target_local_ip m) w
        = (Inl OSError, v)" "hands_over w v []"
      by (rule spoof_deliver_refused[OF assms(2)])
    have "deliver_msg (process_and_deliver E) p m w = (Inl OSError, v)"
      using assms(1) m v(1) by (simp add: idle_def deliver_msg_def process_and_deliver_run process_message_pass)
    with Cons v(2) show ?thesis by (simp add: pseq_run replay_peer_json)
  qed
qed simp

text \<open>
  C36: A failed restore is swallowed halfway. When the host refuses the first recorded message,
  the restore raises, but nothing reaches the caller: the sidecar goes on, although none of the
  recorded messages has been delivered. The coordinates of the cut have been taken over all the
  same, so the peers will not send those messages again.
\<close>

theorem failed_replay_is_swallowed:
  assumes "idle w" and "\<forall>n. \<not> send_ok E n" and "http_ok E (length (trace w))"
    and "RESTORE_SNAPSHOT_ID E = Some (x # xs)" and "CHECKPOINT_TARGET E = Some (container_id E')"
    and "http_body E (length (trace w)) = snapshot_body sid
      (before @ cut_artifact E' st i ps send recv ch # rest)"
    and "list_all (other_node (container_id E')) before" and "finite ps"
    and "\<forall>p\<in>ps. \<forall>m\<in>set (ch p). \<not> starts_with MARKER (m_payload m)" and "\<exists>p\<in>ps. ch p \<noteq> []"
  shows "\<exists>v. restore_body E (x # xs) w = (Inl OSError, v) \<and> restore_from_artifact E w = (Inr (), v)
    \<and> (\<forall>p. send_seq (peer_of v p) =
          (case if p \<in> ps then send p else None of None \<Rightarrow> send_seq (peer_of w p) | Some n \<Rightarrow> n))
    \<and> (\<forall>p. recv_seq (peer_of v p) =
          (case if p \<in> ps then recv p else None of None \<Rightarrow> recv_seq (peer_of w p) | Some n \<Rightarrow> n))
    \<and> delivered (trace v) = delivered (trace w)"
proof -
  let ?w = "(emit (HttpReq (GetSnapshot (x # xs))) w)\<lparr>clock := clock w + http_ms E (length (trace w))\<rparr>"
  let ?ps = "sorted_list_of_set ps"
  let ?items = "map (\<lambda>p. (p, cut_peer_json (send p) (recv p) (ch p))) ?ps"
  obtain u where u: "pfor seed_peer ?items ?w = (Inr (), u)"
    "\<forall>p. peer_of u p = (if p \<in> set ?ps then seeded (send p) (recv p) (peer_of ?w p) else peer_of ?w p)"
    "same_but_peers ?w u" using seed_peers_json[of ?ps send recv ch ?w] by auto
  have "idle u" using assms(1) u(3) by (simp add: idle_def same_but_peers_def)
  from replay_peers_refused[OF this assms(2), of ?ps ch send recv] assms(8-10)
  obtain v where v: "pfor (replay_peer E) ?items u = (Inl OSError, v)" "hands_over u v []" by auto
  have "restore_body E (x # xs) w = (Inl OSError, v)"
    by (simp add: restore_body_found[OF assms(3,5-7)])
      (simp add: restore_node_def cut_artifact_def jget_def jitems_def pseq_run u(1) v(1))
  moreover have "restore_from_artifact E w = (Inr (), v)"
    using calculation by (simp add: restore_from_artifact_def assms(4) pcatch_def pret_run)
  moreover have "peer_of v = peer_of u" "delivered (trace v) = delivered (trace w)"
    using v(2) u(3) by (auto simp: hands_over_def peer_of_def same_but_peers_def)
  ultimately show ?thesis
    using u(2) assms(8) by (intro exI[of _ v]) (simp add: seeded_def)
qed

theorem failed_replay_is_swallowed_witness:
  "\<exists>E v. restore_from_artifact E demo_world = (Inr (), v) \<and> recv_seq (peer_of v ''10.24.24.11'') = 9
    \<and> delivered (trace v) = []"
proof -
  let ?ch = "\<lambda>_. [\<lparr>m_seq = 7, m_payload = ''hi'', m_src_port = 1, m_dst_port = 2,
    m_target_local_ip = ''10.24.24.10''\<rparr>] :: recorded_msg list"
  let ?E = "demo_env\<lparr>RESTORE_SNAPSHOT_ID := Some ''s1'', send_ok := (\<lambda>_. False), http_body := (\<lambda>_.
        snapshot_body ''s1'' [cut_artifact demo_env ''complete'' ''s1'' {''10.24.24.11''} (\<lambda>_. Some 5)
          (\<lambda>_. Some 9) ?ch])\<rparr>"
  have "\<not> starts_with MARKER ''hi''" by (simp add: MARKER_def starts_with_def)
  then show ?thesis
    using failed_replay_is_swallowed[OF demo_idle, of ?E "CHR ''s''" "''1''" demo_env "''s1''" "[]"
        "''complete''" "''s1''" "{''10.24.24.11''}" "\<lambda>_. Some 5" "\<lambda>_. Some 9" ?ch "[]"]
    by (intro exI[of _ ?E]) (auto simp: container_id_def)
qed

end
