(* ===== verification/Intercept.thy ===== *)
theory Intercept
  imports Tunnel Restore
begin

text \<open>
  The event handlers of \<open>MeshProxy\<close> that are not the tunnel's: the reader of the intercept
  socket, the body of the retransmission task, and the startup. With
  \<open>datagram_received\<close> they are everything the event loop calls.
\<close>

subsection \<open>The code\<close>

definition START :: bytes where "START = ''__START_SNAPSHOT__''"

definition start_id :: "env \<Rightarrow> bytes \<Rightarrow> world \<Rightarrow> bytes" where
  "start_id E data w =
     (if starts_with (START @ '':'') data then drop (length (START @ '':'')) data
      else new_uuid E (length (trace w)))"

definition handle_datagram :: "env \<Rightarrow> intercepted \<Rightarrow> unit act" where
  "handle_datagram E d =
     (case d of (data, ancdata, addr) \<Rightarrow>
        if starts_with START data then
          pbind (pget (start_id E data)) (\<lambda>snapshot_id.
            pseq (process_message E ''127.0.0.1'' 0 (MARKER @ snapshot_id) 0 0 ''127.0.0.1'')
              (pret ()))
        else forward_intercepted E data ancdata addr)"

text \<open>
  The recv loop. While it runs, the application goes on sending: \<open>feed\<close> are the batches of
  datagrams that arrive before its first, second, third call of \<open>recvmsg\<close>, and after the last
  batch the application pauses. The loop ends when it finds the socket empty. The natural number
  bounds its iterations: it takes one datagram per round, so one more than there are is enough
  (\<open>intercept_loop_bound\<close>). What arrives inside the drain of a marker is left to the next round.
\<close>

fun intercept_loop :: "env \<Rightarrow> intercepted list list \<Rightarrow> nat \<Rightarrow> unit act" where
  "intercept_loop E feed 0 = praise RecursionError"
| "intercept_loop E feed (Suc n) =
     pseq (pmod (\<lambda>w. w\<lparr>local_sock := local_sock w @ concat (take 1 feed)\<rparr>))
    (pbind recvmsg (\<lambda>d.
       case d of None \<Rightarrow> pret ()
       | Some x \<Rightarrow> pseq (handle_datagram E x) (intercept_loop E (drop 1 feed) n)))"

definition handle_local_intercept :: "env \<Rightarrow> intercepted list list \<Rightarrow> unit act" where
  "handle_local_intercept E feed =
     pbind (pget (\<lambda>w. length (local_sock w) + length (concat feed))) (\<lambda>n. intercept_loop E feed (Suc n))"

definition retransmit_tick :: "env \<Rightarrow> unit act" where
  "retransmit_tick E =
     pbind (pget clock) (\<lambda>now.
       pseq (check_timeout E (process_and_deliver E)) (retransmit_peers now))"

text \<open>
  \<open>start\<close> gives up control once, while it awaits the tunnel endpoint. By then the reader of the
  intercept socket is registered and runs whenever the socket is readable, so the parts before
  and after the await are two operations. The transport is set when the endpoint is made: asyncio
  calls \<open>connection_made\<close> before anything that a socket triggers.
\<close>

definition start_listening :: "env \<Rightarrow> unit act" where
  "start_listening E =
     pbind (self_mesh_ip E) (\<lambda>self_ip.
       pseq (pmod (\<lambda>w. w\<lparr>is_server := (case self_ip of None \<Rightarrow> False
               | Some ip \<Rightarrow> ip \<in> set (MESH_MEMBERS E))\<rparr>))
         (pmod (\<lambda>w. w\<lparr>tunnel_transport := True\<rparr>)))"

definition start_serving :: "env \<Rightarrow> unit act" where
  "start_serving E = restore_from_artifact E"

subsection \<open>The bound of the recv loop\<close>

context carried begin

lemma intercept_rule:
  assumes "\<And>ip seq p sp dp tip. preserves P (process_message E ip seq p sp dp tip)"
    and "\<And>w b. P w \<Longrightarrow> P (w\<lparr>local_sock := local_sock w @ b\<rparr>)"
  shows "preserves P (handle_local_intercept E feed)"
proof -
  have "preserves P (handle_datagram E d)" for d
    unfolding handle_datagram_def by (intro preserves_intro assms(1))
  then have "preserves P (intercept_loop E feed n)" for n
    by (induction n arbitrary: feed) (auto intro!: preserves_intro preserves_pmod assms(2))
  then show ?thesis unfolding handle_local_intercept_def by (intro preserves_intro)
qed

end

context stable begin

lemma handle_datagram_rule [preserves_intro]: "preserves P (handle_datagram E d)"
  unfolding handle_datagram_def process_message_def by (intro preserves_intro)

lemma handle_local_intercept_rule:
  "(\<And>w b. P w \<Longrightarrow> P (w\<lparr>local_sock := local_sock w @ b\<rparr>)) \<Longrightarrow> preserves P (handle_local_intercept E feed)"
  by (rule intercept_rule) (simp_all add: process_message_def process_message_n_rule)

lemma check_timeout_rule: "preserves P (check_timeout E (process_and_deliver E))"
  unfolding check_timeout_def by (intro preserves_intro finish_rule)

end

text \<open>One round of the loop on a socket with a datagram.\<close>

lemma intercept_round:
  assumes "local_sock w @ concat (take 1 feed) = d # q"
  shows "intercept_loop E feed (Suc n) w
    = pseq (handle_datagram E d) (intercept_loop E (drop 1 feed) n) (w\<lparr>local_sock := q\<rparr>)"
  using assms by (simp add: pseq_pmod recvmsg_def pbind_run py_run)

lemma intercept_pause:
  assumes "local_sock w @ concat (take 1 feed) = []"
  shows "intercept_loop E feed (Suc n) w = (Inr (), w)"
proof -
  have "w\<lparr>local_sock := []\<rparr> = w" using assms by simp
  with assms show ?thesis
    by (cases feed) (simp_all add: pseq_pmod recvmsg_def pbind_run pget_run pret_run)
qed

lemma length_feed: "length (concat (take 1 feed)) + length (concat (drop 1 feed)) = length (concat feed)"
  by (cases feed) simp_all

lemma intercept_loop_more:
  "length (local_sock w) + length (concat feed) \<le> n \<Longrightarrow>
   intercept_loop E feed (Suc (n + m)) w = intercept_loop E feed (Suc n) w"
proof (induction n arbitrary: w feed)
  case 0
  then have "local_sock w @ concat (take 1 feed) = []" by (cases feed) simp_all
  from intercept_pause[OF this] show ?case by (simp del: intercept_loop.simps)
next
  case (Suc n)
  show ?case
  proof (cases "local_sock w @ concat (take 1 feed)")
    case Nil
    from intercept_pause[OF this] show ?thesis by (simp del: intercept_loop.simps)
  next
    case (Cons d q)
    obtain r u where run: "handle_datagram E d (w\<lparr>local_sock := q\<rparr>) = (r, u)" by fastforce
    from preserves_runD[OF short.handle_datagram_rule _ run, of "length q"] have "length (local_sock u) \<le> length q" by simp
    moreover have "length q + length (concat (drop 1 feed)) \<le> n"
      using arg_cong[OF Cons, of length] Suc.prems length_feed[of feed] by simp
    ultimately have "length (local_sock u) + length (concat (drop 1 feed)) \<le> n" by linarith
    from Suc.IH[OF this] show ?thesis
      using intercept_round[OF Cons, of E "Suc (n + m)"] intercept_round[OF Cons, of E "Suc n"] run
      by (simp add: pseq_run del: intercept_loop.simps split: sum.split)
  qed
qed

lemma intercept_loop_bound:
  assumes "length (local_sock w) + length (concat feed) \<le> n"
  shows "intercept_loop E feed (Suc n) w = handle_local_intercept E feed w"
proof -
  obtain m where n: "n = length (local_sock w) + length (concat feed) + m" using assms le_Suc_ex by blast
  show ?thesis
    unfolding n handle_local_intercept_def pbind_pget by (rule intercept_loop_more) simp
qed

subsection \<open>An application that does not pause\<close>

definition plain_datagram :: "intercepted \<Rightarrow> bool" where
  "plain_datagram d \<longleftrightarrow> \<not> starts_with START (fst d)"

text \<open>The loop over the queue and a feed without pauses is the drain of both.\<close>

lemma intercept_loop_drains:
  assumes "list_all plain_datagram ds" and "list_all (\<lambda>b. b \<noteq> []) feed" and "ds = local_sock w @ concat feed"
    and "pfor (take_forward E) ds (w\<lparr>local_sock := ds\<rparr>) = (Inr (), v)"
  shows "intercept_loop E feed (Suc (length ds)) w = (Inr (), v)
    \<and> (\<forall>k\<le>length ds. fst (intercept_loop E feed k w) = Inl RecursionError)"
  using assms
proof (induction ds arbitrary: w feed)
  case Nil
  then have "w\<lparr>local_sock := []\<rparr> = w" by simp
  moreover have "feed = []" using Nil.prems(2,3) by (cases feed) auto
  ultimately show ?case
    using Nil intercept_pause[of w feed E 0] by (simp add: pret_run praise_run del: intercept_loop.simps(2))
next
  case (Cons d ds)
  obtain data anc addr where d: "d = (data, anc, addr)" by (cases d)
  have "local_sock w @ concat (take 1 feed) \<noteq> []" using Cons.prems(2,3) by (cases feed) auto
  then obtain d' q where q': "local_sock w @ concat (take 1 feed) = d' # q" by (metis neq_Nil_conv)
  have "d # ds = (local_sock w @ concat (take 1 feed)) @ concat (drop 1 feed)"
    using Cons.prems(3) by (cases feed) simp_all
  then have q: "local_sock w @ concat (take 1 feed) = d # q" and ds: "ds = q @ concat (drop 1 feed)"
    unfolding q' by simp_all
  have handle: "handle_datagram E d = forward_intercepted E data anc addr"
    using Cons.prems(1) by (simp add: d handle_datagram_def plain_datagram_def)
  obtain r u where fwd: "forward_intercepted E data anc addr (w\<lparr>local_sock := q\<rparr>) = (r, u)" by fastforce
  have uq: "local_sock u = q" using preserves_runD[OF forward_intercepted_queue _ fwd, of q] by simp
  have "forward_intercepted E data anc addr ((w\<lparr>local_sock := q\<rparr>)\<lparr>local_sock := ds\<rparr>) = (r, u\<lparr>local_sock := ds\<rparr>)"
    using forward_intercepted_blind fwd unfolding queue_blind_def by (metis fst_conv snd_conv)
  then have "take_forward E d (w\<lparr>local_sock := d # ds\<rparr>) = (r, u\<lparr>local_sock := ds\<rparr>)"
    by (simp add: take_forward_def d pseq_pmod)
  with Cons.prems(4) have r: "r = Inr ()" and rest: "pfor (take_forward E) ds (u\<lparr>local_sock := ds\<rparr>) = (Inr (), v)"
    by (auto simp: pseq_run split: sum.splits)
  have "list_all plain_datagram ds" "list_all (\<lambda>b. b \<noteq> []) (drop 1 feed)" "ds = local_sock u @ concat (drop 1 feed)"
    using Cons.prems(1,2) ds uq by (auto simp: list_all_iff dest: in_set_dropD)
  note IH = Cons.IH[OF this rest]
  have round: "intercept_loop E feed (Suc n) w = intercept_loop E (drop 1 feed) n u" for n
    using intercept_round[OF q, of E n] fwd r by (simp add: handle pseq_run del: intercept_loop.simps)
  show ?case
  proof (intro conjI allI impI)
    show "intercept_loop E feed (Suc (length (d # ds))) w = (Inr (), v)"
      using IH by (simp add: round del: intercept_loop.simps)
    fix k assume "k \<le> length (d # ds)"
    then show "fst (intercept_loop E feed k w) = Inl RecursionError"
      using IH by (cases k) (simp_all add: round praise_run del: intercept_loop.simps(2))
  qed
qed

lemma intercept_drains:
  assumes "list_all plain_datagram (local_sock w @ concat feed)" and "list_all (\<lambda>b. b \<noteq> []) feed"
    and "drain_intercept E (w\<lparr>local_sock := local_sock w @ concat feed\<rparr>) = (Inr (), v)"
  shows "handle_local_intercept E feed w = (Inr (), v)"
    and "k \<le> length (local_sock w) + length (concat feed) \<Longrightarrow> fst (intercept_loop E feed k w) = Inl RecursionError"
proof -
  have "pfor (take_forward E) (local_sock w @ concat feed) (w\<lparr>local_sock := local_sock w @ concat feed\<rparr>) = (Inr (), v)"
    using assms(3) by (simp add: drain_intercept_pfor)
  from intercept_loop_drains[OF assms(1,2) refl this]
  show "handle_local_intercept E feed w = (Inr (), v)"
    and "k \<le> length (local_sock w) + length (concat feed) \<Longrightarrow> fst (intercept_loop E feed k w) = Inl RecursionError"
    using intercept_loop_bound[OF order_refl, where w = w and feed = feed and E = E] by (simp_all del: intercept_loop.simps)
qed

subsection \<open>Properties\<close>

text \<open>
  C34: The callback of the intercept socket lasts as long as the application keeps sending. If
  at least one datagram arrives before every further receive, the loop forwards all of them, in
  order, exactly as one drain of the queue followed by everything that arrived, and no smaller
  number of rounds ends it: there is no bound of its own. In the meantime the event loop runs
  nothing else, neither retransmission nor a timeout.
\<close>

theorem busy_application_holds_the_loop:
  assumes "list_all plain_datagram (local_sock w @ concat feed)" and "list_all (\<lambda>b. b \<noteq> []) feed"
    and "drain_intercept E (w\<lparr>local_sock := local_sock w @ concat feed\<rparr>) = (Inr (), v)"
  shows "handle_local_intercept E feed w = (Inr (), v)
    \<and> (\<forall>k\<le>length (local_sock w) + length (concat feed). fst (intercept_loop E feed k w) = Inl RecursionError)"
  using intercept_drains[OF assms] by blast

theorem busy_application_holds_the_loop_witness:
  "fst (intercept_loop demo_env (replicate 9 [(''x'', [], (''10.24.24.10'', 5))]) 9 demo_world) = Inl RecursionError
    \<and> (\<exists>v. handle_local_intercept demo_env (replicate 9 [(''x'', [], (''10.24.24.10'', 5))]) demo_world = (Inr (), v))"
proof -
  let ?d = "(''x'', [], (''10.24.24.10'', 5)) :: intercepted" and ?feed = "replicate 9 [(''x'', [], (''10.24.24.10'', 5))] :: intercepted list list"
  have concat: "concat ?feed = replicate 9 ?d" by (simp add: numeral_eq_Suc)
  have take: "take_forward demo_env ?d w = (Inr (), w\<lparr>local_sock := tl (local_sock w)\<rparr>)" for w
    by (simp add: take_forward_def pseq_pmod forward_intercepted_def pret_run)
  have "\<exists>v. pfor (take_forward demo_env) (replicate n ?d) w = (Inr (), v)" for n w
    by (induction n arbitrary: w) (simp_all add: pret_run pseq_run take)
  then obtain v where "drain_intercept demo_env (demo_world\<lparr>local_sock := local_sock demo_world @ concat ?feed\<rparr>) = (Inr (), v)"
    unfolding concat by (auto simp: drain_intercept_pfor simp del: replicate.simps)
  moreover have "list_all plain_datagram (local_sock demo_world @ concat ?feed)" "list_all (\<lambda>b. b \<noteq> []) ?feed"
    unfolding concat by (simp_all add: list_all_iff plain_datagram_def START_def starts_with_def)
  ultimately show ?thesis
    using busy_application_holds_the_loop[of demo_world ?feed demo_env v]
    by (auto simp del: intercept_loop.simps replicate.simps simp: concat)
qed

end
