(* ===== verification/Sidecar.thy ===== *)
theory Sidecar
  imports Intercept
begin

text \<open>
  The sidecar as a state machine: what the event loop may call next, in any order, on any
  input. The invariants hold in every reachable state, also after handlers that raised.
\<close>

subsection \<open>What the packet handler carries\<close>

text \<open>
  A carried property that also survives a delivery, a move of the receive position and an
  acknowledgement is kept by the whole handler of tunnel packets.
\<close>

definition rx_move :: "(peer_state \<Rightarrow> peer_state) \<Rightarrow> bool" where
  "rx_move f \<longleftrightarrow> (\<forall>p. send_seq (f p) = send_seq p \<and> unacked (f p) = unacked p)"

lemma rx_moves [simp]:
  "rx_move (\<lambda>p. p\<lparr>recv_seq := recv_seq p + 1\<rparr>)"
  "rx_move (\<lambda>p. p\<lparr>recv_buffer := AList.delete k (recv_buffer p)\<rparr>)"
  "rx_move (\<lambda>p. p\<lparr>recv_buffer := AList.update k m (recv_buffer p)\<rparr>)"
  by (simp_all add: rx_move_def)

locale receiving = carried +
  fixes E :: env
  assumes carry_deliver: "preserves P (process_and_deliver E seq p ip sp dp tip)"
    and carry_rx: "P w \<Longrightarrow> rx_move f \<Longrightarrow> P (upd_peer ip f w)"
    and carry_ack: "P w \<Longrightarrow> P (upd_peer ip (\<lambda>p. p\<lparr>unacked := AList.delete k (unacked p)\<rparr>) w)"
begin

lemma rx_rule [preserves_intro]: "rx_move f \<Longrightarrow> preserves P (pmod (upd_peer ip f))"
  by (rule preserves_pmod) (rule carry_rx)

lemma flush_loop_rule: "preserves P (flush_loop E n ip)"
  by (induction n)
    (auto intro!: preserves_intro carry_deliver simp: bump_recv_seq_def split: prod.split)

lemma in_order_rule: "preserves P (in_order E ip seq m)"
  unfolding in_order_def flush_buffer_def bump_recv_seq_def
  by (intro preserves_intro carry_deliver flush_loop_rule) simp_all

lemma receive_ack_rule: "preserves P (receive_ack data ip)"
  unfolding receive_ack_def by (intro preserves_intro preserves_pmod carry_ack)

lemma datagram_received_rule: "preserves P (datagram_received E data ip)"
  unfolding datagram_received_def receive_data_def receive_plain_def Let_def
  by (intro preserves_intro in_order_rule receive_ack_rule)

end

subsection \<open>The receive side\<close>

definition rx_ok :: "world \<Rightarrow> bool" where
  "rx_ok w \<longleftrightarrow> (\<forall>ip. rx_inv (rx_of w ip))"

lemma rx_ok_still: "still v = still w \<Longrightarrow> rx_ok v = rx_ok w"
  by (simp add: rx_ok_def still_def)

text \<open>The position may also stand one past a popped entry: the state inside the flush loop.\<close>

definition rx_mid :: "int \<times> (int \<times> 'm) list \<Rightarrow> bool" where
  "rx_mid r \<longleftrightarrow> distinct (map fst (snd r)) \<and> (\<forall>k\<in>set (map fst (snd r)). fst r \<le> k)"

lemma rx_mid_popped: "rx_mid (n, buf) \<Longrightarrow> rx_inv (n, AList.delete n buf)"
proof -
  assume "rx_mid (n, buf)"
  moreover have "set (map fst (AList.delete n buf)) = set (map fst buf) - {n}"
    by (rule pydict.set_keys_del)
  ultimately show ?thesis
    by (auto simp: rx_inv_def rx_mid_def simp del: set_map)
qed

lemma rx_mid_next: "rx_inv (n, buf) \<Longrightarrow> rx_mid (n + 1, buf)"
  by (auto simp: rx_inv_def rx_mid_def)

lemma releases_inv:
  assumes "rx_of w ip = (n, buf)" and "rx_mid (n, buf)"
    and "pfor (release E ip) (snd (rx_flush n buf)) w = (r, v)"
  shows "rx_inv (rx_of v ip) \<and> (\<forall>jp. jp \<noteq> ip \<longrightarrow> rx_of v jp = rx_of w jp)"
  using assms
proof (induction n buf arbitrary: w rule: rx_flush.induct)
  case (1 n buf)
  show ?case
  proof (cases "map_of buf n")
    case None
    have "n \<notin> set (map fst buf)" using None unfolding pydict.set_keys by auto
    then have "rx_inv (n, buf)"
      using 1(3) unfolding rx_inv_def rx_mid_def by (metis fst_conv order_le_less snd_conv)
    with 1 None show ?thesis by (auto simp: rx_flush_None pret_run)
  next
    case (Some m)
    let ?w = "pop ip n w"
    obtain q u where arr: "arrive E (to_arrival ip (n, m)) ?w = (q, u)" by fastforce
    have u: "rx_of u = rx_of ?w" using arrive_rx[OF arr] by simp
    have inv: "rx_inv (n, AList.delete n buf)" by (rule rx_mid_popped[OF 1(3)])
    show ?thesis
    proof (cases q)
      case (Inl e)
      with arr have "release E ip (n, m) w = (Inl e, u)" by (simp add: release_run)
      with 1(4) have "v = u" by (simp add: rx_flush_Some[OF Some] pseq_run)
      then show ?thesis using inv u 1(2) by simp
    next
      case (Inr y)
      let ?u = "upd_peer ip (\<lambda>p. p\<lparr>recv_seq := recv_seq p + 1\<rparr>) u"
      have rest: "pfor (release E ip) (snd (rx_flush (n + 1) (AList.delete n buf))) ?u = (r, v)"
      proof -
        have "release E ip (n, m) w = (Inr (), ?u)" using arr Inr by (simp add: release_run)
        with 1(4) show ?thesis by (simp add: rx_flush_Some[OF Some] pseq_run)
      qed
      have "rx_of ?u ip = (n + 1, AList.delete n buf)" using u 1(2) by simp
      from 1(1)[OF Some this rx_mid_next[OF inv] rest] u show ?thesis by simp
    qed
  qed
qed

lemma in_order_rx_ok:
  assumes ip: "ip \<in> set (map fst (peers w))" and ok: "rx_ok w"
  shows "rx_ok (snd (in_order E ip seq m w))"
proof -
  obtain n buf where rx: "rx_of w ip = (n, buf)" by fastforce
  have inv: "rx_inv (rx_of w ip)" using ok by (simp add: rx_ok_def)
  note run = in_order_run[OF ip inv, of E seq m]
  consider "seq < n" | "seq = n" | "n < seq" by linarith
  then show ?thesis
  proof cases
    case 1
    then show ?thesis using ok by (simp add: run rx rx_accept_simps pret_run)
  next
    case 2
    let ?w = "pop ip n w"
    obtain q u where arr: "arrive E (to_arrival ip (n, m)) ?w = (q, u)" by fastforce
    have u: "rx_of u = rx_of ?w" using arrive_rx[OF arr] by simp
    have "rx_mid (n, buf)" using inv by (auto simp: rx rx_inv_def rx_mid_def)
    then have inv': "rx_inv (n, AList.delete n buf)" by (rule rx_mid_popped)
    have del: "AList.delete n buf = buf"
      by (rule AList.delete_id) (use inv in \<open>auto simp: rx rx_inv_def\<close>)
    show ?thesis
    proof (cases q)
      case (Inl e)
      with arr have "release E ip (n, m) w = (Inl e, u)" by (simp add: release_run)
      then have "snd (in_order E ip seq m w) = u"
        unfolding 2 by (simp add: run[unfolded 2] rx rx_accept_simps pseq_run)
      then show ?thesis using inv' u rx ok by (simp add: rx_ok_def)
    next
      case (Inr y)
      let ?u = "upd_peer ip (\<lambda>p. p\<lparr>recv_seq := recv_seq p + 1\<rparr>) u"
      obtain r v where rest: "pfor (release E ip) (snd (rx_flush (n + 1) buf)) ?u = (r, v)" by fastforce
      have "release E ip (n, m) w = (Inr (), ?u)" using arr Inr by (simp add: release_run)
      then have "snd (in_order E ip seq m w) = v"
        unfolding 2 using rest by (simp add: run[unfolded 2] rx rx_accept_simps pseq_run)
      moreover have "rx_of ?u ip = (n + 1, buf)" using u rx del by simp
      from releases_inv[OF this rx_mid_next rest] inv rx
      have "rx_inv (rx_of v ip) \<and> (\<forall>jp. jp \<noteq> ip \<longrightarrow> rx_of v jp = rx_of w jp)" using u by simp
      ultimately show ?thesis using ok by (auto simp: rx_ok_def)
    qed
  next
    case 3
    have "rx_inv (fst (rx_accept (seq, m) (rx_of w ip)))" by (rule rx.inv_accept[OF inv])
    then show ?thesis
      using 3 ok by (auto simp: run rx rx_accept_simps rx_ok_def)
  qed
qed

lemma in_order_inv: "preserves world_inv (in_order E ip seq m)"
proof -
  have upd: "preserves world_inv (pmod (upd_peer ip f))" if "\<And>p. peer_ok p \<Longrightarrow> peer_ok (f p)" for f
    by (rule preserves_pmod) (use that in \<open>auto simp: world_inv_def intro: base_inv_upd_peer\<close>)
  have bump: "preserves world_inv (bump_recv_seq ip)"
    unfolding bump_recv_seq_def by (rule upd) (simp add: peer_ok_def)
  have flush: "preserves world_inv (flush_loop E n ip)" for n
    by (induction n)
      (auto intro!: preserves_intro process_and_deliver_inv bump upd simp: peer_ok_def split: prod.split)
  show ?thesis
    unfolding in_order_def flush_buffer_def
    by (intro preserves_intro process_and_deliver_inv bump flush upd) (auto simp: peer_ok_def)
qed

lemma datagram_received_inv: "preserves world_inv (datagram_received E data ip)"
proof -
  have ack: "preserves world_inv (pmod (upd_peer ip (\<lambda>p. p\<lparr>unacked := AList.delete s (unacked p)\<rparr>)))" for s
    by (rule preserves_pmod) (auto simp: world_inv_def peer_ok_def intro!: base_inv_upd_peer)
  show ?thesis
    unfolding datagram_received_def receive_data_def receive_plain_def receive_ack_def Let_def
    by (intro preserves_intro in_order_inv ack preserves_frameD(2)[OF get_peer_frame]
        preserves_frameD(2)[OF tunnel_sendto_frame] preserves_frameD(2)[OF get_spoof_sock_frame]
        preserves_frameD(2)[OF spoof_sendto_frame])
qed

subsection \<open>The sending side\<close>

text \<open>
  Every packet that waits for its acknowledgement is filed under the sequence number in its
  own header, and no number from \<open>send_seq\<close> on has been used.
\<close>

definition frame_seq :: "bytes \<Rightarrow> int" where
  "frame_seq pk = be_int (take 8 (drop 1 pk))"

definition entry_ok :: "int \<Rightarrow> int \<times> (int \<times> bytes) \<Rightarrow> bool" where
  "entry_ok n e \<longleftrightarrow> fst e < n \<and> frame_seq (snd (snd e)) = fst e"

definition tx_ok :: "world \<Rightarrow> bool" where
  "tx_ok w \<longleftrightarrow> (\<forall>ip. list_all (entry_ok (send_seq (peer_of w ip))) (unacked (peer_of w ip)))"

lemma entry_ok_mono: "list_all (entry_ok n) d \<Longrightarrow> n \<le> m \<Longrightarrow> list_all (entry_ok m) d"
  by (auto simp: list_all_iff entry_ok_def)

lemma frame_seq_packed:
  assumes "data_header_pack (ty, seq, sp, dp, tip) = Inr header"
  shows "frame_seq (header @ p) = seq"
proof -
  have "header = be_bytes 1 ty @ be_bytes 8 seq @ be_bytes 2 sp @ be_bytes 2 dp @ pack_4s tip"
    and "is_uint 8 seq"
    using assms by (auto simp: pack_uint_Inr_iff split: sum.splits)
  then show ?thesis by (simp add: frame_seq_def)
qed

interpretation tx: stable tx_ok
proof unfold_locales
  fix w ip sp dp tip header payload
  assume w: "tx_ok w" and h: "data_header_pack (0, send_seq (peer_of w ip), sp, dp, tip) = Inr header"
  let ?p = "peer_of w ip"
  have old: "list_all (entry_ok (send_seq ?p + 1)) (unacked ?p)"
    by (rule entry_ok_mono[of "send_seq ?p"]) (use w in \<open>simp_all add: tx_ok_def\<close>)
  have "entry_ok (send_seq ?p + 1) (send_seq ?p, clock w, header @ payload)"
    using frame_seq_packed[OF h] by (simp add: entry_ok_def)
  then have "list_all (entry_ok (send_seq ?p + 1))
      (AList.update (send_seq ?p) (clock w, header @ payload) (unacked ?p))"
    using list_all_update[OF old] by blast
  then show "tx_ok (sent_data ip (header @ payload) w)" using w by (simp add: tx_ok_def)
qed (simp_all add: tx_ok_def)

text \<open>The part of it that also survives a restore over a table that is already in use.\<close>

definition framed :: "world \<Rightarrow> bool" where
  "framed w \<longleftrightarrow> (\<forall>ip. list_all (\<lambda>e. frame_seq (snd (snd e)) = fst e) (unacked (peer_of w ip)))"

lemma tx_ok_framed: "tx_ok w \<Longrightarrow> framed w"
  by (auto simp: tx_ok_def framed_def entry_ok_def list_all_iff)

interpretation fr: stable framed
proof unfold_locales
  fix w ip sp dp tip header payload
  assume w: "framed w" and h: "data_header_pack (0, send_seq (peer_of w ip), sp, dp, tip) = Inr header"
  let ?p = "peer_of w ip"
  have "list_all (\<lambda>e. frame_seq (snd (snd e)) = fst e) (unacked ?p)" using w by (simp add: framed_def)
  from list_all_update[OF this, of "send_seq ?p" "(clock w, header @ payload)"] frame_seq_packed[OF h] w
  show "framed (sent_data ip (header @ payload) w)" by (simp add: framed_def)
qed (simp_all add: framed_def)

lemma framed_peers: "(\<And>ip. set (unacked (peer_of v ip)) \<subseteq> set (unacked (peer_of w ip)))
    \<Longrightarrow> framed w \<Longrightarrow> framed v"
  unfolding framed_def list_all_iff by (metis subsetD)

interpretation fr_receiving: receiving framed E for E
proof unfold_locales
  fix w ip f k
  assume w: "framed w"
  show "framed (upd_peer ip f w)" if "rx_move f"
    by (rule framed_peers[OF _ w]) (use that in \<open>simp add: rx_move_def\<close>)
  show "framed (upd_peer ip (\<lambda>p. p\<lparr>unacked := AList.delete k (unacked p)\<rparr>) w)"
    by (rule framed_peers[OF _ w]) (auto simp: AList.delete_eq)
qed (rule fr.process_and_deliver_rule)

lemma tx_ok_peers: "(\<And>ip. send_seq (peer_of v ip) = send_seq (peer_of w ip)
    \<and> set (unacked (peer_of v ip)) \<subseteq> set (unacked (peer_of w ip))) \<Longrightarrow> tx_ok w \<Longrightarrow> tx_ok v"
  unfolding tx_ok_def list_all_iff by (metis subsetD)

interpretation tx_receiving: receiving tx_ok E for E
  by unfold_locales
    (auto simp: rx_move_def tx_ok_def list_all_iff AList.delete_eq intro: tx.process_and_deliver_rule)

lemma receive_ack_rx: "rx_ok w \<Longrightarrow> rx_ok (snd (receive_ack data ip w))"
  by (auto simp: receive_ack_def pbind_run plift_run pmod_run pret_run rx_ok_def rx_of_def
      split: sum.split prod.split)

lemma datagram_received_rx:
  assumes "rx_ok w"
  shows "rx_ok (snd (datagram_received E data ip w))"
proof -
  let ?u = "ensured ip w"
  have u: "rx_ok ?u" "ip \<in> set (map fst (peers ?u))"
    using assms by (simp add: rx_ok_def, simp add: keys_ensured del: set_map)
  have data: "rx_ok (snd (receive_data E data ip ?u))"
  proof -
    have e: "rx_ok (emit ev ?u)" "ip \<in> set (map fst (peers (emit ev ?u)))" for ev
      using u by (simp_all add: rx_ok_def)
    show ?thesis
      using u(1) in_order_rx_ok[OF e(2,1)]
      by (auto simp: receive_data_def pbind_run plift_run pret_run pseq_run tunnel_sendto_def pget_run
          pmod_run praise_run split: sum.split prod.split simp del: ack_header_pack.simps)
  qed
  have plain: "rx_ok (snd (receive_plain E data ip ?u))"
  proof -
    have "preserves (\<lambda>w. still w = still ?u) (receive_plain E data ip)"
      unfolding receive_plain_def by (intro preserves_intro still.primitives still.get_spoof_sock_rule)
    from preservesD[OF this refl] u(1) show ?thesis using rx_ok_still by blast
  qed
  show ?thesis
    using u(1) data plain receive_ack_rx
    by (simp add: datagram_received_def pseq_run get_peer_run pret_run Let_def)
qed

subsection \<open>The other handlers\<close>

definition sidecar_ok :: "world \<Rightarrow> bool" where
  "sidecar_ok w \<longleftrightarrow> world_inv w \<and> rx_ok w \<and> tx_ok w \<and> tunnel_transport w"

text \<open>What holds also of a restoring sidecar that was disturbed.\<close>

definition core_ok :: "world \<Rightarrow> bool" where
  "core_ok w \<longleftrightarrow> world_inv w \<and> framed w \<and> tunnel_transport w"

lemma sidecar_core: "sidecar_ok w \<Longrightarrow> core_ok w"
  by (simp add: sidecar_ok_def core_ok_def tx_ok_framed)

interpretation up: stable tunnel_transport
  by unfold_locales (simp_all del: data_header_pack.simps)

lemma preserves_rx: "(\<And>s. preserves (\<lambda>w. still w = s) m) \<Longrightarrow> preserves rx_ok m"
proof (rule preservesI)
  fix w assume m: "\<And>s. preserves (\<lambda>w. still w = s) m" and w: "rx_ok w"
  from preservesD[OF m refl] w show "rx_ok (snd (m w))" using rx_ok_still by blast
qed

lemma preserves_sidecar:
  assumes "preserves world_inv m" and "preserves rx_ok m" and "preserves tx_ok m"
    and "preserves tunnel_transport m"
  shows "preserves sidecar_ok m"
  using assms by (simp add: preserves_def sidecar_ok_def)

lemma preserves_core:
  assumes "preserves world_inv m" and "preserves framed m" and "preserves tunnel_transport m"
  shows "preserves core_ok m"
  using assms by (simp add: preserves_def core_ok_def)

interpretation up_receiving: receiving tunnel_transport E for E
  by unfold_locales (simp_all add: up.process_and_deliver_rule)

lemma datagram_received_ok: "preserves sidecar_ok (datagram_received E data ip)"
proof (rule preserves_sidecar)
  show "preserves rx_ok (datagram_received E data ip)"
    by (rule preservesI) (rule datagram_received_rx)
qed (rule datagram_received_inv tx_receiving.datagram_received_rule
    up_receiving.datagram_received_rule)+

lemma datagram_received_core: "preserves core_ok (datagram_received E data ip)"
  by (rule preserves_core)
    (rule datagram_received_inv fr_receiving.datagram_received_rule up_receiving.datagram_received_rule)+

lemma handle_datagram_inv: "preserves world_inv (handle_datagram E d)"
  unfolding handle_datagram_def process_message_def
  by (intro preserves_intro process_message_n_inv preserves_frameD(2)[OF forward_intercepted_frame])

lemma handle_local_intercept_inv: "preserves world_inv (handle_local_intercept E feed)"
proof -
  have "preserves world_inv (intercept_loop E feed n)" for n
    by (induction n arbitrary: feed)
      (auto intro!: preserves_intro handle_datagram_inv preserves_frameD(2)[OF recvmsg_frame] preserves_pmod
        simp: world_inv_def)
  then show ?thesis unfolding handle_local_intercept_def by (intro preserves_intro)
qed

lemma handle_local_intercept_up: "preserves tunnel_transport (handle_local_intercept E feed)"
  by (rule up.handle_local_intercept_rule) simp

lemma handle_local_intercept_ok: "preserves sidecar_ok (handle_local_intercept E feed)"
proof (rule preserves_sidecar)
  show "preserves rx_ok (handle_local_intercept E feed)"
    by (rule preserves_rx) (rule still.handle_local_intercept_rule, simp)
  show "preserves tx_ok (handle_local_intercept E feed)"
    by (rule tx.handle_local_intercept_rule) (simp add: tx_ok_def)
qed (rule handle_local_intercept_inv handle_local_intercept_up)+

lemma handle_local_intercept_core: "preserves core_ok (handle_local_intercept E feed)"
proof (rule preserves_core)
  show "preserves framed (handle_local_intercept E feed)"
    by (rule fr.handle_local_intercept_rule) (simp add: framed_def)
qed (rule handle_local_intercept_inv handle_local_intercept_up)+

lemma check_timeout_ok: "preserves sidecar_ok (check_timeout E (process_and_deliver E))"
proof (rule preserves_sidecar)
  show "preserves rx_ok (check_timeout E (process_and_deliver E))"
    by (rule preserves_rx) (rule still.check_timeout_rule)
qed (rule check_timeout_inv[OF process_and_deliver_inv] tx.check_timeout_rule up.check_timeout_rule)+

lemma check_timeout_core: "preserves core_ok (check_timeout E (process_and_deliver E))"
  by (rule preserves_core)
    (rule check_timeout_inv[OF process_and_deliver_inv] fr.check_timeout_rule up.check_timeout_rule)+

text \<open>The state after a retransmission pass.\<close>

definition retransmitted :: "int \<Rightarrow> world \<Rightarrow> world" where
  "retransmitted now w = w\<lparr>peers := map (refresh_peer now) (peers w),
     trace := trace w @ concat (map (resends now) (peers w))\<rparr>"

lemma peer_in_peers:
  assumes "x \<in> set (peers w)" and "distinct (map fst (peers w))"
  shows "peer_of w (fst x) = snd x"
proof -
  obtain ip p where x: "x = (ip, p)" by (cases x)
  with assms have "map_of (peers w) ip = Some p" by (simp add: map_of_is_SomeI)
  with x show ?thesis by (simp add: peer_of_def)
qed

lemma retransmit_run:
  assumes "core_ok w"
  shows "retransmit_peers now w = (Inr (), retransmitted now w)"
proof -
  have inv: "peers_inv w" using assms by (simp add: core_ok_def world_inv_def base_inv_def)
  have "distinct (map fst (unacked (snd x)))" if "x \<in> set (peers w)" for x
    using inv peer_in_peers[OF that] by (metis peer_ok_def peers_inv_def)
  with assms inv show ?thesis
    unfolding retransmitted_def
    by (intro retransmit_peers_run) (simp_all add: core_ok_def peers_inv_def)
qed

lemma peer_of_retransmitted:
  "peer_of (retransmitted now w) ip
    = (peer_of w ip)\<lparr>unacked := map (refresh now) (unacked (peer_of w ip))\<rparr>"
proof -
  have "map_of (map (refresh_peer now) d) ip
      = map_option (\<lambda>p. p\<lparr>unacked := map (refresh now) (unacked p)\<rparr>) (map_of d ip)" for d
    by (induction d) (auto simp: refresh_peer_def)
  then show ?thesis
    by (simp add: peer_of_def retransmitted_def PeerState_def split: option.split)
qed

lemma live_socks_tunnel:
  "(\<forall>e\<in>set evs. \<exists>p ip. e = TunnelSend p ip) \<Longrightarrow> live_socks (es @ evs) = live_socks es"
  by (induction evs rule: rev_induct) (auto simp flip: append_assoc)

lemma resends_tunnel: "e \<in> set (resends now x) \<Longrightarrow> \<exists>p ip. e = TunnelSend p ip"
  by (auto simp: resends_def split: if_splits)

lemma keys_refresh: "map fst (map (refresh_peer now) d) = map fst d"
  "map fst (map (refresh now) es) = map fst es"
  by (simp_all add: refresh_peer_def refresh_def)

lemma entry_ok_refresh: "entry_ok n (refresh now e) = entry_ok n e"
  by (simp add: entry_ok_def refresh_def)

lemma retransmitted_core:
  assumes "core_ok w"
  shows "core_ok (retransmitted now w)"
proof -
  let ?v = "retransmitted now w"
  have w: "spoof_inv w" "peers_inv w" "ctrl_ok (snapshot_ctrl w)" "framed w" "tunnel_transport w"
    using assms by (simp_all add: core_ok_def world_inv_def base_inv_def)
  have "spoof_inv ?v = spoof_inv w"
    by (rule spoof_inv_cong)
      (auto simp: retransmitted_def intro!: live_socks_tunnel dest: resends_tunnel)
  moreover have "peers_inv ?v"
    using w(2) by (simp add: peers_inv_def peer_of_retransmitted peer_ok_def keys_refresh del: map_map)
      (simp add: retransmitted_def keys_refresh del: map_map)
  moreover have "framed ?v"
    using w(4) by (simp add: framed_def peer_of_retransmitted list.pred_map comp_def refresh_def)
  ultimately show ?thesis
    using w by (simp add: core_ok_def world_inv_def base_inv_def)
      (simp add: retransmitted_def)
qed

lemma retransmitted_ok:
  assumes "sidecar_ok w"
  shows "sidecar_ok (retransmitted now w)"
proof -
  let ?v = "retransmitted now w"
  have w: "rx_ok w" "tx_ok w" using assms by (simp_all add: sidecar_ok_def)
  have "rx_ok ?v" using w(1) by (simp add: rx_ok_def rx_of_def peer_of_retransmitted)
  moreover have "tx_ok ?v"
    using w(2) by (simp add: tx_ok_def peer_of_retransmitted list.pred_map comp_def entry_ok_refresh)
  ultimately show ?thesis
    using retransmitted_core[OF sidecar_core[OF assms]] by (simp add: sidecar_ok_def core_ok_def)
qed

lemma retransmit_tick_ok: "preserves sidecar_ok (retransmit_tick E)"
proof -
  have "preserves sidecar_ok (retransmit_peers now)" for now
    by (rule preservesI) (simp add: retransmit_run sidecar_core retransmitted_ok)
  then show ?thesis
    unfolding retransmit_tick_def by (intro preserves_intro check_timeout_ok)
qed

lemma retransmit_tick_core: "preserves core_ok (retransmit_tick E)"
proof -
  have "preserves core_ok (retransmit_peers now)" for now
    by (rule preservesI) (simp add: retransmit_run retransmitted_core)
  then show ?thesis
    unfolding retransmit_tick_def by (intro preserves_intro check_timeout_core)
qed

subsection \<open>Startup\<close>

text \<open>Before the first replay, nothing is buffered and nothing waits for an acknowledgement.\<close>

definition fresh :: "world \<Rightarrow> bool" where
  "fresh w \<longleftrightarrow> world_inv w \<and> tunnel_transport w
     \<and> (\<forall>ip. unacked (peer_of w ip) = [] \<and> recv_buffer (peer_of w ip) = [])"

lemma fresh_ok: "fresh w \<Longrightarrow> sidecar_ok w"
  by (simp add: fresh_def sidecar_ok_def rx_ok_def rx_of_def rx_inv_def tx_ok_def)

lemma process_and_deliver_ok: "preserves sidecar_ok (process_and_deliver E seq p ip sp dp tip)"
proof (rule preserves_sidecar)
  show "preserves rx_ok (process_and_deliver E seq p ip sp dp tip)"
    by (rule preserves_rx) (rule still.process_and_deliver_rule)
qed (rule process_and_deliver_inv tx.process_and_deliver_rule up.process_and_deliver_rule)+

lemma seed_peer_fresh: "preserves fresh (seed_peer x)"
proof -
  have get: "preserves fresh (get_peer ip)" for ip
    unfolding get_peer_pmod by (rule preserves_pmod) (simp add: fresh_def world_inv_def)
  have upd: "preserves fresh (pmod (upd_peer ip (\<lambda>p. p\<lparr>send_seq := n\<rparr>)))"
    "preserves fresh (pmod (upd_peer ip (\<lambda>p. p\<lparr>recv_seq := n\<rparr>)))" for ip n
    by (rule preserves_pmod, simp add: fresh_def world_inv_def base_inv_seed)+
  show ?thesis
    unfolding seed_peer_def seed_field_def by (intro preserves_intro get upd)
qed

lemma restore_node_fresh: "leads fresh (restore_node E node) sidecar_ok"
proof -
  have replay: "preserves sidecar_ok (replay_peer E x)" for x
    unfolding replay_peer_def replay_entry_def deliver_msg_def
    by (intro preserves_intro process_and_deliver_ok)
  have "preserves sidecar_ok (pfor (replay_peer E) ps)" for ps
    by (rule preserves_pfor) (rule replay)
  then have "leads fresh (pfor (replay_peer E) ps) sidecar_ok" for ps
    by (simp add: leads_def preserves_def fresh_ok)
  then show ?thesis
    unfolding restore_node_def
    by (intro leads_pbind[where Q = fresh] leads_pseq[where Q = fresh] preserves_leads
        preserves_intro seed_peer_fresh fresh_ok)
qed

lemma restore_fresh: "leads fresh (restore_from_artifact E) sidecar_ok"
proof -
  have http: "preserves fresh (http_call E req)" for req
    unfolding http_call_def by (intro preserves_intro preserves_pmod) (simp add: fresh_def world_inv_def)
  have ret: "leads fresh (pret x) sidecar_ok" "leads fresh (praise e) sidecar_ok" for x e
    by (simp_all add: leads_def pret_run praise_run fresh_ok)
  have body: "leads fresh (restore_body E sid) sidecar_ok" for sid
    unfolding restore_body_def
    by (intro leads_pbind[where Q = fresh] preserves_leads http preserves_intro fresh_ok)
      (auto intro!: ret leads_pbind[where Q = fresh] preserves_leads preserves_intro fresh_ok
        restore_node_fresh split: option.split)
  have "leads fresh (pcatch (restore_body E sid) (pret ())) sidecar_ok" for sid
    using body[of sid] by (auto simp: leads_def pcatch_def pret_run split: prod.splits sum.splits)
  then show ?thesis
    unfolding restore_from_artifact_def by (auto intro!: ret split: option.split list.split)
qed

text \<open>A restore keeps what its elementary steps keep.\<close>

lemma restore_preserves:
  assumes "\<And>seq p ip sp dp tip. preserves P (process_and_deliver E seq p ip sp dp tip)"
    and "\<And>ip. preserves P (get_peer ip)" and "\<And>sid. preserves P (http_call E (GetSnapshot sid))"
    and "\<And>ip n. preserves P (pmod (upd_peer ip (\<lambda>p. p\<lparr>send_seq := n\<rparr>)))"
    and "\<And>ip n. preserves P (pmod (upd_peer ip (\<lambda>p. p\<lparr>recv_seq := n\<rparr>)))"
  shows "preserves P (start_serving E)"
proof -
  have "preserves P (restore_node E node)" for node
    unfolding restore_node_def seed_peer_def seed_field_def replay_peer_def replay_entry_def deliver_msg_def
    by (intro preserves_intro assms)
  then show ?thesis
    unfolding start_serving_def restore_from_artifact_def restore_body_def
    by (intro preserves_intro assms)
qed

lemma start_serving_core: "preserves core_ok (start_serving E)"
proof (rule preserves_core)
  show "preserves world_inv (start_serving E)"
    by (rule restore_preserves)
      (auto intro!: process_and_deliver_inv preserves_frameD(2)[OF get_peer_frame] preserves_pmod preserves_intro
        simp: http_call_def world_inv_def base_inv_seed)
  show "preserves framed (start_serving E)"
    by (rule restore_preserves)
      (auto intro!: fr.process_and_deliver_rule fr.primitives preserves_pmod fr.http_call_rule
        simp: framed_def request_shape_def)
  show "preserves tunnel_transport (start_serving E)"
    by (rule restore_preserves)
      (auto intro!: up.process_and_deliver_rule up.primitives preserves_pmod up.http_call_rule
        simp: request_shape_def)
qed

lemma start_listening_run: "start_listening E w
  = (Inr (), (upd_ctrl (cache_self E) w)\<lparr>is_server := (case self_ip_of E (snapshot_ctrl w) of None \<Rightarrow> False
      | Some ip \<Rightarrow> ip \<in> set (MESH_MEMBERS E)), tunnel_transport := True\<rparr>)"
  by (simp add: start_listening_def pbind_Inr[where m = "self_mesh_ip E", OF self_mesh_ip_run] pseq_pmod pmod_run)

lemma start_listening_fresh: "fresh (snd (start_listening E MeshProxy))"
proof -
  have "world_inv (upd_ctrl (cache_self E) MeshProxy)"
    using preservesD[OF self_mesh_ip_inv world_inv_MeshProxy, of E] by (simp add: self_mesh_ip_run)
  then show ?thesis
    by (simp add: start_listening_run fresh_def world_inv_def base_inv_def spoof_inv_def peers_inv_def)
      (simp add: peer_of_def MeshProxy_def PeerState_def)
qed

subsection \<open>The event loop\<close>

text \<open>
  A sidecar and its tasks. \<open>serving\<close> says that \<open>start\<close> has come back from its await and has run
  to its end. The retransmission task dies with the first exception that escapes it, while an
  exception in a reader or a protocol callback is logged and forgotten. \<open>disturbed\<close> is a history
  variable of the model: a packet was handled while \<open>start\<close> was waiting.
\<close>

record sidecar =
  proxy :: world
  serving :: bool
  retransmitting :: bool
  disturbed :: bool

definition sidecar_started :: "env \<Rightarrow> sidecar" where
  "sidecar_started E =
     \<lparr>proxy = snd (start_listening E MeshProxy), serving = False, retransmitting = False, disturbed = False\<rparr>"

inductive event_step :: "env \<Rightarrow> sidecar \<Rightarrow> sidecar \<Rightarrow> bool" for E where
  Tunnel_packet: "event_step E s (s\<lparr>proxy := snd (datagram_received E data ip (proxy s)),
    disturbed := disturbed s \<or> \<not> serving s\<rparr>)"
| Intercept_readable: "event_step E s (s\<lparr>proxy := snd (handle_local_intercept E feed (proxy s)),
    disturbed := disturbed s \<or> \<not> serving s\<rparr>)"
| Start_resumes: "\<not> serving s \<Longrightarrow>
    event_step E s (s\<lparr>proxy := snd (start_serving E (proxy s)), serving := True, retransmitting := True\<rparr>)"
| Retransmit: "serving s \<Longrightarrow> retransmitting s \<Longrightarrow> retransmit_tick E (proxy s) = (r, w) \<Longrightarrow>
    event_step E s (s\<lparr>proxy := w, retransmitting := (r = Inr ())\<rparr>)"
| App_sends: "event_step E s (s\<lparr>proxy := (proxy s)\<lparr>local_sock := local_sock (proxy s) @ [d]\<rparr>\<rparr>)"
| Time_passes: "0 \<le> t \<Longrightarrow> event_step E s (s\<lparr>proxy := (proxy s)\<lparr>clock := clock (proxy s) + t\<rparr>\<rparr>)"

inductive_cases event_stepE: "event_step E s t"

inductive reachable :: "env \<Rightarrow> sidecar \<Rightarrow> bool" for E where
  Started: "reachable E (sidecar_started E)"
| Step: "reachable E s \<Longrightarrow> event_step E s t \<Longrightarrow> reachable E t"

text \<open>What one event keeps, from what its parts keep.\<close>

lemma event_step_keeps:
  assumes "event_step E s t" and "P (proxy s)"
    and "\<And>data ip. preserves P (datagram_received E data ip)" and "\<And>feed. preserves P (handle_local_intercept E feed)"
    and "\<not> serving s \<Longrightarrow> preserves P (start_serving E)" and "preserves P (retransmit_tick E)"
    and "\<And>w q. P w \<Longrightarrow> P (w\<lparr>local_sock := q\<rparr>)" and "\<And>w n. P w \<Longrightarrow> P (w\<lparr>clock := n\<rparr>)"
  shows "P (proxy t)"
  using assms(1)
proof (cases rule: event_step.cases)
  case (Retransmit r w)
  with assms(2) show ?thesis using preserves_runD[OF assms(6)] by simp
qed (use assms in \<open>simp_all add: preservesD\<close>)

definition restoring :: "env \<Rightarrow> bool" where
  "restoring E \<longleftrightarrow> RESTORE_SNAPSHOT_ID E \<notin> {None, Some []}"

text \<open>Only a restoring sidecar that was disturbed before it served may lose more than the core.\<close>

definition system_ok :: "env \<Rightarrow> sidecar \<Rightarrow> bool" where
  "system_ok E s \<longleftrightarrow> core_ok (proxy s) \<and> (\<not> serving s \<and> \<not> disturbed s \<longrightarrow> fresh (proxy s))
     \<and> (serving s \<and> disturbed s \<and> restoring E \<or> sidecar_ok (proxy s))"

lemma sidecar_ok_frames:
  "sidecar_ok w \<Longrightarrow> sidecar_ok (w\<lparr>local_sock := q\<rparr>)" "sidecar_ok w \<Longrightarrow> sidecar_ok (w\<lparr>clock := n\<rparr>)"
  by (simp_all add: sidecar_ok_def world_inv_def rx_ok_def rx_of_def tx_ok_def)

lemma core_ok_frames:
  "core_ok w \<Longrightarrow> core_ok (w\<lparr>local_sock := q\<rparr>)" "core_ok w \<Longrightarrow> core_ok (w\<lparr>clock := n\<rparr>)"
  by (simp_all add: core_ok_def world_inv_def framed_def)

lemma event_step_core: "event_step E s t \<Longrightarrow> core_ok (proxy s) \<Longrightarrow> core_ok (proxy t)"
  by (rule event_step_keeps)
    (simp_all add: datagram_received_core handle_local_intercept_core start_serving_core retransmit_tick_core
      core_ok_frames)

lemma event_step_sidecar:
  assumes "event_step E s t" and "sidecar_ok (proxy s)" and "serving s"
  shows "sidecar_ok (proxy t)"
  by (rule event_step_keeps[where P = sidecar_ok, OF assms(1,2)])
    (simp_all add: assms(3) datagram_received_ok handle_local_intercept_ok retransmit_tick_ok sidecar_ok_frames)

lemma not_restoring: "\<not> restoring E \<Longrightarrow> start_serving E w = (Inr (), w)"
  by (auto simp: restoring_def start_serving_def restore_from_artifact_def pret_run split: list.split)

lemma event_step_system:
  assumes "event_step E s t" and "system_ok E s"
  shows "system_ok E t"
proof -
  have core: "core_ok (proxy t)" using event_step_core[OF assms(1)] assms(2) by (simp add: system_ok_def)
  show ?thesis
  proof (cases "serving s")
    case True
    have "serving t" "disturbed t = disturbed s" using assms(1) True by (auto elim: event_step.cases)
    with assms core True show ?thesis using event_step_sidecar by (auto simp: system_ok_def)
  next
    case False
    with assms(2) have ok: "sidecar_ok (proxy s)" by (auto simp: system_ok_def)
    from assms(1) show ?thesis
    proof (cases rule: event_step.cases)
      case Start_resumes
      have "sidecar_ok (proxy t)" if "\<not> (disturbed s \<and> restoring E)"
      proof (cases "restoring E")
        case True
        with that assms(2) False have "fresh (proxy s)" by (simp add: system_ok_def)
        then show ?thesis using restore_fresh Start_resumes by (simp add: leads_def start_serving_def)
      qed (use ok Start_resumes in \<open>simp add: not_restoring\<close>)
      with core Start_resumes show ?thesis by (auto simp: system_ok_def)
    next
      case (App_sends d)
      with core assms(2) False ok show ?thesis
        by (auto simp: system_ok_def sidecar_ok_frames fresh_def world_inv_def)
    next
      case (Time_passes n)
      with core assms(2) False ok show ?thesis
        by (auto simp: system_ok_def sidecar_ok_frames fresh_def world_inv_def)
    next
      case (Tunnel_packet data ip)
      with core ok False show ?thesis
        using preservesD[OF datagram_received_ok] by (simp add: system_ok_def)
    next
      case (Intercept_readable feed)
      with core ok False show ?thesis
        using preservesD[OF handle_local_intercept_ok] by (simp add: system_ok_def)
    qed (use False in simp)
  qed
qed

lemma reachable_system: "reachable E s \<Longrightarrow> system_ok E s"
proof (induction rule: reachable.induct)
  case Started
  have "fresh (proxy (sidecar_started E))" by (simp add: sidecar_started_def start_listening_fresh)
  then show ?case
    using fresh_ok sidecar_core by (simp add: system_ok_def)
qed (rule event_step_system)

lemma reachable_inv: "reachable E s \<Longrightarrow> world_inv (proxy s)"
  using reachable_system by (auto simp: system_ok_def core_ok_def)

text \<open>A sidecar that serves goes on doing so, and a dead retransmission task never runs again.\<close>

lemma event_step_serving: "event_step E s t \<Longrightarrow> serving s \<Longrightarrow> serving t"
  by (erule event_stepE) simp_all

lemma event_step_dead: "event_step E s t \<Longrightarrow> serving s \<Longrightarrow> \<not> retransmitting s \<Longrightarrow> \<not> retransmitting t"
  by (erule event_stepE) simp_all

subsection \<open>Properties\<close>

text \<open>
  C6: In every state the event loop can reach, from the first await of the startup on and also
  after handlers that raised: at most 512 spoofing sockets are open and all of them are cached;
  what waits for an acknowledgement is filed under the number in its own header; no recorded
  message is a marker; and outside a snapshot nothing is being recorded or waited for. And
  unless the sidecar is a restoring one that handled a packet before its restore: what is
  buffered of a peer lies ahead of the next expected number, and what waits for an
  acknowledgement below the next number to be used.
\<close>

theorem reachable_sidecar_invariant:
  assumes "reachable E s"
  shows "length (spoof_sockets (proxy s)) \<le> MAX_SPOOF_SOCKETS
    \<and> live_socks (trace (proxy s)) = snd ` set (spoof_sockets (proxy s))
    \<and> (\<forall>ip. list_all (\<lambda>e. frame_seq (snd (snd e)) = fst e) (unacked (peer_of (proxy s) ip)))
    \<and> list_all (\<lambda>x. list_all (\<lambda>m. \<not> starts_with MARKER (m_payload m)) (snd x))
         (channel_states (snapshot_ctrl (proxy s)))
    \<and> (is_snapshotting (snapshot_ctrl (proxy s))
       \<or> recording_channels (snapshot_ctrl (proxy s)) = [] \<and> snapshot_deadline (snapshot_ctrl (proxy s)) = None)
    \<and> (serving s \<and> disturbed s \<and> RESTORE_SNAPSHOT_ID E \<notin> {None, Some []}
       \<or> (\<forall>ip. list_all (\<lambda>e. recv_seq (peer_of (proxy s) ip) < fst e) (recv_buffer (peer_of (proxy s) ip))
           \<and> list_all (\<lambda>e. fst e < send_seq (peer_of (proxy s) ip)) (unacked (peer_of (proxy s) ip))))"
proof -
  have sys: "system_ok E s" by (rule reachable_system[OF assms])
  then have core: "world_inv (proxy s)" "framed (proxy s)" by (simp_all add: system_ok_def core_ok_def)
  have "list_all (\<lambda>e. recv_seq (peer_of (proxy s) ip) < fst e) (recv_buffer (peer_of (proxy s) ip))
      \<and> list_all (\<lambda>e. fst e < send_seq (peer_of (proxy s) ip)) (unacked (peer_of (proxy s) ip))"
    if "sidecar_ok (proxy s)" for ip
    using that by (auto simp: sidecar_ok_def rx_ok_def rx_of_def rx_inv_def tx_ok_def list_all_iff entry_ok_def)
  moreover have "list_all (\<lambda>x. list_all (\<lambda>m. \<not> starts_with MARKER (m_payload m)) (snd x))
      (channel_states (snapshot_ctrl (proxy s)))"
    using core by (simp add: world_inv_def ctrl_ok_def channel_ok_def[abs_def])
  ultimately show ?thesis
    using core sys
    by (auto simp: system_ok_def restoring_def framed_def world_inv_def ctrl_ok_def base_inv_def spoof_inv_def)
qed

theorem reachable_sidecar_invariant_witness:
  "length (spoof_sockets (proxy (sidecar_started demo_env))) \<le> MAX_SPOOF_SOCKETS
    \<and> list_all (\<lambda>e. fst e < 0) (unacked (peer_of (proxy (sidecar_started demo_env)) ''10.24.24.11''))"
proof -
  let ?s = "sidecar_started demo_env"
  have "\<not> serving ?s" and new: "send_seq (peer_of (proxy ?s) ''10.24.24.11'') = 0"
    by (simp_all add: sidecar_started_def start_listening_run peer_of_def MeshProxy_def PeerState_def upd_ctrl_def)
  then have "list_all (\<lambda>e. fst e < send_seq (peer_of (proxy ?s) ip)) (unacked (peer_of (proxy ?s) ip))" for ip
    using reachable_sidecar_invariant[OF Started[of demo_env]] by blast
  from this[of "''10.24.24.11''", unfolded new] show ?thesis
    using reachable_sidecar_invariant[OF Started[of demo_env]] by blast
qed

text \<open>
  C28: One pass of the retransmission task sends again exactly the packets that have waited
  longer than the retry timeout, unchanged and each to its peer, renews their timestamps,
  and forgets none: only an acknowledgement removes a packet.
\<close>

theorem retransmission_is_exact:
  assumes "sidecar_ok w" and "\<not> timed_out w"
  shows "\<exists>v. retransmit_tick E w = (Inr (), v)
    \<and> trace v = trace w @ concat (map (resends (clock w)) (peers w))
    \<and> (\<forall>ip. send_seq (peer_of v ip) = send_seq (peer_of w ip)
        \<and> unacked (peer_of v ip) = map (refresh (clock w)) (unacked (peer_of w ip)))"
proof -
  have "retransmit_tick E w = (Inr (), retransmitted (clock w) w)"
    using assms sidecar_core[OF assms(1)]
    by (simp add: retransmit_tick_def check_timeout_def pbind_pget pseq_run pret_run retransmit_run)
  then show ?thesis
    by (intro exI[of _ "retransmitted (clock w) w"])
      (simp add: peer_of_retransmitted, simp add: retransmitted_def)
qed

definition demo_waiting :: world where
  "demo_waiting = upd_peer ''10.24.24.11'' (\<lambda>p. p\<lparr>unacked :=
     [(0, - 600, data_header (0, 0, 1, 2, ZERO_IP) @ ''x'')], send_seq := 1\<rparr>) demo_world"

lemma demo_waiting_ok: "sidecar_ok demo_waiting"
proof -
  have ok: "data_header_ok (0, 0, 1, 2, ZERO_IP)" by (simp add: is_uint_def)
  have "frame_seq (data_header (0, 0, 1, 2, ZERO_IP) @ ''x'') = 0"
    by (rule frame_seq_packed[OF data_header_pack_ok[OF ok]])
  moreover have "world_inv demo_waiting"
    unfolding demo_waiting_def world_inv_def
    using demo_base_inv demo_world_inv
    by (auto simp: world_inv_def peer_ok_def intro!: base_inv_upd_peer simp del: data_header.simps)
  ultimately show ?thesis
    by (simp add: sidecar_ok_def demo_waiting_def rx_ok_def rx_of_def rx_inv_def PeerState_def tx_ok_def
        entry_ok_def del: data_header.simps)
qed

theorem retransmission_is_exact_witness:
  "\<exists>v. retransmit_tick demo_env demo_waiting = (Inr (), v)
    \<and> trace v = [TunnelSend (data_header (0, 0, 1, 2, ZERO_IP) @ ''x'') ''10.24.24.11'']"
proof -
  have "\<not> timed_out demo_waiting" by (simp add: timed_out_def demo_waiting_def SnapshotController_def)
  moreover have "concat (map (resends (clock demo_waiting)) (peers demo_waiting))
      = [TunnelSend (data_header (0, 0, 1, 2, ZERO_IP) @ ''x'') ''10.24.24.11'']"
    by (simp add: demo_waiting_def upd_peer_def resends_def due_def RETRY_TIMEOUT_def del: data_header.simps)
  moreover have "trace demo_waiting = []" by (simp add: demo_waiting_def)
  ultimately show ?thesis
    using retransmission_is_exact[OF demo_waiting_ok, of demo_env] by auto
qed

text \<open>
  C14: A snapshot whose markers do not all return is aborted at its deadline: an artifact
  marked as aborted is posted with everything recorded so far, every recorded message is
  delivered in sequence order, and the sidecar is idle again.
\<close>

theorem timeout_aborts_and_delivers:
  assumes "sidecar_ok w" and "timed_out w" and "\<forall>n. send_ok E n"
    and "current_snapshot_id (snapshot_ctrl w) = Some i" and "utf8_valid i"
  shows "\<exists>v. check_timeout E (process_and_deliver E) w = (Inr (), v)
    \<and> requests (trace v) = requests (trace w) @ [PostSnapshotState (cut_artifact E ''aborted'' i
         (cut_peers (snapshot_ctrl w)) (map_of (recorded_send_seq (snapshot_ctrl w)))
         (map_of (recorded_recv_seq (snapshot_ctrl w))) (channel_of (snapshot_ctrl w)))]
    \<and> delivered (trace v) = delivered (trace w)
        @ concat (map replayed (channel_states (snapshot_ctrl w)))
    \<and> \<not> is_snapshotting (snapshot_ctrl v) \<and> channel_states (snapshot_ctrl v) = []"
proof -
  have inv: "world_inv w" using assms(1) by (simp add: sidecar_ok_def)
  have art: "build_artifact E ''aborted'' (snapshot_ctrl w) = Inr (cut_artifact E ''aborted'' i
      (cut_peers (snapshot_ctrl w)) (map_of (recorded_send_seq (snapshot_ctrl w)))
      (map_of (recorded_recv_seq (snapshot_ctrl w))) (channel_of (snapshot_ctrl w)))"
    by (rule build_artifact_cut[OF assms(4,5)])
  show ?thesis
    by (rule abort_run[OF inv assms(3) art, where n = 1])
      (use assms(2) in \<open>auto simp: check_timeout_def pbind_pget process_and_deliver_def
        process_message_def numeral_2_eq_2 posts_and_hands_over_def cleared_def
        simp del: process_message_n.simps\<close>)
qed

definition demo_late :: world where
  "demo_late = (upd_ctrl (\<lambda>c. c\<lparr>is_snapshotting := True, current_snapshot_id := Some ''s1'',
     snapshot_deadline := Some 5, recording_channels := [''10.24.24.11''],
     channel_states := [(''10.24.24.11'', [\<lparr>m_seq = 3, m_payload = ''hi'', m_src_port = 1,
       m_dst_port = 2, m_target_local_ip = ''10.24.24.10''\<rparr>])]\<rparr>) demo_world)\<lparr>clock := 9\<rparr>"

lemma demo_late_ok: "sidecar_ok demo_late" and demo_late_timed_out: "timed_out demo_late"
proof -
  have "ctrl_ok (snapshot_ctrl demo_late)"
    by (simp add: demo_late_def ctrl_ok_def channel_ok_def SnapshotController_def MARKER_def starts_with_def)
  moreover have "base_inv demo_late" using demo_base_inv by (simp add: demo_late_def)
  ultimately show "sidecar_ok demo_late"
    by (simp add: sidecar_ok_def world_inv_def rx_ok_def rx_of_def rx_inv_def tx_ok_def demo_late_def
        PeerState_def)
  show "timed_out demo_late" by (simp add: timed_out_def demo_late_def)
qed

theorem timeout_aborts_and_delivers_witness:
  "\<exists>v. check_timeout demo_env (process_and_deliver demo_env) demo_late = (Inr (), v)
    \<and> delivered (trace v) = [(''hi'', ''10.24.24.10'', 2)] \<and> \<not> is_snapshotting (snapshot_ctrl v)"
proof -
  have "current_snapshot_id (snapshot_ctrl demo_late) = Some ''s1''" "utf8_valid ''s1''"
    by (simp_all add: demo_late_def utf8_valid_ascii)
  from timeout_aborts_and_delivers[OF demo_late_ok demo_late_timed_out demo_sends this]
  show ?thesis by (auto simp: demo_late_def replayed_def as_delivered_def)
qed

end
