(* ===== verification/Faults.thy ===== *)
theory Faults
  imports Sidecar Routing
begin

text \<open>
  Where the code does not do what it means to: a snapshot id that is not text wedges the
  controller for good, an application datagram that cannot be delivered kills the
  retransmission task during an abort, and a message sent before another one on the same
  channel may reach the application after it.
\<close>

subsection \<open>A snapshot id that is not text\<close>

text \<open>
  The controller has taken an id that does not decode, and raised before it set the deadline
  and opened the channels. \<open>rs\<close> are the HTTP requests made so far.
\<close>

definition wedged :: "bytes \<Rightarrow> http_req list \<Rightarrow> world \<Rightarrow> bool" where
  "wedged i rs w \<longleftrightarrow> \<not> utf8_valid i
     \<and> is_snapshotting (snapshot_ctrl w) \<and> current_snapshot_id (snapshot_ctrl w) = Some i
     \<and> snapshot_deadline (snapshot_ctrl w) = None \<and> channel_states (snapshot_ctrl w) = []
     \<and> requests (trace w) = rs"

lemma build_artifact_undecodable:
  "current_snapshot_id c = Some i \<Longrightarrow> \<not> utf8_valid i \<Longrightarrow> build_artifact E st c = Inl UnicodeDecodeError"
  by (cases i) (simp_all add: build_artifact_def snapshot_id_json_def decode_def del: utf8_valid.simps(2))

lemma finish_if_done_wedged: "preserves (wedged i rs) (finish_if_done E D)"
  by (rule preservesI)
    (simp add: finish_if_done_def finish_global_snapshot_def pbind_pget pret_run praise_run
      wedged_def build_artifact_undecodable)

lemma later_marker_wedged: "preserves (wedged i rs) (later_marker E D ip seq p)"
  unfolding later_marker_def Let_def
  by (intro preserves_intro finish_if_done_wedged preserves_pmod) (simp add: wedged_def)

text \<open>Whatever arrives, the controller stays as it is and asks for nothing.\<close>

lemma process_message_wedged: "preserves (wedged i rs) (process_message E ip seq p sp dp tip)"
proof (rule preservesI)
  fix w assume w: "wedged i rs w"
  then have snap: "is_snapshotting (snapshot_ctrl w)" by (simp add: wedged_def)
  show "wedged i rs (snd (process_message E ip seq p sp dp tip w))"
  proof (cases "starts_with MARKER p")
    case True
    then obtain j where p: "p = MARKER @ j" by (rule starts_withE)
    have "preserves (wedged i rs) (pseq (later_marker E D ip seq p) (pret True))" for D
      by (intro preserves_intro later_marker_wedged)
    from preservesD[OF this w] show ?thesis
      by (simp add: p process_message_marker[OF snap] del: process_message_n.simps)
  next
    case False
    with w show ?thesis
      by (simp add: process_message_def numeral_2_eq_2 process_message_with_def record_msg_def
          pbind_pget pret_run wedged_def pseq_run praise_run)
  qed
qed

lemma requests_other: "\<forall>req. e \<noteq> HttpReq req \<Longrightarrow> requests [e] = []"
  by (cases e) simp_all

interpretation wedge: carried "wedged i rs" for i rs
  by unfold_locales (simp_all add: wedged_def requests_other del: data_header_pack.simps)

lemma process_and_deliver_wedged: "preserves (wedged i rs) (process_and_deliver E seq p ip sp dp tip)"
  unfolding process_and_deliver_def deliver_with_def
  by (intro preserves_intro process_message_wedged wedge.primitives wedge.get_spoof_sock_rule)

interpretation wedge_receiving: receiving "wedged i rs" E for i rs E
  by unfold_locales (simp_all add: process_and_deliver_wedged, simp_all add: wedged_def)

lemma handle_local_intercept_wedged: "preserves (wedged i rs) (handle_local_intercept E feed)"
  by (rule wedge.intercept_rule[OF process_message_wedged]) (simp add: wedged_def)

lemma retransmit_tick_wedged: "preserves (wedged i rs) (retransmit_tick E)"
proof -
  have "preserves (wedged i rs) (check_timeout E D)" for D
    by (rule preservesI) (simp add: check_timeout_def pbind_pget timed_out_def wedged_def pret_run)
  moreover have "preserves (wedged i rs) (retransmit_peers now)" for now
    unfolding retransmit_peers_def retransmit_one_def
    by (intro preserves_intro wedge.primitives preserves_pmod) (simp add: wedged_def)
  ultimately show ?thesis unfolding retransmit_tick_def by (intro preserves_intro)
qed

lemma event_step_wedged:
  assumes "event_step E s t" and "serving s" and "wedged i rs (proxy s)"
  shows "wedged i rs (proxy t)"
  by (rule event_step_keeps[where P = "wedged i rs", OF assms(1,3)])
    (simp_all add: assms(2) wedge_receiving.datagram_received_rule handle_local_intercept_wedged
      retransmit_tick_wedged, simp_all add: wedged_def)

text \<open>What every event keeps in a sidecar that serves holds from then on.\<close>

lemma steps_keep:
  assumes "(event_step E)\<^sup>*\<^sup>* s t" and "serving s" and "P s"
    and "\<And>s t. event_step E s t \<Longrightarrow> serving s \<Longrightarrow> P s \<Longrightarrow> P t"
  shows "serving t \<and> P t"
  using assms(1-3) by (induction rule: rtranclp_induct) (auto dest: event_step_serving intro: assms(4))

lemma steps_wedged:
  assumes "(event_step E)\<^sup>*\<^sup>* s t" and "serving s" and "wedged i rs (proxy s)"
  shows "wedged i rs (proxy t)"
  using steps_keep[where P = "\<lambda>s. wedged i rs (proxy s)", OF assms] event_step_wedged by blast

text \<open>
  How it comes to that: the state has been set when the queue is drained, and when the id is
  decoded.
\<close>

lemma open_cut_drain:
  "open_cut E ip seq (MARKER @ i) w = pseq (drain_intercept E)
     (pbind (plift (decode i)) (\<lambda>snapshot_id.
        pseq (trigger_app_snapshot E snapshot_id)
       (pseq (pfor (broadcast_marker (MARKER @ i)) (others E w))
       (pseq (pmod (upd_ctrl (open_channels E)))
       (pseq (pmod (upd_ctrl (close_origin (others E w) ip seq)))
         (pmod (\<lambda>w. upd_ctrl (\<lambda>c. c\<lparr>snapshot_deadline := Some (clock w + SNAPSHOT_TIMEOUT)\<rparr>) w)))))))
     (recording_started E i ip w)"
proof -
  have begun: "recording_started E i ip w =
      upd_ctrl (start_recording (others E w) ip) (upd_ctrl (cache_self E) (upd_ctrl (begin_snapshot i) w))"
    by (simp add: recording_started_def upd_ctrl_def)
  show ?thesis
    by (simp add: open_cut_def Let_def pseq_pmod begun others_def
        pbind_Inr[where m = "self_mesh_ip E", OF self_mesh_ip_run])
qed

lemma process_message_raising:
  assumes "\<not> is_snapshotting (snapshot_ctrl w)"
    and "open_cut E ip seq (MARKER @ i) w = (Inl e, v)"
  shows "process_message E ip seq (MARKER @ i) sp dp tip w = (Inl e, v)"
  using assms(2)
  by (simp add: process_message_marker_idle[OF assms(1)] first_marker_def pseq_run
      del: process_message_n.simps)

text \<open>The controller in which the drain runs, and which it leaves when it raises.\<close>

lemma drained_ctrl:
  assumes "world_inv w" and "\<not> is_snapshotting (snapshot_ctrl w)"
    and "drain_intercept E (recording_started E i ip w) = (r, v)"
  shows "is_snapshotting (snapshot_ctrl v)" and "current_snapshot_id (snapshot_ctrl v) = Some i"
    and "snapshot_deadline (snapshot_ctrl v) = None" and "channel_states (snapshot_ctrl v) = []"
    and "set (recording_channels (snapshot_ctrl v)) = set (others E w) - {ip}"
proof -
  have "base_inv (recording_started E i ip w)"
    using assms(1) by (simp add: world_inv_def recording_started_def)
  from preserves_runD[OF drain_intercept_frame frameI[OF this] assms(3)]
  have c: "snapshot_ctrl v = start_recording (others E w) ip (cache_self E (begin_snapshot i (snapshot_ctrl w)))"
    by (simp add: frame_def recording_started_def)
  show "is_snapshotting (snapshot_ctrl v)" "current_snapshot_id (snapshot_ctrl v) = Some i"
    "channel_states (snapshot_ctrl v) = []"
    "set (recording_channels (snapshot_ctrl v)) = set (others E w) - {ip}"
    by (simp_all add: c)
  show "snapshot_deadline (snapshot_ctrl v) = None"
    using assms(1,2) by (simp add: c start_recording_def begin_snapshot_def world_inv_def ctrl_ok_def)
qed

interpretation req: carried "\<lambda>w. requests (trace w) = rs" for rs
  by unfold_locales (simp_all add: requests_other del: data_header_pack.simps)

lemma drain_requests:
  assumes "drain_intercept E w = (r, v)"
  shows "requests (trace v) = requests (trace w)"
proof -
  have "preserves (\<lambda>v. requests (trace v) = requests (trace w)) (drain_intercept E)"
    unfolding drain_intercept_def by (intro preserves_intro req.drain_loop_rule)
  from preserves_runD[OF this refl assms] show ?thesis .
qed

text \<open>A message on a channel that is awaited but was never opened cannot be recorded.\<close>

lemma process_message_unopened:
  assumes "is_snapshotting (snapshot_ctrl w)" and "ip \<in> set (recording_channels (snapshot_ctrl w))"
    and "channel_states (snapshot_ctrl w) = []" and "\<not> starts_with MARKER p"
  shows "process_message E ip seq p sp dp tip w = (Inl KeyError, w)"
  using assms
  by (simp add: process_message_def numeral_2_eq_2 process_message_with_def record_msg_def
      pbind_pget pseq_run praise_run)

subsection \<open>A drain that raised\<close>

text \<open>
  The drain raised: the controller has taken the id \<open>i\<close> and awaits members of \<open>R\<close>, without a
  deadline and without open channels. Only the markers of that very snapshot from all of them
  end this, and then an artifact that claims to be complete is posted, without a checkpoint.
\<close>

definition half_open :: "bytes \<Rightarrow> string set \<Rightarrow> http_req list \<Rightarrow> world \<Rightarrow> bool" where
  "half_open i R rs w \<longleftrightarrow> is_snapshotting (snapshot_ctrl w) \<and> current_snapshot_id (snapshot_ctrl w) = Some i
     \<and> snapshot_deadline (snapshot_ctrl w) = None \<and> channel_states (snapshot_ctrl w) = []
     \<and> set (recording_channels (snapshot_ctrl w)) \<subseteq> R \<and> requests (trace w) = rs"

definition false_cut :: "env \<Rightarrow> string set \<Rightarrow> http_req list \<Rightarrow> world \<Rightarrow> bool" where
  "false_cut E R rs w \<longleftrightarrow> R \<noteq> {} \<and> (\<exists>sid ps more. requests (trace w) = rs @ PostSnapshotState (JObj
     [(''snapshot_id'', sid), (''node'', JStr (container_id E)), (''status'', JStr ''complete''),
      (''peers'', JObj ps)]) # more)"

lemma false_cut_extends:
  "false_cut E R rs w \<Longrightarrow> requests (trace v) = requests (trace w) @ es \<Longrightarrow> false_cut E R rs v"
  by (auto simp: false_cut_def)

interpretation false_cut: stable "false_cut E R rs" for E R rs
  by unfold_locales
    (erule false_cut_extends[where es = "[]"] false_cut_extends[where es = "[x]" for x],
      simp add: requests_other del: data_header_pack.simps)+

definition stuck :: "env \<Rightarrow> bytes \<Rightarrow> string set \<Rightarrow> http_req list \<Rightarrow> world \<Rightarrow> bool" where
  "stuck E i R rs w \<longleftrightarrow> half_open i R rs w \<or> false_cut E R rs w"

lemma finish_stuck:
  assumes "half_open i R rs w" and "R \<noteq> {}"
    and "\<And>a b c d e f. preserves (false_cut E R rs) (D a b c d e f)"
  shows "stuck E i R rs (snd (finish_global_snapshot E D w))"
proof (cases "build_artifact E ''complete'' (snapshot_ctrl w)")
  case (Inl e)
  then show ?thesis
    using assms(1) by (simp add: finish_global_snapshot_def pbind_pget praise_run stuck_def)
next
  case (Inr a)
  have "requests (trace w) = rs" using assms(1) by (simp add: half_open_def)
  then have "false_cut E R rs (snd (post_artifact E a w))"
    using Inr assms(2)
    by (auto simp: post_artifact_def http_call_run false_cut_def build_artifact_def split: sum.splits)
  from preservesD[OF false_cut.flush_rule[OF assms(3)] this] show ?thesis
    using Inr
    by (simp add: finish_global_snapshot_def pbind_pget pseq_run post_artifact_def http_call_run stuck_def)
qed

lemma process_message_stuck: "preserves (stuck E i R rs) (process_message E ip seq p sp dp tip)"
proof (rule preservesI)
  fix w assume "stuck E i R rs w"
  then consider (wait) "half_open i R rs w" | (over) "false_cut E R rs w" by (auto simp: stuck_def)
  then show "stuck E i R rs (snd (process_message E ip seq p sp dp tip w))"
  proof cases
    case over
    then show ?thesis
      using preservesD[OF false_cut.process_message_n_rule] by (simp add: process_message_def stuck_def)
  next
    case wait
    then have snap: "is_snapshotting (snapshot_ctrl w)" by (simp add: half_open_def)
    consider (message) "\<not> starts_with MARKER p" | (other) j where "p = MARKER @ j" "j \<noteq> i"
      | (late) "p = MARKER @ i" "ip \<notin> set (recording_channels (snapshot_ctrl w))"
      | (close) "p = MARKER @ i" "ip \<in> set (recording_channels (snapshot_ctrl w))"
      by (metis starts_withE)
    then show ?thesis
    proof cases
      case message
      with wait show ?thesis
        by (simp add: process_message_def numeral_2_eq_2 process_message_with_def record_msg_def
            pbind_pget pret_run half_open_def stuck_def pseq_run praise_run)
    next
      case other
      with wait show ?thesis
        by (auto simp: process_message_marker[OF snap] later_marker_def Let_def pbind_pget pseq_run pret_run
            plift_run half_open_def stuck_def split: sum.split simp del: process_message_n.simps)
    next
      case late
      with wait show ?thesis by (simp add: process_message_repeated half_open_def stuck_def)
    next
      case close
      let ?D = "deliver_with E (process_message_n E (Suc 0))" and ?w = "upd_ctrl (close_channel ip seq) w"
      have D: "preserves (false_cut E R rs) (?D a b c d e f)" for a b c d e f
        unfolding deliver_with_def by (intro preserves_intro false_cut.process_message_n_rule false_cut.primitives
            false_cut.get_spoof_sock_rule)
      have R: "R \<noteq> {}" and half: "half_open i R rs ?w" using wait close by (auto simp: half_open_def)
      have "stuck E i R rs (snd (finish_if_done E ?D ?w))"
        using half finish_stuck[OF half R D]
        by (simp add: finish_if_done_def pbind_pget pret_run stuck_def del: process_message_n.simps)
      moreover have "process_message E ip seq p sp dp tip w = pseq (finish_if_done E ?D) (pret True) ?w"
        unfolding close(1) by (rule process_message_close) (use wait close in \<open>simp_all add: half_open_def\<close>)
      ultimately show ?thesis
        by (cases "finish_if_done E ?D ?w") (auto simp: pseq_run pret_run simp del: process_message_n.simps
            split: sum.split)
    qed
  qed
qed

interpretation stuck: carried "stuck E i R rs" for E i R rs
  by unfold_locales
    (auto simp: stuck_def half_open_def requests_other simp del: data_header_pack.simps
      intro: false_cut.carry_emit false_cut.carry_ensured false_cut.carry_sent false_cut.carry_socks
        false_cut.carry_next_sock false_cut.carry_queue)

lemma process_and_deliver_stuck: "preserves (stuck E i R rs) (process_and_deliver E seq p ip sp dp tip)"
  unfolding process_and_deliver_def deliver_with_def
  by (intro preserves_intro process_message_stuck stuck.primitives stuck.get_spoof_sock_rule)

text \<open>What a half-opened snapshot does: no timeout, no other snapshot, no message of an awaited member.\<close>

lemma half_open_behaves:
  assumes "half_open i R rs w"
  shows "check_timeout E D w = (Inr (), w)"
    and "j \<noteq> i \<Longrightarrow> utf8_valid j \<Longrightarrow> process_message E ip seq (MARKER @ j) sp dp tip w = (Inr True, w)"
    and "ip \<in> set (recording_channels (snapshot_ctrl w)) \<Longrightarrow> \<not> starts_with MARKER p \<Longrightarrow>
      process_and_deliver E seq p ip sp dp tip w = (Inl KeyError, w)"
proof -
  show "check_timeout E D w = (Inr (), w)"
    using assms by (simp add: half_open_def check_timeout_def pbind_pget timed_out_def pret_run)
  show "process_message E ip seq (MARKER @ j) sp dp tip w = (Inr True, w)" if "j \<noteq> i" "utf8_valid j"
    by (rule process_message_stale) (use assms that in \<open>simp_all add: half_open_def\<close>)
  show "process_and_deliver E seq p ip sp dp tip w = (Inl KeyError, w)"
    if "ip \<in> set (recording_channels (snapshot_ctrl w))" "\<not> starts_with MARKER p"
    using process_message_unopened[of w ip p E seq sp dp tip] assms that
    by (simp add: half_open_def process_and_deliver_def deliver_with_def pbind_run)
qed

interpretation stuck_receiving: receiving "stuck E' i R rs" E' for E' i R rs
  by unfold_locales
    (simp_all add: process_and_deliver_stuck,
     auto simp: stuck_def half_open_def intro: false_cut_extends[where es = "[]"])

lemma retransmit_tick_stuck: "preserves (stuck E i R rs) (retransmit_tick E)"
proof -
  have "preserves (stuck E i R rs) (check_timeout E (process_and_deliver E))"
  proof (rule preservesI)
    fix w assume "stuck E i R rs w"
    then show "stuck E i R rs (snd (check_timeout E (process_and_deliver E) w))"
      unfolding stuck_def using preservesD[OF false_cut.check_timeout_rule] half_open_behaves(1)
      by (metis snd_conv)
  qed
  moreover have "preserves (stuck E i R rs) (retransmit_peers now)" for now
    unfolding retransmit_peers_def retransmit_one_def
    by (intro preserves_intro stuck.primitives preserves_pmod)
      (auto simp: stuck_def half_open_def intro: false_cut_extends[where es = "[]"])
  ultimately show ?thesis unfolding retransmit_tick_def by (intro preserves_intro)
qed

lemma event_step_stuck:
  assumes "event_step E s t" and "serving s" and "stuck E i R rs (proxy s)"
  shows "stuck E i R rs (proxy t)"
proof -
  have frames: "stuck E i R rs (w\<lparr>local_sock := q\<rparr>)" "stuck E i R rs (w\<lparr>clock := n\<rparr>)"
    if "stuck E i R rs w" for w q n
    using that by (auto simp: stuck_def half_open_def intro: false_cut_extends[where es = "[]"])
  have "preserves (stuck E i R rs) (handle_local_intercept E feed)" for feed
    by (rule stuck.intercept_rule[OF process_message_stuck]) (rule frames)
  then show ?thesis
    by (intro event_step_keeps[where P = "stuck E i R rs", OF assms(1,3)])
      (simp_all add: assms(2) stuck_receiving.datagram_received_rule retransmit_tick_stuck frames)
qed

lemma steps_stuck:
  assumes "(event_step E)\<^sup>*\<^sup>* s t" and "serving s" and "stuck E i R rs (proxy s)"
  shows "stuck E i R rs (proxy t)"
  using steps_keep[where P = "\<lambda>s. stuck E i R rs (proxy s)", OF assms] event_step_stuck by blast

subsection \<open>Properties of a wedged controller\<close>

text \<open>
  C20: A first marker whose id is not UTF-8 raises after the controller has taken it, and the
  sidecar never takes part in a snapshot again: whatever happens afterwards it stays in that
  snapshot, asks for no checkpoint and posts no artifact.
\<close>

theorem undecodable_id_wedges_forever:
  assumes "reachable E s" and "serving s"
    and "\<not> is_snapshotting (snapshot_ctrl (proxy s))" and "\<not> utf8_valid i"
    and "drain_intercept E (recording_started E i ip (proxy s)) = (Inr (), v)"
    and "(event_step E)\<^sup>*\<^sup>* (s\<lparr>proxy := snd (process_message E ip seq (MARKER @ i) sp dp tip (proxy s))\<rparr>) t"
  shows "fst (process_message E ip seq (MARKER @ i) sp dp tip (proxy s)) = Inl UnicodeDecodeError
    \<and> is_snapshotting (snapshot_ctrl (proxy t)) \<and> current_snapshot_id (snapshot_ctrl (proxy t)) = Some i
    \<and> snapshot_deadline (snapshot_ctrl (proxy t)) = None
    \<and> requests (trace (proxy t)) = requests (trace (proxy s))"
proof -
  note inv = reachable_inv[OF assms(1)]
  have "open_cut E ip seq (MARKER @ i) (proxy s) = (Inl UnicodeDecodeError, v)"
    using assms(4) by (simp add: open_cut_drain pseq_run assms(5) decode_def praise_run)
  note run = process_message_raising[OF assms(3) this, of sp dp tip]
  have "wedged i (requests (trace (proxy s))) v"
    using drained_ctrl[OF inv assms(3,5)] drain_requests[OF assms(5)] assms(4)
    by (simp add: wedged_def recording_started_def)
  from steps_wedged[OF assms(6), unfolded run snd_conv] this assms(2) have
    "wedged i (requests (trace (proxy s))) (proxy t)" by simp
  then show ?thesis by (simp add: run wedged_def)
qed

definition demo_sidecar :: sidecar where
  "demo_sidecar = \<lparr>proxy = demo_world, serving = True, retransmitting = True, disturbed = False\<rparr>"

lemma demo_sidecar_reachable: "reachable demo_env demo_sidecar"
proof -
  have "start_listening demo_env MeshProxy = (Inr (), demo_world)"
    by (simp add: start_listening_def self_mesh_ip_def pseq_pmod pmod_run pret_run demo_world_def MeshProxy_def)
  then have listen: "proxy (sidecar_started demo_env) = demo_world" by (simp add: sidecar_started_def)
  moreover have "start_serving demo_env demo_world = (Inr (), demo_world)"
    by (rule not_restoring) (simp add: restoring_def)
  ultimately have "(sidecar_started demo_env)\<lparr>proxy := snd (start_serving demo_env (proxy (sidecar_started demo_env))),
      serving := True, retransmitting := True\<rparr> = demo_sidecar"
    by (simp add: demo_sidecar_def sidecar_started_def)
  then show ?thesis
    using reachable.Step[OF reachable.Started event_step.Start_resumes, of demo_env] by (simp add: sidecar_started_def)
qed

theorem undecodable_id_wedges_forever_witness:
  "is_snapshotting (snapshot_ctrl (snd (process_message demo_env ''10.24.24.11'' 0
     (MARKER @ [CHR 0xFF]) 0 0 [] demo_world)))"
proof -
  let ?w = "recording_started demo_env [CHR 0xFF] ''10.24.24.11'' demo_world"
  have "drain_intercept demo_env ?w = (Inr (), ?w)"
    by (simp add: drain_intercept_pfor recording_started_def pret_run)
  with undecodable_id_wedges_forever[OF demo_sidecar_reachable _ _ _ _ rtranclp.rtrancl_refl,
      where i = "[CHR 0xFF]" and ip = "''10.24.24.11''" and v = ?w and seq = 0 and sp = 0 and dp = 0 and tip = "[]"]
  show ?thesis by (auto simp: demo_sidecar_def SnapshotController_def)
qed

text \<open>
  C21: When an application datagram pending at the first marker cannot be sent, the drain raises
  before the checkpoint, and the controller stays in a snapshot without a deadline and without
  channels. In every later state of the sidecar, whatever happened in between, either this still
  holds, and then no timeout ends it, the markers of every other snapshot are dropped and every
  message from a member still awaited raises instead of being delivered; or the markers of that
  very snapshot from the other members ended it, and then the next request after the error was
  an artifact that claims to be complete, for which no checkpoint was ever asked.
\<close>

theorem drain_error_wedges_controller:
  assumes "world_inv (proxy s)" and "serving s" and "\<not> is_snapshotting (snapshot_ctrl (proxy s))"
    and "drain_intercept E (recording_started E i ip (proxy s)) = (Inl e, v)"
    and "(event_step E)\<^sup>*\<^sup>* (s\<lparr>proxy := snd (process_message E ip seq (MARKER @ i) sp dp tip (proxy s))\<rparr>) t"
  shows "process_message E ip seq (MARKER @ i) sp dp tip (proxy s) = (Inl e, v)
    \<and> set (recording_channels (snapshot_ctrl v)) = set (others E (proxy s)) - {ip}
    \<and> (is_snapshotting (snapshot_ctrl (proxy t)) \<and> current_snapshot_id (snapshot_ctrl (proxy t)) = Some i
        \<and> snapshot_deadline (snapshot_ctrl (proxy t)) = None
        \<and> requests (trace (proxy t)) = requests (trace (proxy s))
        \<and> check_timeout E (process_and_deliver E) (proxy t) = (Inr (), proxy t)
        \<and> (\<forall>j jp n a b c. j \<noteq> i \<longrightarrow> utf8_valid j \<longrightarrow>
             process_message E jp n (MARKER @ j) a b c (proxy t) = (Inr True, proxy t))
        \<and> (\<forall>jp\<in>set (recording_channels (snapshot_ctrl (proxy t))). \<forall>p n a b c. \<not> starts_with MARKER p \<longrightarrow>
             process_and_deliver E n p jp a b c (proxy t) = (Inl KeyError, proxy t))
      \<or> set (others E (proxy s)) - {ip} \<noteq> {}
        \<and> (\<exists>sid ps more. requests (trace (proxy t)) = requests (trace (proxy s))
             @ PostSnapshotState (JObj [(''snapshot_id'', sid), (''node'', JStr (container_id E)),
                 (''status'', JStr ''complete''), (''peers'', JObj ps)]) # more))"
proof -
  let ?R = "set (others E (proxy s)) - {ip}" and ?rs = "requests (trace (proxy s))"
  note c = drained_ctrl[OF assms(1,3,4)]
  have "open_cut E ip seq (MARKER @ i) (proxy s) = (Inl e, v)"
    by (simp add: open_cut_drain pseq_run assms(4))
  note run = process_message_raising[OF assms(3) this, of sp dp tip]
  have "half_open i ?R ?rs v"
    using c drain_requests[OF assms(4)] by (simp add: half_open_def recording_started_def)
  then have "stuck E i ?R ?rs (proxy t)"
    using steps_stuck[OF assms(5), unfolded run snd_conv, of i ?R ?rs] assms(2) by (simp add: stuck_def)
  then consider (wait) "half_open i ?R ?rs (proxy t)" | (over) "false_cut E ?R ?rs (proxy t)"
    by (auto simp: stuck_def)
  then show ?thesis
  proof cases
    case wait
    with run c(5) half_open_behaves[OF wait, where E = E] show ?thesis by (simp add: half_open_def)
  qed (use run c(5) in \<open>simp add: false_cut_def\<close>)
qed

text \<open>A host whose kernel refuses every datagram of the spoofing sockets.\<close>

definition deaf_env :: env where
  "deaf_env = demo_env\<lparr>send_ok := (\<lambda>_. False)\<rparr>"

lemma spoof_deliver_fails:
  assumes "\<forall>n. \<not> send_ok E n"
  shows "\<exists>v. spoof_deliver E p ip sp dp tip w = (Inl OSError, v) \<and> delivered (trace v) = delivered (trace w)"
proof -
  obtain v where "spoof_deliver E p ip sp dp tip w = (Inl OSError, v)" "hands_over w v []"
    by (rule spoof_deliver_refused[OF assms])
  then show ?thesis by (auto simp: hands_over_def)
qed

definition demo_outside :: world where
  "demo_outside = demo_world\<lparr>local_sock :=
     map queued [(replicate 4 (CHR 0x08), 53, ''10.24.24.10'', 5000, ''q'')]\<rparr>"

lemma demo_drain_fails:
  obtains v where "drain_intercept deaf_env (recording_started deaf_env i ip demo_outside) = (Inl OSError, v)"
proof -
  let ?dst = "replicate 4 (CHR 0x08)"
  have fails: "\<exists>v. forward_intercepted deaf_env ''q'' (orig_dst_cmsg ?dst 53) (''10.24.24.10'', 5000) w
      = (Inl OSError, v)" for w
  proof -
    have "take 3 ?dst \<noteq> mesh_prefix" by (simp add: mesh_prefix_def numeral_eq_Suc)
    then show ?thesis
      using spoof_deliver_fails[of deaf_env "''q''" "''10.24.24.10''" 5000 53 "quad ?dst" w]
      by (auto simp: forward_intercepted_to forward_outside is_uint_def deaf_env_def)
  qed
  let ?w = "(recording_started deaf_env i ip demo_outside)\<lparr>local_sock := []\<rparr>"
  obtain v where "forward_intercepted deaf_env ''q'' (orig_dst_cmsg ?dst 53) (''10.24.24.10'', 5000) ?w
      = (Inl OSError, v)" using fails by blast
  then have "drain_intercept deaf_env (recording_started deaf_env i ip demo_outside) = (Inl OSError, v)"
    by (simp add: drain_intercept_pfor recording_started_def demo_outside_def take_forward_def pseq_run
        pmod_run del: replicate.simps)
  then show ?thesis by (rule that)
qed

theorem drain_error_wedges_controller_witness:
  "\<exists>v. process_message deaf_env ''127.0.0.1'' 0 (MARKER @ ''s1'') 0 0 [] demo_outside = (Inl OSError, v)
    \<and> process_and_deliver deaf_env 0 ''hello'' ''10.24.24.11'' 1 2 [] (v\<lparr>clock := clock v + 5\<rparr>)
        = (Inl KeyError, v\<lparr>clock := clock v + 5\<rparr>)"
proof -
  let ?s = "demo_sidecar\<lparr>proxy := demo_outside\<rparr>"
  have inv: "world_inv (proxy ?s)" using demo_world_inv by (simp add: demo_outside_def world_inv_def)
  have idle: "serving ?s" "\<not> is_snapshotting (snapshot_ctrl (proxy ?s))"
    by (simp_all add: demo_sidecar_def demo_outside_def SnapshotController_def)
  have mem: "''10.24.24.11'' \<in> set (others deaf_env demo_outside) - {''127.0.0.1''}"
    by (simp add: others_def self_ip_of_def deaf_env_def)
  have hello: "\<not> starts_with MARKER ''hello''" by (simp add: MARKER_def starts_with_def)
  obtain v where v: "drain_intercept deaf_env (recording_started deaf_env ''s1'' ''127.0.0.1'' (proxy ?s)) = (Inl OSError, v)"
    using demo_drain_fails by auto
  note wedge = drain_error_wedges_controller[OF inv idle v, where seq = 0 and sp = 0 and dp = 0 and tip = "[]"]
  from wedge[OF rtranclp.rtrancl_refl]
  have run: "process_message deaf_env ''127.0.0.1'' 0 (MARKER @ ''s1'') 0 0 [] demo_outside = (Inl OSError, v)"
    and rec: "''10.24.24.11'' \<in> set (recording_channels (snapshot_ctrl v))" using mem by simp_all
  let ?t = "demo_sidecar\<lparr>proxy := v\<lparr>clock := clock v + 5\<rparr>\<rparr>"
  have "event_step deaf_env (?s\<lparr>proxy := v\<rparr>) ?t"
    using event_step.Time_passes[of 5 deaf_env "?s\<lparr>proxy := v\<rparr>"] by (simp add: demo_sidecar_def)
  then have "(event_step deaf_env)\<^sup>*\<^sup>* (?s\<lparr>proxy := snd (process_message deaf_env ''127.0.0.1'' 0 (MARKER @ ''s1'') 0 0 []
      (proxy ?s))\<rparr>) ?t" by (simp add: run)
  from wedge[OF this] rec hello
  have "process_and_deliver deaf_env 0 ''hello'' ''10.24.24.11'' 1 2 [] (proxy ?t) = (Inl KeyError, proxy ?t)"
    using drain_requests[OF v] by (auto simp: recording_started_def)
  with run show ?thesis by auto
qed

subsection \<open>An error in the replay of an abort\<close>

lemma replay_msgs_fail:
  assumes "\<forall>n. \<not> send_ok E n"
  shows "\<exists>v. pfor (replay_msg E ip) ms w = (if ms = [] then Inr () else Inl OSError, v)
    \<and> delivered (trace v) = delivered (trace w)"
proof (cases ms)
  case Nil
  then show ?thesis by (simp add: pret_run)
next
  case (Cons m ms')
  from spoof_deliver_fails[OF assms, of "m_payload m" ip "m_src_port m" "m_dst_port m" "m_target_local_ip m" w]
  show ?thesis by (auto simp: Cons replay_msg_def pseq_run)
qed

lemma replay_channels_fail:
  assumes "\<forall>n. \<not> send_ok E n"
  shows "\<exists>v. pfor (replay_channel E) items w
      = (if concat (map snd items) = [] then Inr () else Inl OSError, v)
    \<and> delivered (trace v) = delivered (trace w)"
proof (induction items arbitrary: w)
  case Nil
  then show ?case by (simp add: pret_run)
next
  case (Cons x items)
  let ?u = "upd_ctrl (set_channel (fst x) (sort_key m_seq (snd x))) w"
  obtain v where v: "pfor (replay_msg E (fst x)) (sort_key m_seq (snd x)) ?u
      = (if sort_key m_seq (snd x) = [] then Inr () else Inl OSError, v)"
    "delivered (trace v) = delivered (trace w)"
    using replay_msgs_fail[OF assms, of "fst x" "sort_key m_seq (snd x)" ?u] by auto
  have nil: "sort_key m_seq (snd x) = [] \<longleftrightarrow> snd x = []"
    by (metis length_0_conv length_sort)
  show ?case
  proof (cases "snd x = []")
    case True
    then show ?thesis using v Cons[of v] by (simp add: replay_channel_def pseq_run pmod_run nil)
  next
    case False
    then show ?thesis using v by (simp add: replay_channel_def pseq_run pmod_run nil)
  qed
qed

lemma check_timeout_fails:
  assumes "world_inv w" and "timed_out w" and "current_snapshot_id (snapshot_ctrl w) = Some i"
    and "utf8_valid i" and "\<forall>n. \<not> send_ok E n"
    and "concat (map snd (channel_states (snapshot_ctrl w))) \<noteq> []"
  shows "\<exists>v. check_timeout E (process_and_deliver E) w = (Inl OSError, v)
    \<and> delivered (trace v) = delivered (trace w)"
proof -
  obtain a where art: "build_artifact E ''aborted'' (snapshot_ctrl w) = Inr a"
    using build_artifact_cut[OF assms(3,4)] by blast
  let ?u = "(emit (HttpReq (PostSnapshotState a)) w)\<lparr>clock := clock w + http_ms E (length (trace w))\<rparr>"
  have post: "post_artifact E a w = (Inr (http_ok E (length (trace w))), ?u)"
    by (simp add: post_artifact_def http_call_run)
  have inv: "base_inv ?u" "ctrl_ok (snapshot_ctrl ?u)" using assms(1) by (simp_all add: world_inv_def)
  from replay_channels_fail[OF assms(5), of "channel_states (snapshot_ctrl w)" "upd_ctrl reset_ctrl ?u",
      unfolded if_not_P[OF assms(6)]]
  obtain v where "pfor (replay_channel E) (channel_states (snapshot_ctrl w)) (upd_ctrl reset_ctrl ?u)
      = (Inl OSError, v)" "delivered (trace v) = delivered (trace w)"
    by auto
  then have "abort_snapshot E (process_and_deliver E) w = (Inl OSError, v)"
    using flush_and_reset_run[OF inv, of E 1]
    by (simp add: abort_snapshot_def pbind_pget art pseq_run post process_and_deliver_def
        process_message_def numeral_2_eq_2 del: process_message_n.simps)
  with \<open>delivered (trace v) = delivered (trace w)\<close> show ?thesis
    using assms(2) by (simp add: check_timeout_def pbind_pget)
qed

lemma steps_dead:
  assumes "(event_step E)\<^sup>*\<^sup>* s t" and "serving s" and "\<not> retransmitting s"
  shows "\<not> retransmitting t"
  using steps_keep[where P = "\<lambda>s. \<not> retransmitting s", OF assms] event_step_dead by blast

text \<open>
  C22: When a snapshot times out and the kernel refuses a datagram that was recorded in it,
  the exception ends the retransmission task: the pass resends nothing, the recorded
  messages are not delivered, and in no state the sidecar reaches afterwards does the task
  run again, so that no packet is ever retransmitted and no later snapshot times out.
\<close>

theorem abort_error_ends_retransmission:
  assumes "serving s" and "retransmitting s" and "world_inv (proxy s)" and "timed_out (proxy s)"
    and "current_snapshot_id (snapshot_ctrl (proxy s)) = Some i" and "utf8_valid i"
    and "\<forall>n. \<not> send_ok E n" and "concat (map snd (channel_states (snapshot_ctrl (proxy s)))) \<noteq> []"
  shows "\<exists>t. event_step E s t \<and> proxy t = snd (retransmit_tick E (proxy s))
    \<and> fst (retransmit_tick E (proxy s)) = Inl OSError
    \<and> delivered (trace (proxy t)) = delivered (trace (proxy s))
    \<and> (\<forall>t'. (event_step E)\<^sup>*\<^sup>* t t' \<longrightarrow> \<not> retransmitting t')"
proof -
  obtain v where "check_timeout E (process_and_deliver E) (proxy s) = (Inl OSError, v)"
    and del: "delivered (trace v) = delivered (trace (proxy s))"
    using check_timeout_fails[OF assms(3-8)] by blast
  then have tick: "retransmit_tick E (proxy s) = (Inl OSError, v)"
    by (simp add: retransmit_tick_def pbind_pget pseq_run)
  from event_step.Retransmit[OF assms(1,2) this]
  have "event_step E s (s\<lparr>proxy := v, retransmitting := False\<rparr>)" by simp
  moreover have "\<forall>t'. (event_step E)\<^sup>*\<^sup>* (s\<lparr>proxy := v, retransmitting := False\<rparr>) t' \<longrightarrow> \<not> retransmitting t'"
    using steps_dead assms(1) by fastforce
  ultimately show ?thesis using tick del by fastforce
qed

theorem abort_error_ends_retransmission_witness:
  "\<exists>t. event_step deaf_env (demo_sidecar\<lparr>proxy := demo_late\<rparr>) t \<and> \<not> retransmitting t"
proof -
  have "world_inv demo_late" using demo_late_ok by (simp add: sidecar_ok_def)
  moreover have "current_snapshot_id (snapshot_ctrl demo_late) = Some ''s1''" "utf8_valid ''s1''"
    "concat (map snd (channel_states (snapshot_ctrl demo_late))) \<noteq> []"
    by (simp_all add: demo_late_def utf8_valid_ascii)
  moreover have "\<forall>n. \<not> send_ok deaf_env n" by (simp add: deaf_env_def)
  ultimately show ?thesis
    using abort_error_ends_retransmission[of "demo_sidecar\<lparr>proxy := demo_late\<rparr>" "''s1''" deaf_env]
      demo_late_timed_out by (auto simp: demo_sidecar_def)
qed

end
