(* ===== verification/Breakout.thy ===== *)
theory Breakout
  imports Intercept Routing
begin

text \<open>
  \<^verbatim>\<open>proxy/breakout_receiver.py\<close>: the HTTP front end of podman on the host. It runs one
  request at a time; its state is what it has run and the JSON files under \<open>/tmp\<close>. podman
  itself, and the files it writes, are the environment.
\<close>

subsection \<open>The code\<close>

text \<open>
  How \<open>subprocess.run\<close> ends. \<open>Uncaught\<close> stands for the exceptions that \<open>do_POST\<close> does not catch,
  such as the OSError of a missing program or the UnicodeDecodeError of its output.
\<close>

datatype run_result = Done | CalledProcessError int string | TimeoutExpired | Uncaught

text \<open>
  A file is its path and what \<open>json.load\<close> makes of it (None: it raises). \<open>commands\<close> are the
  argument vectors run so far.
\<close>

record receiver =
  files :: "(string \<times> json option) list"
  commands :: "string list list"

text \<open>The globals \<open>main\<close> fills in, and the answers of podman.\<close>

record host =
  mesh_subnet :: string
  breakout_url :: string
  podman :: "nat \<Rightarrow> string list \<Rightarrow> run_result"

type_synonym command = "receiver \<Rightarrow> run_result \<times> receiver"

text \<open>An argument with a NUL byte raises ValueError before anything is run.\<close>

definition nul_free :: "string list \<Rightarrow> bool" where
  "nul_free argv \<longleftrightarrow> list_all (\<lambda>a. CHR 0x00 \<notin> set a) argv"

definition run :: "host \<Rightarrow> string list \<Rightarrow> command" where
  "run H argv r =
     (if nul_free argv then (podman H (length (commands r)) argv, r\<lparr>commands := commands r @ [argv]\<rparr>)
      else (Uncaught, r))"

definition checkpoint :: "host \<Rightarrow> string \<Rightarrow> string \<Rightarrow> command" where
  "checkpoint H target_id export_path =
     run H [''sudo'', ''podman'', ''container'', ''checkpoint'', target_id,
            ''-e'', export_path, ''--tcp-established'', ''--leave-running'']"

definition restore :: "host \<Rightarrow> string \<Rightarrow> command" where
  "restore H target_path =
     run H [''sudo'', ''podman'', ''container'', ''restore'', ''-i'', target_path,
            ''--tcp-established'']"

definition stop :: "host \<Rightarrow> string \<Rightarrow> command" where
  "stop H container = run H [''sudo'', ''podman'', ''rm'', ''-f'', container]"

text \<open>\<open>".".join(MESH_SUBNET.split("/")[0].split(".")[:3])\<close>\<close>

definition mesh_base :: "host \<Rightarrow> string" where
  "mesh_base H =
     join_with (CHR ''.'') (take 3 (split_on (CHR ''.'') (hd (split_on (CHR ''/'') (mesh_subnet H)))))"

definition QUOTE :: char where "QUOTE = CHR 0x27"

definition NL :: char where "NL = CHR 0x0A"

definition snippet :: "host \<Rightarrow> string \<Rightarrow> string" where
  "snippet H snapshot_id =
     ''import socket'' @ [NL]
     @ ''s = socket.socket(socket.AF_INET, socket.SOCK_DGRAM)'' @ [NL]
     @ ''s.sendto(b'' @ [QUOTE] @ ''__START_SNAPSHOT__:'' @ snapshot_id @ [QUOTE] @ '', ('' @ [QUOTE]
       @ mesh_base H @ ''.250'' @ [QUOTE] @ '', 9999))'' @ [NL]
     @ ''s.close()'' @ [NL]"

definition snapshot_trigger :: "host \<Rightarrow> string \<Rightarrow> string \<Rightarrow> command" where
  "snapshot_trigger H node snapshot_id =
     run H [''sudo'', ''podman'', ''exec'', ''counter-'' @ node, ''python3'', ''-c'',
            snippet H snapshot_id]"

definition run_sidecar :: "host \<Rightarrow> string \<Rightarrow> string \<Rightarrow> command" where
  "run_sidecar H node snapshot_id =
     run H [''sudo'', ''podman'', ''run'', ''-d'', ''--replace'',
            ''--name'', ''sidecar-'' @ node,
            ''--network'', ''container:counter-'' @ node,
            ''--cap-add'', ''NET_ADMIN'',
            ''--sysctl'', ''net.ipv4.ip_nonlocal_bind=1'',
            ''-e'', ''MESH_SUBNET='' @ mesh_subnet H,
            ''-e'', ''BREAKOUT_URL='' @ breakout_url H,
            ''-e'', ''CHECKPOINT_TARGET=counter-'' @ node,
            ''-e'', ''RESTORE_SNAPSHOT_ID='' @ snapshot_id,
            ''sidecar'']"

text \<open>A handler gets the values of its fields, in the order of the route.\<close>

definition ROUTES :: "host \<Rightarrow> (string \<times> ((string list \<Rightarrow> command) \<times> string list)) list" where
  "ROUTES H =
     [(''/checkpoint'', (\<lambda>a. checkpoint H (a ! 0) (a ! 1), [''target_id'', ''export_path''])),
      (''/restore'', (\<lambda>a. restore H (a ! 0), [''target_path''])),
      (''/stop'', (\<lambda>a. stop H (a ! 0), [''container_id''])),
      (''/snapshot_trigger'', (\<lambda>a. snapshot_trigger H (a ! 0) (a ! 1), [''node'', ''snapshot_id''])),
      (''/run_sidecar'', (\<lambda>a. run_sidecar H (a ! 0) (a ! 1), [''node'', ''snapshot_id'']))]"

text \<open>\<open>CONTAINER_ID_RE.fullmatch(value) is not None\<close>\<close>

definition is_alnum :: "char \<Rightarrow> bool" where
  "is_alnum c \<longleftrightarrow> (let n = (of_char c :: nat) in
     48 \<le> n \<and> n \<le> 57 \<or> 65 \<le> n \<and> n \<le> 90 \<or> 97 \<le> n \<and> n \<le> 122)"

definition id_char :: "char \<Rightarrow> bool" where
  "id_char c \<longleftrightarrow> is_alnum c \<or> c = CHR ''_'' \<or> c = CHR ''.'' \<or> c = CHR ''-''"

definition container_id_ok :: "string \<Rightarrow> bool" where
  "container_id_ok s = (case s of [] \<Rightarrow> False | c # cs \<Rightarrow> is_alnum c \<and> list_all id_char cs)"

definition ends_with :: "string \<Rightarrow> string \<Rightarrow> bool" where
  "ends_with p s \<longleftrightarrow> starts_with (rev p) (rev s)"

definition field_ok :: "string \<Rightarrow> json \<Rightarrow> bool" where
  "field_ok field value =
     (case value of
        JStr s \<Rightarrow> if ends_with ''_path'' field then starts_with ''/'' s else container_id_ok s
      | _ \<Rightarrow> False)"

datatype reply = Reply int json | NoReply

definition err :: "string \<Rightarrow> json" where
  "err msg = JObj [(''ok'', JBool False), (''error'', JStr msg)]"

definition ok_body :: json where "ok_body = JObj [(''ok'', JBool True)]"

definition snapshot_path :: "string \<Rightarrow> string \<Rightarrow> string" where
  "snapshot_path snapshot_id node = ''/tmp/snapshot-'' @ snapshot_id @ ''-'' @ node @ ''.json''"

text \<open>\<open>glob.glob(f"/tmp/snapshot-{snapshot_id}-*.json")\<close>: the star does not match a slash.\<close>

definition glob_snapshot :: "string \<Rightarrow> string \<Rightarrow> bool" where
  "glob_snapshot snapshot_id path =
     (let pre = ''/tmp/snapshot-'' @ snapshot_id @ ''-''; rest = drop (length pre) path in
      starts_with pre path \<and> ends_with ''.json'' rest
      \<and> CHR ''/'' \<notin> set rest)"

text \<open>The loop that loads the files; a file that is not JSON raises out of the handler.\<close>

fun load_all :: "(string \<times> json option) list \<Rightarrow> json list option" where
  "load_all [] = Some []"
| "load_all ((path, content) # rest) =
     (case content of None \<Rightarrow> None | Some v \<Rightarrow> map_option (Cons v) (load_all rest))"

definition matching :: "string \<Rightarrow> receiver \<Rightarrow> (string \<times> json option) list" where
  "matching snapshot_id r = sort_key fst (filter (\<lambda>f. glob_snapshot snapshot_id (fst f)) (files r))"

definition do_GET :: "string \<Rightarrow> receiver \<Rightarrow> reply" where
  "do_GET path r =
     (if path = ''/health'' then Reply 200 ok_body
      else if starts_with ''/snapshot/'' path then
        (let snapshot_id = drop (length ''/snapshot/'') path in
         if \<not> container_id_ok snapshot_id then Reply 400 (err ''invalid snapshot id'')
         else
           (case load_all (matching snapshot_id r) of
              None \<Rightarrow> NoReply
            | Some [] \<Rightarrow> Reply 404 (err ''unknown snapshot'')
            | Some nodes \<Rightarrow> Reply 200 (JObj [(''snapshot_id'', JStr snapshot_id), (''nodes'', JArr nodes)])))
      else Reply 404 (err ''unknown endpoint''))"

text \<open>\<open>repr\<close> of a list of plain strings.\<close>

definition show_list :: "string list \<Rightarrow> string" where
  "show_list xs = ''['' @ concat (case map (\<lambda>x. [QUOTE] @ x @ [QUOTE]) xs of [] \<Rightarrow> []
     | y # ys \<Rightarrow> y # map (\<lambda>z. '', '' @ z) ys) @ '']''"

text \<open>The POST of an artifact: the two fields that build the file name are checked.\<close>

definition snapshot_state :: "json option \<Rightarrow> receiver \<Rightarrow> reply \<times> receiver" where
  "snapshot_state body r =
     (case body of
        None \<Rightarrow> (Reply 400 (err ''body must be valid JSON''), r)
      | Some (JObj d) \<Rightarrow>
          (case (map_of d ''snapshot_id'', map_of d ''node'') of
             (Some (JStr snapshot_id), Some (JStr node)) \<Rightarrow>
               if container_id_ok snapshot_id \<and> container_id_ok node then
                 (Reply 200 ok_body,
                  r\<lparr>files := AList.update (snapshot_path snapshot_id node) (Some (JObj d)) (files r)\<rparr>)
               else (Reply 400 (err ''snapshot_id and node must be filename-safe strings''), r)
           | _ \<Rightarrow> (Reply 400 (err ''snapshot_id and node must be filename-safe strings''), r))
      | _ \<Rightarrow> (Reply 400 (err ''snapshot_id and node must be filename-safe strings''), r))"

definition str_of :: "json \<Rightarrow> string" where
  "str_of v = (case v of JStr s \<Rightarrow> s | _ \<Rightarrow> [])"

text \<open>A command of the table; \<open>body[f]\<close> is present for every field when it is read.\<close>

definition run_route ::
    "((string list \<Rightarrow> command) \<times> string list) \<Rightarrow> json option \<Rightarrow> receiver \<Rightarrow> reply \<times> receiver" where
  "run_route route body r =
     (case route of (handler, names) \<Rightarrow>
        (case body of
           None \<Rightarrow> (Reply 400 (err ''body must be valid JSON''), r)
         | Some (JObj d) \<Rightarrow>
             if fst ` set d \<noteq> set names then
               (Reply 400 (err (''expected exactly fields '' @ show_list (sort names))), r)
             else
               (let bad = filter (\<lambda>f. \<not> field_ok f (the (map_of d f))) names in
                if bad \<noteq> [] then
                  (Reply 400 (err (''invalid value for '' @ show_list bad
                     @ '': ids must be alphanumeric, paths absolute'')), r)
                else
                  (case handler (map (\<lambda>f. str_of (the (map_of d f))) names) r of
                     (CalledProcessError code stderr, r') \<Rightarrow>
                       (let s = strip stderr in
                        (Reply 500 (JObj [(''ok'', JBool False), (''exit'', JInt code),
                           (''stderr'', JStr (drop (length s - 2000) s))]), r'))
                   | (TimeoutExpired, r') \<Rightarrow> (Reply 504 (err ''command timed out after 120s''), r')
                   | (Uncaught, r') \<Rightarrow> (NoReply, r')
                   | (Done, r') \<Rightarrow> (Reply 200 ok_body, r')))
         | Some _ \<Rightarrow> (Reply 400 (err (''expected exactly fields '' @ show_list (sort names))), r)))"

definition do_POST :: "host \<Rightarrow> string \<Rightarrow> json option \<Rightarrow> receiver \<Rightarrow> reply \<times> receiver" where
  "do_POST H path body r =
     (if path = ''/snapshot_state'' then snapshot_state body r
      else
        (case map_of (ROUTES H) path of
           None \<Rightarrow> (Reply 404 (err (''unknown endpoint; expected '' @ join_with (CHR ''|'') (map fst (ROUTES H)))), r)
         | Some route \<Rightarrow> run_route route body r))"

subsection \<open>What reaches podman\<close>

lemma container_id_ok_chars:
  "container_id_ok s \<Longrightarrow> s \<noteq> [] \<and> is_alnum (hd s) \<and> list_all id_char s"
  by (cases s) (auto simp: container_id_ok_def id_char_def)

text \<open>The characters of an id: no quote, no backslash, no slash, no white space.\<close>

lemma id_char_plain:
  "id_char c \<Longrightarrow> c \<noteq> QUOTE \<and> c \<noteq> CHR 0x5C \<and> c \<noteq> CHR ''/'' \<and> c \<noteq> NL \<and> c \<noteq> CHR '' ''"
  by (auto simp: id_char_def is_alnum_def QUOTE_def NL_def)

lemma container_id_no_dash: "container_id_ok s \<Longrightarrow> \<not> starts_with ''-'' s"
  by (cases s) (auto simp: container_id_ok_def is_alnum_def starts_with_def)

lemma path_no_dash: "starts_with ''/'' s \<Longrightarrow> \<not> starts_with ''-'' s"
  by (cases s) (auto simp: starts_with_def)

lemma starts_with_Cons [simp]: "starts_with (c # p) (d # s) \<longleftrightarrow> c = d \<and> starts_with p s"
  by (auto simp: starts_with_def)

lemma starts_with_Nil [simp]: "starts_with [] s"
  by (simp add: starts_with_def)

lemma field_ok_simps:
  "field_ok ''target_id'' v \<longleftrightarrow> (\<exists>s. v = JStr s \<and> container_id_ok s)"
  "field_ok ''container_id'' v \<longleftrightarrow> (\<exists>s. v = JStr s \<and> container_id_ok s)"
  "field_ok ''node'' v \<longleftrightarrow> (\<exists>s. v = JStr s \<and> container_id_ok s)"
  "field_ok ''snapshot_id'' v \<longleftrightarrow> (\<exists>s. v = JStr s \<and> container_id_ok s)"
  "field_ok ''export_path'' v \<longleftrightarrow> (\<exists>s. v = JStr s \<and> starts_with ''/'' s)"
  "field_ok ''target_path'' v \<longleftrightarrow> (\<exists>s. v = JStr s \<and> starts_with ''/'' s)"
  by (simp_all add: field_ok_def ends_with_def split: json.split)

text \<open>A POST to the table: refused without a trace, or one command and its outcome.\<close>

definition answers :: "run_result \<Rightarrow> reply \<Rightarrow> bool" where
  "answers res rep \<longleftrightarrow> (case res of
     Done \<Rightarrow> rep = Reply 200 ok_body
   | TimeoutExpired \<Rightarrow> rep = Reply 504 (err ''command timed out after 120s'')
   | CalledProcessError code _ \<Rightarrow> (\<exists>msg. rep = Reply 500 (JObj [(''ok'', JBool False), (''exit'', JInt code),
       (''stderr'', JStr msg)]))
   | Uncaught \<Rightarrow> rep = NoReply)"

lemma run_route_cases:
  assumes "run_route (handler, names) body r = (rep, r')"
  obtains (refused) b where "rep = Reply 400 b" and "r' = r"
  | (ran) d where "body = Some (JObj d)" and "fst ` set d = set names"
      and "\<forall>f\<in>set names. field_ok f (the (map_of d f))"
      and "answers (fst (handler (map (\<lambda>f. str_of (the (map_of d f))) names) r)) rep"
      and "r' = snd (handler (map (\<lambda>f. str_of (the (map_of d f))) names) r)"
proof (cases "\<exists>d. body = Some (JObj d) \<and> fst ` set d = set names
    \<and> filter (\<lambda>f. \<not> field_ok f (the (map_of d f))) names = []")
  case True
  then obtain d where d: "body = Some (JObj d)" "fst ` set d = set names"
    "filter (\<lambda>f. \<not> field_ok f (the (map_of d f))) names = []" by blast
  obtain res v where h: "handler (map (\<lambda>f. str_of (the (map_of d f))) names) r = (res, v)" by fastforce
  from assms d h have "answers res rep" "r' = v"
    by (auto simp: run_route_def answers_def Let_def split: run_result.splits)
  then show ?thesis using d h by (intro ran[of d]) (simp_all add: filter_empty_conv)
next
  case False
  then have "\<exists>b. rep = Reply 400 b \<and> r' = r"
    using assms by (auto simp: run_route_def Let_def split: option.splits json.splits if_splits)
  then show ?thesis using refused by blast
qed

text \<open>
  The requests that run something, and what they run: the fields they must have, the values
  the fields may have, and the argument vector.
\<close>

inductive request_command :: "host \<Rightarrow> string \<Rightarrow> (string \<times> json) list \<Rightarrow> string list \<Rightarrow> bool" for H where
  Checkpoint: "fst ` set d = {''target_id'', ''export_path''} \<Longrightarrow>
    map_of d ''target_id'' = Some (JStr t) \<Longrightarrow> map_of d ''export_path'' = Some (JStr p) \<Longrightarrow>
    container_id_ok t \<Longrightarrow> starts_with ''/'' p \<Longrightarrow>
    request_command H ''/checkpoint'' d [''sudo'', ''podman'', ''container'', ''checkpoint'', t,
      ''-e'', p, ''--tcp-established'', ''--leave-running'']"
| Restore: "fst ` set d = {''target_path''} \<Longrightarrow> map_of d ''target_path'' = Some (JStr p) \<Longrightarrow>
    starts_with ''/'' p \<Longrightarrow>
    request_command H ''/restore'' d [''sudo'', ''podman'', ''container'', ''restore'', ''-i'', p,
      ''--tcp-established'']"
| Stop: "fst ` set d = {''container_id''} \<Longrightarrow> map_of d ''container_id'' = Some (JStr t) \<Longrightarrow>
    container_id_ok t \<Longrightarrow> request_command H ''/stop'' d [''sudo'', ''podman'', ''rm'', ''-f'', t]"
| Trigger: "fst ` set d = {''node'', ''snapshot_id''} \<Longrightarrow>
    map_of d ''node'' = Some (JStr n) \<Longrightarrow> map_of d ''snapshot_id'' = Some (JStr i) \<Longrightarrow>
    container_id_ok n \<Longrightarrow> container_id_ok i \<Longrightarrow>
    request_command H ''/snapshot_trigger'' d [''sudo'', ''podman'', ''exec'', ''counter-'' @ n,
      ''python3'', ''-c'', snippet H i]"
| Run_sidecar: "fst ` set d = {''node'', ''snapshot_id''} \<Longrightarrow>
    map_of d ''node'' = Some (JStr n) \<Longrightarrow> map_of d ''snapshot_id'' = Some (JStr i) \<Longrightarrow>
    container_id_ok n \<Longrightarrow> container_id_ok i \<Longrightarrow>
    request_command H ''/run_sidecar'' d [''sudo'', ''podman'', ''run'', ''-d'', ''--replace'',
      ''--name'', ''sidecar-'' @ n, ''--network'', ''container:counter-'' @ n,
      ''--cap-add'', ''NET_ADMIN'', ''--sysctl'', ''net.ipv4.ip_nonlocal_bind=1'',
      ''-e'', ''MESH_SUBNET='' @ mesh_subnet H, ''-e'', ''BREAKOUT_URL='' @ breakout_url H,
      ''-e'', ''CHECKPOINT_TARGET=counter-'' @ n, ''-e'', ''RESTORE_SNAPSHOT_ID='' @ i, ''sidecar'']"

lemmas command_simps = checkpoint_def restore_def stop_def snapshot_trigger_def run_sidecar_def

lemma keys_Some: "f \<in> fst ` set d \<Longrightarrow> \<exists>v. map_of d f = Some v"
  by (meson not_None_eq map_of_eq_None_iff)

lemma route_command:
  assumes "map_of (ROUTES H) path = Some (handler, names)" and "fst ` set d = set names"
    and "\<forall>f\<in>set names. field_ok f (the (map_of d f))"
  obtains argv where "request_command H path d argv"
    and "handler (map (\<lambda>f. str_of (the (map_of d f))) names) = run H argv"
proof -
  have val: "\<exists>s. map_of d f = Some (JStr s) \<and> field_ok f (JStr s)" if "f \<in> set names" for f
  proof -
    obtain v where v: "map_of d f = Some v" "field_ok f v"
      using keys_Some[of f d] assms(2,3) \<open>f \<in> set names\<close> by (metis option.sel)
    then show ?thesis by (cases v) (auto simp: field_ok_def)
  qed
  have two: "\<exists>s t. map_of d f = Some (JStr s) \<and> field_ok f (JStr s)
      \<and> map_of d g = Some (JStr t) \<and> field_ok g (JStr t)" if "names = [f, g]" for f g
    using val[of f] val[of g] that by simp
  have "\<exists>argv. request_command H path d argv
      \<and> handler (map (\<lambda>f. str_of (the (map_of d f))) names) = run H argv"
  proof -
    consider "path = ''/checkpoint''" | "path = ''/restore''" | "path = ''/stop''"
      | "path = ''/snapshot_trigger''" | "path = ''/run_sidecar''"
      using assms(1) by (auto simp: ROUTES_def split: if_splits)
    then show ?thesis
    proof cases
      case 1
      with assms(1) have r: "names = [''target_id'', ''export_path'']" "handler = (\<lambda>a. checkpoint H (a ! 0) (a ! 1))"
        by (simp_all add: ROUTES_def)
      from two[OF r(1)] obtain t p where "map_of d ''target_id'' = Some (JStr t)" "container_id_ok t"
        "map_of d ''export_path'' = Some (JStr p)" "starts_with ''/'' p" by (auto simp: field_ok_simps)
      with request_command.Checkpoint[of d t p H] assms(2) 1 show ?thesis by (auto simp: r str_of_def checkpoint_def)
    next
      case 2
      with assms(1) have r: "names = [''target_path'']" "handler = (\<lambda>a. restore H (a ! 0))"
        by (simp_all add: ROUTES_def)
      from val[of "''target_path''"] obtain p where "map_of d ''target_path'' = Some (JStr p)" "starts_with ''/'' p"
        by (auto simp: r field_ok_simps)
      with request_command.Restore[of d p H] assms(2) 2 show ?thesis by (auto simp: r str_of_def restore_def)
    next
      case 3
      with assms(1) have r: "names = [''container_id'']" "handler = (\<lambda>a. stop H (a ! 0))"
        by (simp_all add: ROUTES_def)
      from val[of "''container_id''"] obtain t where "map_of d ''container_id'' = Some (JStr t)" "container_id_ok t"
        by (auto simp: r field_ok_simps)
      with request_command.Stop[of d t H] assms(2) 3 show ?thesis by (auto simp: r str_of_def stop_def)
    next
      case 4
      with assms(1) have r: "names = [''node'', ''snapshot_id'']" "handler = (\<lambda>a. snapshot_trigger H (a ! 0) (a ! 1))"
        by (simp_all add: ROUTES_def)
      from two[OF r(1)] obtain n i where "map_of d ''node'' = Some (JStr n)" "container_id_ok n"
        "map_of d ''snapshot_id'' = Some (JStr i)" "container_id_ok i" by (auto simp: field_ok_simps)
      with request_command.Trigger[of d n i H] assms(2) 4 show ?thesis by (auto simp: r str_of_def snapshot_trigger_def)
    next
      case 5
      with assms(1) have r: "names = [''node'', ''snapshot_id'']" "handler = (\<lambda>a. run_sidecar H (a ! 0) (a ! 1))"
        by (simp_all add: ROUTES_def)
      from two[OF r(1)] obtain n i where "map_of d ''node'' = Some (JStr n)" "container_id_ok n"
        "map_of d ''snapshot_id'' = Some (JStr i)" "container_id_ok i" by (auto simp: field_ok_simps)
      with request_command.Run_sidecar[of d n i H] assms(2) 5 show ?thesis by (auto simp: r str_of_def run_sidecar_def)
    qed
  qed
  then show ?thesis using that by blast
qed

text \<open>The options the commands contain: no other argument can be read as one.\<close>

definition podman_flags :: "string list" where
  "podman_flags = [''-e'', ''-i'', ''-f'', ''-c'', ''-d'', ''--tcp-established'', ''--leave-running'',
     ''--replace'', ''--name'', ''--network'', ''--cap-add'', ''--sysctl'']"

lemma request_command_flags:
  assumes "request_command H path d argv"
  shows "\<forall>a\<in>set argv. starts_with ''-'' a \<longrightarrow> a \<in> set podman_flags"
  using assms
  by (cases rule: request_command.cases)
    (simp_all add: podman_flags_def snippet_def container_id_no_dash path_no_dash)

lemma request_command_values:
  assumes "request_command H path d argv" and "map_of d f = Some v"
  shows "\<exists>s. v = JStr s \<and> (if ends_with ''_path'' f then starts_with ''/'' s else s \<noteq> [] \<and> list_all id_char s)"
proof -
  have f: "f \<in> fst ` set d" using assms(2) by (metis map_of_SomeD fst_conv image_eqI)
  have id: "s \<noteq> [] \<and> list_all id_char s" if "container_id_ok s" for s
    using container_id_ok_chars[OF that] by simp
  from assms(1) show ?thesis
  proof cases
    case (Checkpoint t p)
    with f consider "f = ''target_id''" | "f = ''export_path''" by auto
    then show ?thesis using Checkpoint assms(2) id[of t] by cases (auto simp: ends_with_def)
  next
    case (Restore p)
    with f have "f = ''target_path''" by auto
    with Restore assms(2) show ?thesis by (auto simp: ends_with_def)
  next
    case (Stop t)
    with f have "f = ''container_id''" by auto
    with Stop assms(2) id[of t] show ?thesis by (auto simp: ends_with_def)
  next
    case (Trigger n i)
    with f consider "f = ''node''" | "f = ''snapshot_id''" by auto
    then show ?thesis using Trigger assms(2) id[of n] id[of i] by cases (auto simp: ends_with_def)
  next
    case (Run_sidecar n i)
    with f consider "f = ''node''" | "f = ''snapshot_id''" by auto
    then show ?thesis using Run_sidecar assms(2) id[of n] id[of i] by cases (auto simp: ends_with_def)
  qed
qed

lemma snapshot_state_cases:
  assumes "snapshot_state body r = (rep, r')"
  obtains (refused) b where "rep = Reply 400 b" and "r' = r"
  | (stored) d i n where "body = Some (JObj d)" and "map_of d ''snapshot_id'' = Some (JStr i)"
      and "map_of d ''node'' = Some (JStr n)" and "container_id_ok i" and "container_id_ok n"
      and "rep = Reply 200 ok_body"
      and "r' = r\<lparr>files := AList.update (snapshot_path i n) (Some (JObj d)) (files r)\<rparr>"
  using assms unfolding snapshot_state_def
  by (auto split: option.splits json.splits if_splits)

lemma do_POST_cases:
  assumes "do_POST H path body r = (rep, r')"
  obtains (refused) b where "rep = Reply (if path \<in> {''/snapshot_state''} \<union> fst ` set (ROUTES H) then 400 else 404) b"
      and "r' = r"
  | (stored) d i n where "path = ''/snapshot_state''" and "body = Some (JObj d)"
      and "map_of d ''snapshot_id'' = Some (JStr i)" and "map_of d ''node'' = Some (JStr n)"
      and "container_id_ok i" and "container_id_ok n" and "rep = Reply 200 ok_body"
      and "r' = r\<lparr>files := AList.update (snapshot_path i n) (Some (JObj d)) (files r)\<rparr>"
  | (ran) d argv where "body = Some (JObj d)" and "request_command H path d argv"
      and "answers (fst (run H argv r)) rep" and "r' = snd (run H argv r)"
proof (cases "path = ''/snapshot_state''")
  case True
  with assms have "snapshot_state body r = (rep, r')" by (simp add: do_POST_def)
  then show ?thesis by (cases rule: snapshot_state_cases) (use True refused stored in auto)
next
  case False
  show ?thesis
  proof (cases "map_of (ROUTES H) path")
    case None
    then have "path \<notin> fst ` set (ROUTES H)" by (simp add: map_of_eq_None_iff)
    with None False assms refused show ?thesis by (auto simp: do_POST_def)
  next
    case (Some route)
    obtain handler names where route: "route = (handler, names)" by (cases route)
    have mem: "path \<in> fst ` set (ROUTES H)" using map_of_SomeD[OF Some] by force
    from route Some False assms have "run_route (handler, names) body r = (rep, r')" by (simp add: do_POST_def)
    then show ?thesis
    proof (cases rule: run_route_cases)
      case (refused b)
      then show ?thesis using that(1)[of b] mem by simp
    next
      case (ran d)
      from route_command[OF Some[unfolded route] ran(2,3)] obtain argv where "request_command H path d argv"
        "handler (map (\<lambda>f. str_of (the (map_of d f))) names) = run H argv" by blast
      with ran show ?thesis by (intro that(3)[of d argv]) simp_all
    qed
  qed
qed

text \<open>A request determines its command.\<close>

lemma request_command_functional:
  "request_command H path d argv \<Longrightarrow> request_command H path d argv' \<Longrightarrow> argv' = argv"
  by (erule request_command.cases; erule request_command.cases; simp)

lemma request_command_path: "request_command H path d argv \<Longrightarrow> path \<noteq> ''/snapshot_state''"
  by (erule request_command.cases) simp_all

lemma request_command_run:
  assumes "request_command H path d argv" and "do_POST H path (Some (JObj d)) r = (rep, r')"
  shows "answers (fst (run H argv r)) rep \<and> r' = snd (run H argv r)"
  using assms
  by (cases rule: request_command.cases;
      cases "run H argv r"; cases "fst (run H argv r)";
      fastforce simp: do_POST_def ROUTES_def run_route_def Let_def field_ok_simps str_of_def command_simps answers_def)

subsection \<open>What a GET serves\<close>

lemma starts_with_appendI [simp]: "starts_with (p @ q) (p @ s) \<longleftrightarrow> starts_with q s"
  by (simp add: starts_with_def)

lemma ends_with_append [simp]: "ends_with p (s @ p)"
  by (simp add: ends_with_def)

lemma container_id_no_slash: "container_id_ok s \<Longrightarrow> CHR ''/'' \<notin> set s"
  using container_id_ok_chars[of s] id_char_plain by (auto simp: list_all_iff)

lemma glob_own: "CHR ''/'' \<notin> set n \<Longrightarrow> glob_snapshot i (snapshot_path i n)"
  by (simp add: glob_snapshot_def snapshot_path_def Let_def flip: append_assoc)

lemma load_all_loaded: "list_all (\<lambda>f. snd f \<noteq> None) fs \<Longrightarrow> load_all fs = Some (map (the \<circ> snd) fs)"
  by (induction fs rule: load_all.induct) auto

lemma set_matching: "set (matching i r) = {f \<in> set (files r). glob_snapshot i (fst f)}"
  by (simp add: matching_def)

lemma distinct_matching: "distinct (map fst (files r)) \<Longrightarrow> distinct (map fst (matching i r))"
  by (auto simp: matching_def distinct_map intro: inj_on_subset)

text \<open>A receiver whose files for a snapshot are artifacts of other nodes.\<close>

definition others_only :: "string \<Rightarrow> string \<Rightarrow> receiver \<Rightarrow> bool" where
  "others_only i n r \<longleftrightarrow> distinct (map fst (files r))
     \<and> list_all (\<lambda>f. glob_snapshot i (fst f) \<and> fst f \<noteq> snapshot_path i n
          \<longrightarrow> (\<exists>v. snd f = Some v \<and> other_node n v)) (files r)"

text \<open>The path and the reply of a GET of a snapshot.\<close>

lemma do_GET_snapshot:
  assumes "container_id_ok i" and "load_all (matching i r) = Some nodes" and "nodes \<noteq> []"
  shows "do_GET (''/snapshot/'' @ i) r = Reply 200 (snapshot_body i nodes)"
  using assms by (cases nodes) (simp_all add: do_GET_def Let_def snapshot_body_def)

text \<open>After an artifact has been stored, the GET serves it, behind those of other nodes only.\<close>

lemma stored_is_served:
  assumes r: "others_only i n r" and i: "container_id_ok i" and n: "container_id_ok n"
    and r': "r' = r\<lparr>files := AList.update (snapshot_path i n) (Some a) (files r)\<rparr>"
  obtains before rest where "do_GET (''/snapshot/'' @ i) r' = Reply 200 (snapshot_body i (before @ a # rest))"
    and "list_all (other_node n) before"
proof -
  let ?p = "snapshot_path i n"
  have keys: "distinct (map fst (files r))" using r by (simp add: others_only_def)
  have new: "map_of (files r') ?p = Some (Some a)" "distinct (map fst (files r'))"
    using keys by (simp_all add: r')
  have old: "f \<in> set (files r)" if "f \<in> set (files r')" "fst f \<noteq> ?p" for f
  proof -
    have "map_of (files r') (fst f) = Some (snd f)"
      by (rule map_of_is_SomeI[OF new(2)]) (simp add: that(1))
    then have "map_of (files r) (fst f) = Some (snd f)" using that(2) by (simp add: r')
    then show ?thesis by (cases f) (simp add: map_of_SomeD)
  qed
  have own: "snd f = Some a" if "f \<in> set (files r')" "fst f = ?p" for f
    using map_of_is_SomeI[OF new(2), of "fst f" "snd f"] that new(1) by (cases f) simp
  have others: "\<exists>v. snd f = Some v \<and> other_node n v" if "f \<in> set (matching i r')" "fst f \<noteq> ?p" for f
    using that r old[of f] by (auto simp: set_matching others_only_def list_all_iff)
  have mem: "(?p, Some a) \<in> set (matching i r')"
    using map_of_SomeD[OF new(1)] glob_own[OF container_id_no_slash[OF n]] by (simp add: set_matching)
  then obtain xs ys where split: "matching i r' = xs @ (?p, Some a) # ys" by (auto dest: split_list)
  have xs: "fst f \<noteq> ?p" if "f \<in> set xs" for f
    using distinct_matching[OF new(2), of i] that by (force simp: split)
  have "list_all (\<lambda>f. snd f \<noteq> None) (matching i r')"
  proof (unfold list_all_iff, rule ballI)
    fix f assume f: "f \<in> set (matching i r')"
    show "snd f \<noteq> None"
      using others[OF f] own[of f] f by (cases "fst f = ?p") (auto simp: set_matching)
  qed
  from load_all_loaded[OF this]
  have "load_all (matching i r') = Some (map (the \<circ> snd) xs @ a # map (the \<circ> snd) ys)"
    by (simp add: split)
  from do_GET_snapshot[OF i this] have
    "do_GET (''/snapshot/'' @ i) r' = Reply 200 (snapshot_body i (map (the \<circ> snd) xs @ a # map (the \<circ> snd) ys))"
    by simp
  moreover have "list_all (other_node n) (map (the \<circ> snd) xs)"
    using others xs by (fastforce simp: list_all_iff split)
  ultimately show ?thesis by (rule that)
qed

lemma snapshot_id_json_cases:
  assumes "snapshot_id_json c = Inr sid"
  shows "(\<exists>i. i \<noteq> [] \<and> current_snapshot_id c = Some i \<and> sid = JStr i)
    \<or> current_snapshot_id c \<in> {None, Some []} \<and> sid = JNull"
proof (cases "current_snapshot_id c")
  case (Some i)
  with assms show ?thesis
    by (cases i) (auto simp: snapshot_id_json_def decode_def simp del: utf8_valid.simps(2) split: if_splits)
qed (use assms in \<open>simp add: snapshot_id_json_def\<close>)

subsection \<open>Properties\<close>

text \<open>
  C17: No request makes the receiver run anything but its own commands with checked values: a
  POST either runs nothing, or it runs the command of its endpoint, on a body that has exactly
  the fields of the endpoint, in which every id consists of id characters only and every path
  is absolute; and every argument that podman could read as an option is one of the fixed
  options of the receiver.
\<close>

theorem requests_cannot_inject_options:
  assumes "do_POST H path body r = (rep, r')"
  shows "commands r' = commands r \<or> (\<exists>d argv. body = Some (JObj d) \<and> request_command H path d argv
    \<and> commands r' = commands r @ [argv]
    \<and> (\<forall>f v. map_of d f = Some v \<longrightarrow>
         (\<exists>s. v = JStr s \<and> (if ends_with ''_path'' f then starts_with ''/'' s else s \<noteq> [] \<and> list_all id_char s)))
    \<and> (\<forall>a\<in>set argv. starts_with ''-'' a \<longrightarrow> a \<in> set podman_flags))"
  using assms
proof (cases rule: do_POST_cases)
  case (ran d argv)
  from request_command_flags[OF ran(2)] request_command_values[OF ran(2)] ran show ?thesis
    by (auto simp: run_def)
qed auto

definition demo_host :: host where
  "demo_host = \<lparr>mesh_subnet = ''10.24.24.0/24'', breakout_url = ''http://10.99.0.1:8989'',
     podman = (\<lambda>_ _. Done)\<rparr>"

definition demo_receiver :: receiver where
  "demo_receiver = \<lparr>files = [], commands = []\<rparr>"

theorem requests_cannot_inject_options_witness:
  "commands (snd (do_POST demo_host ''/stop'' (Some (JObj [(''container_id'', JStr ''-rf'')])) demo_receiver)) = []
    \<and> commands (snd (do_POST demo_host ''/stop'' (Some (JObj [(''container_id'', JStr ''app'')])) demo_receiver))
      = [[''sudo'', ''podman'', ''rm'', ''-f'', ''app'']]"
proof -
  have field: "\<not> field_ok ''container_id'' (JStr ''-rf'')" "field_ok ''container_id'' (JStr ''app'')"
    by (simp_all add: field_ok_simps container_id_ok_def is_alnum_def id_char_def)
  have run: "do_POST demo_host ''/stop'' (Some (JObj [(''container_id'', JStr ''app'')])) demo_receiver
      = (Reply 200 ok_body, demo_receiver\<lparr>commands := [[''sudo'', ''podman'', ''rm'', ''-f'', ''app'']]\<rparr>)"
    using field(2) by (simp add: do_POST_def ROUTES_def run_route_def Let_def stop_def run_def str_of_def
        nul_free_def demo_host_def demo_receiver_def)
  have "snd (do_POST demo_host ''/stop'' (Some (JObj [(''container_id'', JStr ''-rf'')])) demo_receiver)
      = demo_receiver"
    using field(1) by (simp add: do_POST_def ROUTES_def run_route_def Let_def)
  then show ?thesis
    using requests_cannot_inject_options[OF run] unfolding run snd_conv by (simp add: demo_receiver_def)
qed

text \<open>
  C18: What a POST to a command answers is what happened. A request that is not one of the
  documented ones runs nothing and is answered 404 where the endpoint is unknown and 400
  otherwise. A documented one runs its command, once, and the status tells how it ended: 200,
  500 with the exit code, or 504. But an argument with a NUL byte, which a path may contain,
  and an exception other than the two expected ones leave the client without any status.
\<close>

theorem status_tells_the_outcome:
  assumes "do_POST H path body r = (rep, r')" and "path \<noteq> ''/snapshot_state''"
  shows "(\<forall>d argv. body = Some (JObj d) \<and> request_command H path d argv \<longrightarrow>
        (if nul_free argv then r' = r\<lparr>commands := commands r @ [argv]\<rparr>
           \<and> (case podman H (length (commands r)) argv of
                Done \<Rightarrow> rep = Reply 200 (JObj [(''ok'', JBool True)])
              | TimeoutExpired \<Rightarrow> rep = Reply 504 (err ''command timed out after 120s'')
              | CalledProcessError code stderr \<Rightarrow> (\<exists>msg. rep = Reply 500 (JObj [(''ok'', JBool False),
                  (''exit'', JInt code), (''stderr'', JStr msg)]))
              | Uncaught \<Rightarrow> rep = NoReply)
         else r' = r \<and> rep = NoReply))
    \<and> ((\<nexists>d argv. body = Some (JObj d) \<and> request_command H path d argv) \<longrightarrow>
        r' = r \<and> (\<exists>b. rep = Reply (if path \<in> set [''/checkpoint'', ''/restore'', ''/stop'',
           ''/snapshot_trigger'', ''/run_sidecar''] then 400 else 404) b))"
proof (intro conjI allI impI)
  fix d argv assume d: "body = Some (JObj d) \<and> request_command H path d argv"
  have "answers (fst (run H argv r)) rep \<and> r' = snd (run H argv r)"
    by (rule request_command_run[OF conjunct2[OF d]]) (use assms(1) d in simp)
  then show "if nul_free argv then r' = r\<lparr>commands := commands r @ [argv]\<rparr>
           \<and> (case podman H (length (commands r)) argv of
                Done \<Rightarrow> rep = Reply 200 (JObj [(''ok'', JBool True)])
              | TimeoutExpired \<Rightarrow> rep = Reply 504 (err ''command timed out after 120s'')
              | CalledProcessError code stderr \<Rightarrow> (\<exists>msg. rep = Reply 500 (JObj [(''ok'', JBool False),
                  (''exit'', JInt code), (''stderr'', JStr msg)]))
              | Uncaught \<Rightarrow> rep = NoReply)
         else r' = r \<and> rep = NoReply"
    by (cases "nul_free argv") (auto simp: run_def answers_def ok_body_def split: run_result.splits)
next
  assume none: "\<nexists>d argv. body = Some (JObj d) \<and> request_command H path d argv"
  from assms(1) have "r' = r \<and> (\<exists>b. rep = Reply (if path \<in> fst ` set (ROUTES H) then 400 else 404) b)"
    by (cases rule: do_POST_cases) (use assms(2) none in auto)
  then show "r' = r" "\<exists>b. rep = Reply (if path \<in> set [''/checkpoint'', ''/restore'', ''/stop'',
           ''/snapshot_trigger'', ''/run_sidecar''] then 400 else 404) b"
    by (simp_all add: ROUTES_def)
qed

theorem status_tells_the_outcome_witness:
  "do_POST demo_host ''/restore'' (Some (JObj [(''target_path'', JStr [CHR ''/'', CHR 0x00])])) demo_receiver
    = (NoReply, demo_receiver)"
proof -
  let ?d = "[(''target_path'', JStr [CHR ''/'', CHR 0x00])]"
  obtain rep r' where p: "do_POST demo_host ''/restore'' (Some (JObj ?d)) demo_receiver = (rep, r')" by fastforce
  have "request_command demo_host ''/restore'' ?d
      [''sudo'', ''podman'', ''container'', ''restore'', ''-i'', [CHR ''/'', CHR 0x00], ''--tcp-established'']"
    by (rule request_command.Restore) simp_all
  moreover have "''/restore'' \<noteq> ''/snapshot_state''" by simp
  note status_tells_the_outcome[OF p this, THEN conjunct1, rule_format, OF conjI[OF refl]]
  ultimately show ?thesis using p by (fastforce simp: nul_free_def)
qed

text \<open>
  What the program of a trigger sends, by the lexical rules of Python: a literal ends at the
  next quote, and the characters of a literal without backslash and line end are its value.
\<close>

definition py_sendto :: "string \<Rightarrow> (bytes \<times> string) option" where
  "py_sendto prog =
     (case split_on QUOTE prog of
        [pre, payload, mid, host, post] \<Rightarrow>
          if pre = ''import socket'' @ [NL] @ ''s = socket.socket(socket.AF_INET, socket.SOCK_DGRAM)'' @ [NL]
               @ ''s.sendto(b''
             \<and> mid = '', ('' \<and> post = '', 9999))'' @ [NL] @ ''s.close()'' @ [NL]
             \<and> list_all (\<lambda>c. c \<noteq> CHR 0x5C \<and> c \<noteq> NL) (payload @ host)
          then Some (payload, host) else None
      | _ \<Rightarrow> None)"

lemma id_char_code: "id_char c \<Longrightarrow> (of_char c :: nat) < 128 \<and> c \<noteq> CHR 0x00"
  by (auto simp: id_char_def is_alnum_def Let_def)

lemma id_chars_plain:
  assumes "list_all id_char s"
  shows "QUOTE \<notin> set s" "list_all (\<lambda>c. c \<noteq> CHR 0x5C \<and> c \<noteq> NL) s" "CHR 0x00 \<notin> set s" "utf8_valid s"
  using assms id_char_plain id_char_code by (auto simp: list_all_iff intro!: utf8_valid_ascii)

lemma snippet_sends:
  assumes "list_all id_char i" and "list_all id_char (mesh_base H)"
  shows "py_sendto (snippet H i) = Some (''__START_SNAPSHOT__:'' @ i, mesh_base H @ ''.250'')"
proof -
  let ?pre = "''import socket'' @ [NL] @ ''s = socket.socket(socket.AF_INET, socket.SOCK_DGRAM)'' @ [NL] @ ''s.sendto(b''"
  let ?lit = "''__START_SNAPSHOT__:'' @ i" and ?host = "mesh_base H @ ''.250''"
  let ?post = "'', 9999))'' @ [NL] @ ''s.close()'' @ [NL]"
  have q: "QUOTE \<notin> set ?pre" "QUOTE \<notin> set ?lit" "QUOTE \<notin> set '', (''" "QUOTE \<notin> set ?host" "QUOTE \<notin> set ?post"
    using id_chars_plain(1)[OF assms(1)] id_chars_plain(1)[OF assms(2)] by (simp_all add: QUOTE_def NL_def)
  have "snippet H i = ?pre @ QUOTE # ?lit @ QUOTE # '', ('' @ QUOTE # ?host @ QUOTE # ?post"
    by (simp add: snippet_def)
  then have "split_on QUOTE (snippet H i) = [?pre, ?lit, '', ('', ?host, ?post]"
    by (simp only: split_on_append[OF q(1)] split_on_append[OF q(2)] split_on_append[OF q(3)]
        split_on_append[OF q(4)] split_on_notin[OF q(5)])
  moreover have "list_all (\<lambda>c. c \<noteq> CHR 0x5C \<and> c \<noteq> NL) (?lit @ ?host)"
    using id_chars_plain(2)[OF assms(1)] id_chars_plain(2)[OF assms(2)] by (simp add: NL_def)
  ultimately show ?thesis unfolding py_sendto_def by simp
qed

text \<open>
  C19: The id of a trigger request reaches the sidecar byte for byte. The receiver runs, in the
  container of the node, a program whose one datagram is the start request with that id; and
  a sidecar that intercepts this datagram opens a snapshot under exactly that id, asks for
  the checkpoint under it and sends every other member a marker that carries it.
\<close>

theorem trigger_keeps_the_id:
  assumes "container_id_ok node" and "container_id_ok i" and "list_all id_char (mesh_base H)"
    and "podman H (length (commands r)) [''sudo'', ''podman'', ''exec'', ''counter-'' @ node,
      ''python3'', ''-c'', snippet H i] = Done"
    and "healthy E w v" and "drain_intercept E (recording_started E i ''127.0.0.1'' w) = (Inr (), v)"
    and "set (others E w) - {''127.0.0.1''} \<noteq> {}"
  shows "do_POST H ''/snapshot_trigger'' (Some (JObj [(''node'', JStr node), (''snapshot_id'', JStr i)])) r
      = (Reply 200 ok_body, r\<lparr>commands := commands r @ [[''sudo'', ''podman'', ''exec'', ''counter-'' @ node,
           ''python3'', ''-c'', snippet H i]]\<rparr>)
    \<and> (\<exists>payload. py_sendto (snippet H i) = Some (payload, mesh_base H @ ''.250'')
      \<and> (\<exists>u. handle_datagram E (payload, ancdata, addr) w = (Inr (), u)
        \<and> current_snapshot_id (snapshot_ctrl u) = Some i
        \<and> requests (trace u) = requests (trace v) @ [checkpoint_req E i]
        \<and> (\<forall>p\<in>set (others E w). (marker_frame v (MARKER @ i) p, p) \<in> set (tunneled (trace u)))))"
proof -
  note i = id_chars_plain[OF conjunct2[OF conjunct2[OF container_id_ok_chars[OF assms(2)]]]]
    and node = id_chars_plain[OF conjunct2[OF conjunct2[OF container_id_ok_chars[OF assms(1)]]]]
    and base = id_chars_plain[OF assms(3)]
  have "nul_free [''sudo'', ''podman'', ''exec'', ''counter-'' @ node, ''python3'', ''-c'', snippet H i]"
    using i(3) node(3) base(3) by (simp add: nul_free_def snippet_def QUOTE_def NL_def)
  then have post: "do_POST H ''/snapshot_trigger'' (Some (JObj [(''node'', JStr node), (''snapshot_id'', JStr i)])) r
      = (Reply 200 ok_body, r\<lparr>commands := commands r @ [[''sudo'', ''podman'', ''exec'', ''counter-'' @ node,
           ''python3'', ''-c'', snippet H i]]\<rparr>)"
    using assms(1,2,4)
    by (simp add: do_POST_def ROUTES_def run_route_def Let_def field_ok_simps str_of_def
        snapshot_trigger_def run_def)
  have sends: "py_sendto (snippet H i) = Some (''__START_SNAPSHOT__:'' @ i, mesh_base H @ ''.250'')"
    by (rule snippet_sends) (use container_id_ok_chars[OF assms(2)] assms(3) in simp_all)
  obtain u where u: "process_message E ''127.0.0.1'' 0 (MARKER @ i) 0 0 ''127.0.0.1'' w = (Inr True, u)"
    and o: "opened E i ''127.0.0.1'' 0 (others E w) v u"
    by (rule first_marker_run[OF assms(5) i(4) assms(6,7), of 0 0 0 "''127.0.0.1''"])
  have "handle_datagram E (''__START_SNAPSHOT__:'' @ i, ancdata, addr) w = (Inr (), u)"
    using u by (simp add: handle_datagram_def START_def starts_with_def start_id_def pbind_pget pseq_run pret_run)
  moreover have tr: "trace u = trace v @ [HttpReq (checkpoint_req E i)]
      @ map (\<lambda>p. TunnelSend (marker_frame v (MARKER @ i) p) p) (others E w)"
    using o by (simp add: opened_def Let_def)
  have "requests (trace u) = requests (trace v) @ [checkpoint_req E i]"
    and "\<forall>p\<in>set (others E w). (marker_frame v (MARKER @ i) p, p) \<in> set (tunneled (trace u))"
    unfolding tr readings_append by (simp_all add: requests_sends tunneled_sends)
  moreover have "current_snapshot_id (snapshot_ctrl u) = Some i" using o by (simp add: opened_def Let_def)
  ultimately show ?thesis using post sends by blast
qed

theorem trigger_keeps_the_id_witness:
  "\<exists>payload u. py_sendto (snippet demo_host ''s1'') = Some (payload, ''10.24.24.250'')
    \<and> handle_datagram demo_env (payload, [], (''10.24.24.10'', 5000)) demo_world = (Inr (), u)
    \<and> current_snapshot_id (snapshot_ctrl u) = Some ''s1''"
proof -
  have ids: "container_id_ok ''a''" "container_id_ok ''s1''"
    by (simp_all add: container_id_ok_def is_alnum_def id_char_def)
  have base: "mesh_base demo_host = ''10.24.24''"
    by (simp add: mesh_base_def demo_host_def numeral_eq_Suc)
  let ?v = "recording_started demo_env ''s1'' ''127.0.0.1'' demo_world"
  have "healthy demo_env demo_world ?v"
    using demo_world_inv by (simp add: healthy_def SnapshotController_def demo_others recording_started_def
        is_uint_def PeerState_def)
  moreover have "drain_intercept demo_env ?v = (Inr (), ?v)"
    by (simp add: drain_intercept_pfor recording_started_def pret_run)
  moreover have "list_all id_char (mesh_base demo_host)" by (simp add: base id_char_def is_alnum_def)
  ultimately show ?thesis
    using trigger_keeps_the_id[OF ids, of demo_host demo_receiver demo_env demo_world ?v "[]" "(''10.24.24.10'', 5000)"]
    by (auto simp: demo_host_def demo_others base[unfolded demo_host_def])
qed

text \<open>
  C11: The cut that a sidecar publishes is the cut its successor resumes from: the receiver
  stores the artifact, serves it under its snapshot id, and a sidecar of the same container
  that reads it back seeds exactly the recorded coordinates and delivers exactly the recorded
  messages, whatever artifacts of other nodes the receiver holds for the snapshot.
\<close>

theorem published_cut_is_restored:
  assumes "container_id_ok i" and "container_id_ok (container_id E')" and "others_only i (container_id E') r"
    and "do_POST H ''/snapshot_state'' (Some (cut_artifact E' st i ps send recv ch)) r = (rep, r')"
    and "do_GET (''/snapshot/'' @ i) r' = Reply code body" and "http_body E (length (trace w)) = body"
    and "idle w" and "\<forall>n. send_ok E n" and "http_ok E (length (trace w))"
    and "RESTORE_SNAPSHOT_ID E = Some i" and "CHECKPOINT_TARGET E = Some (container_id E')"
    and "finite ps" and "\<forall>p\<in>ps. \<forall>m\<in>set (ch p). \<not> starts_with MARKER (m_payload m)"
  shows "rep = Reply 200 ok_body \<and> code = 200 \<and> (\<exists>v. restore_from_artifact E w = (Inr (), v)
    \<and> (\<forall>p\<in>ps. send p \<noteq> None \<longrightarrow> Some (send_seq (peer_of v p)) = send p)
    \<and> (\<forall>p\<in>ps. recv p \<noteq> None \<longrightarrow> Some (recv_seq (peer_of v p)) = recv p)
    \<and> delivered (trace v) = delivered (trace w)
        @ concat (map (\<lambda>p. replayed (p, ch p)) (sorted_list_of_set ps)))"
proof -
  let ?n = "container_id E'"
  let ?a = "cut_artifact E' st i ps send recv ch"
  obtain x xs where i: "i = x # xs" using assms(1) by (cases i) (simp_all add: container_id_ok_def)
  have post: "rep = Reply 200 ok_body"
    "r' = r\<lparr>files := AList.update (snapshot_path i ?n) (Some ?a) (files r)\<rparr>"
    using assms(1,2,4) by (simp_all add: do_POST_def snapshot_state_def cut_artifact_def i)
  obtain before rest where get: "do_GET (''/snapshot/'' @ i) r' = Reply 200 (snapshot_body i (before @ ?a # rest))"
    "list_all (other_node ?n) before"
    by (rule stored_is_served[OF assms(3,1,2) post(2)])
  have body: "code = 200" "http_body E (length (trace w)) = snapshot_body i (before @ ?a # rest)"
    using assms(5,6) get(1) by simp_all
  from restore_cut_run[OF assms(7-9) assms(10)[unfolded i] assms(11) body(2) get(2) assms(12,13)]
  obtain v where v: "restore_from_artifact E w = (Inr (), v)"
    "\<forall>p. send_seq (peer_of v p) =
          (case if p \<in> ps then send p else None of None \<Rightarrow> send_seq (peer_of w p) | Some n \<Rightarrow> n)"
    "\<forall>p. recv_seq (peer_of v p) =
          (case if p \<in> ps then recv p else None of None \<Rightarrow> recv_seq (peer_of w p) | Some n \<Rightarrow> n)"
    "delivered (trace v) = delivered (trace w) @ concat (map (\<lambda>p. replayed (p, ch p)) (sorted_list_of_set ps))"
    by blast
  then show ?thesis using post(1) body(1) by (intro conjI exI[of _ v]) auto
qed

definition demo_cut :: json where
  "demo_cut = cut_artifact demo_env ''complete'' ''s1'' {''10.24.24.11''} (\<lambda>_. Some 5)
     (\<lambda>_. Some 9) (\<lambda>_. [])"

definition demo_body :: json where
  "demo_body = snapshot_body ''s1'' [demo_cut]"

theorem published_cut_is_restored_witness:
  "\<exists>v. restore_from_artifact (demo_env\<lparr>RESTORE_SNAPSHOT_ID := Some ''s1'', http_body := (\<lambda>_. demo_body)\<rparr>)
      demo_world = (Inr (), v) \<and> send_seq (peer_of v ''10.24.24.11'') = 5"
proof -
  let ?E = "demo_env\<lparr>RESTORE_SNAPSHOT_ID := Some ''s1'', http_body := (\<lambda>_. demo_body)\<rparr>"
  let ?r = "\<lparr>files = [(snapshot_path ''s1'' ''app'', Some demo_cut)], commands = []\<rparr>"
  have ids: "container_id_ok ''s1''" "container_id_ok (container_id demo_env)"
    by (simp_all add: container_id_ok_def is_alnum_def id_char_def container_id_def)
  have empty: "others_only ''s1'' (container_id demo_env) demo_receiver"
    by (simp add: others_only_def demo_receiver_def)
  have post: "do_POST demo_host ''/snapshot_state'' (Some demo_cut) demo_receiver = (Reply 200 ok_body, ?r)"
    using ids by (simp add: do_POST_def snapshot_state_def demo_cut_def cut_artifact_def demo_receiver_def
        container_id_def)
  have "CHR ''/'' \<notin> set ''app''" by simp
  from glob_own[OF this, of "''s1''"]
  have "load_all (matching ''s1'' ?r) = Some [demo_cut]" by (simp add: matching_def)
  from do_GET_snapshot[OF ids(1) this] have get: "do_GET (''/snapshot/'' @ ''s1'') ?r = Reply 200 demo_body"
    by (simp add: demo_body_def)
  show ?thesis
    using published_cut_is_restored[OF ids empty post[unfolded demo_cut_def] get[unfolded demo_cut_def], of ?E demo_world]
      demo_idle by (auto simp: container_id_def)
qed

text \<open>
  C25: The artifacts of two snapshots are told apart by a file name in which the id and the
  node are joined by a dash that both may contain. Where an id continues another one after a
  dash, the GET of the shorter id serves the artifacts of both, and when the longer one
  sorts first, a restore of the shorter snapshot takes the cut of the longer one.
\<close>

theorem longer_id_hijacks_the_restore:
  assumes "container_id_ok i" and "container_id_ok (i @ ''-'' @ x)" and "container_id_ok n"
    and "map_of d ''snapshot_id'' = Some (JStr i)" and "map_of d ''node'' = Some (JStr n)"
    and "map_of d' ''snapshot_id'' = Some (JStr (i @ ''-'' @ x))" and "map_of d' ''node'' = Some (JStr n)"
    and "snapshot_path (i @ ''-'' @ x) n < snapshot_path i n"
    and "do_POST H ''/snapshot_state'' (Some (JObj d)) \<lparr>files = [], commands = []\<rparr> = (rep, r)"
    and "do_POST H ''/snapshot_state'' (Some (JObj d')) r = (rep', r')"
  shows "do_GET (''/snapshot/'' @ i) r' = Reply 200 (snapshot_body i [JObj d', JObj d])
    \<and> find_node (JStr n) [JObj d', JObj d] = Inr (Some (JObj d'))"
proof -
  let ?p = "snapshot_path i n" and ?p' = "snapshot_path (i @ ''-'' @ x) n"
  have r: "r = \<lparr>files = [(?p, Some (JObj d))], commands = []\<rparr>"
    using assms(1,3-5,9) by (simp add: do_POST_def snapshot_state_def)
  have ne: "?p \<noteq> ?p'" using assms(8) by auto
  have r': "r' = \<lparr>files = [(?p, Some (JObj d)), (?p', Some (JObj d'))], commands = []\<rparr>"
    using assms(2,3,6,7,10) ne by (simp add: do_POST_def snapshot_state_def r)
  have n: "CHR ''/'' \<notin> set n" "CHR ''/'' \<notin> set (x @ ''-'' @ n)"
    using container_id_no_slash[OF assms(2)] container_id_no_slash[OF assms(3)] by auto
  have "glob_snapshot i ?p" by (rule glob_own[OF n(1)])
  moreover have "?p' = snapshot_path i (x @ ''-'' @ n)" by (simp add: snapshot_path_def)
  then have "glob_snapshot i ?p'" using glob_own[OF n(2)] by simp
  ultimately have "matching i r' = [(?p', Some (JObj d')), (?p, Some (JObj d))]"
    using assms(8)[unfolded not_le[symmetric]] by (simp add: matching_def r')
  then have "load_all (matching i r') = Some [JObj d', JObj d]" by simp
  from do_GET_snapshot[OF assms(1) this] show ?thesis
    using assms(7) by (simp add: jget_def)
qed

theorem longer_id_hijacks_the_restore_witness:
  "\<exists>r'. do_GET ''/snapshot/snap'' r' = Reply 200 (snapshot_body ''snap''
     [JObj [(''snapshot_id'', JStr ''snap-1''), (''node'', JStr ''counter-a'')],
      JObj [(''snapshot_id'', JStr ''snap''), (''node'', JStr ''counter-a'')]])"
proof -
  let ?d = "\<lambda>i. [(''snapshot_id'', JStr i), (''node'', JStr ''counter-a'')]"
  have ids: "container_id_ok ''snap''" "container_id_ok (''snap'' @ ''-'' @ ''1'')" "container_id_ok ''counter-a''"
    by (simp_all add: container_id_ok_def is_alnum_def id_char_def)
  have less: "snapshot_path (''snap'' @ ''-'' @ ''1'') ''counter-a'' < snapshot_path ''snap'' ''counter-a''"
    by (simp add: snapshot_path_def less_char_def)
  obtain rep r where p: "do_POST demo_host ''/snapshot_state'' (Some (JObj (?d ''snap'')))
      \<lparr>files = [], commands = []\<rparr> = (rep, r)" by fastforce
  obtain rep' r' where p': "do_POST demo_host ''/snapshot_state'' (Some (JObj (?d (''snap'' @ ''-'' @ ''1'')))) r
      = (rep', r')" by fastforce
  from longer_id_hijacks_the_restore[OF ids _ _ _ _ less p p'] show ?thesis by auto
qed

text \<open>
  C26: A cut is stored exactly if it is named: the receiver writes the artifact of a sidecar to
  the file of its snapshot and node, and answers 200, when the snapshot id and the container
  id are file-name safe; otherwise it answers 400 and keeps nothing. No other file changes. A
  trigger with an empty id names its snapshot with the empty string, so the cut of every node
  is refused.
\<close>

theorem artifact_is_accepted_iff_named:
  assumes "build_artifact E st c = Inr a" and "do_POST H ''/snapshot_state'' (Some a) r = (rep, r')"
  shows "(case current_snapshot_id c of
      Some i \<Rightarrow> if container_id_ok i \<and> container_id_ok (container_id E)
        then rep = Reply 200 ok_body \<and> commands r' = commands r
          \<and> map_of (files r') = (map_of (files r))(snapshot_path i (container_id E) \<mapsto> Some a)
        else r' = r \<and> (\<exists>b. rep = Reply 400 b)
    | None \<Rightarrow> r' = r \<and> (\<exists>b. rep = Reply 400 b))
    \<and> (current_snapshot_id c = Some (start_id E' (START @ '':'') w) \<longrightarrow> r' = r)"
proof -
  obtain sid where sid: "snapshot_id_json c = Inr sid"
    and a: "\<exists>ps. a = JObj [(''snapshot_id'', sid), (''node'', JStr (container_id E)), (''status'', JStr st), (''peers'', ps)]"
    using assms(1) by (auto simp: build_artifact_def split: sum.splits)
  have named: "current_snapshot_id c = Some i" if "sid = JStr i" for i
    using snapshot_id_json_cases[OF sid] that by auto
  have unnamed: "sid = JStr i" if "current_snapshot_id c = Some i" "container_id_ok i" for i
    using snapshot_id_json_cases[OF sid] that by (auto simp: container_id_ok_def)
  have ok: "rep = Reply 200 ok_body \<and> commands r' = commands r
      \<and> map_of (files r') = (map_of (files r))(snapshot_path i (container_id E) \<mapsto> Some a)"
    if "current_snapshot_id c = Some i" "container_id_ok i" "container_id_ok (container_id E)" for i
    using assms(2) a unnamed[OF that(1,2)] that(2,3) by (auto simp: do_POST_def snapshot_state_def)
  have bad: "r' = r \<and> (\<exists>b. rep = Reply 400 b)"
    if "\<not> (\<exists>i. current_snapshot_id c = Some i \<and> container_id_ok i \<and> container_id_ok (container_id E))"
    using assms(2) a that named by (cases sid) (auto simp: do_POST_def snapshot_state_def split: if_splits)
  have "start_id E' (START @ '':'') w = []" by (simp add: start_id_def)
  then show ?thesis using ok bad by (auto simp: container_id_ok_def split: option.splits)
qed

theorem artifact_is_accepted_iff_named_witness:
  "\<exists>b. do_POST demo_host ''/snapshot_state'' (Some (JObj [(''snapshot_id'', JNull), (''node'', JStr ''app''),
     (''status'', JStr ''complete''), (''peers'', JObj [])])) demo_receiver = (Reply 400 b, demo_receiver)"
proof -
  let ?c = "SnapshotController\<lparr>current_snapshot_id := Some []\<rparr>"
  let ?a = "JObj [(''snapshot_id'', JNull), (''node'', JStr ''app''), (''status'', JStr ''complete''), (''peers'', JObj [])]"
  have a: "build_artifact demo_env ''complete'' ?c = Inr ?a"
    by (simp add: build_artifact_def snapshot_id_json_def container_id_def artifact_peers_def SnapshotController_def)
  obtain rep r' where p: "do_POST demo_host ''/snapshot_state'' (Some ?a) demo_receiver = (rep, r')" by fastforce
  from artifact_is_accepted_iff_named[OF a p] p show ?thesis by (auto simp: container_id_ok_def)
qed

end
