(* ===== verification/Pytext.thy ===== *)
theory Pytext
  imports Prelude
begin

text \<open>
  Text operations of Python the counter application uses: \<open>str.split()\<close>, \<open>str(int)\<close>,
  \<open>int(str)\<close> and \<open>str.find\<close>, with the round trips between them. White space and digits are
  the ASCII ones.
\<close>

subsection \<open>Splitting at white space\<close>

function split_ws :: "string \<Rightarrow> string list" where
  "split_ws [] = []"
| "split_ws (c # cs) =
     (if is_space c then split_ws cs
      else (c # takeWhile (\<lambda>x. \<not> is_space x) cs) # split_ws (dropWhile (\<lambda>x. \<not> is_space x) cs))"
  by pat_completeness auto
termination by (relation "measure length") (auto simp: le_imp_less_Suc length_dropWhile_le)

definition token :: "string \<Rightarrow> bool" where
  "token s \<longleftrightarrow> s \<noteq> [] \<and> list_all (\<lambda>c. \<not> is_space c) s"

lemma is_space_blank [simp]: "is_space (CHR '' '')"
  by (simp add: is_space_def)

lemma split_ws_token: "token s \<Longrightarrow> split_ws (s @ CHR '' '' # t) = s # split_ws t"
proof (cases s)
  case (Cons c cs)
  moreover assume "token s"
  ultimately have "\<not> is_space c" "\<forall>x\<in>set cs. \<not> is_space x" by (simp_all add: token_def list_all_iff)
  moreover from this have "takeWhile (\<lambda>x. \<not> is_space x) (cs @ CHR '' '' # t) = cs"
      "dropWhile (\<lambda>x. \<not> is_space x) (cs @ CHR '' '' # t) = CHR '' '' # t"
    by (induction cs) simp_all
  ultimately show ?thesis using Cons by simp
qed (simp add: token_def)

lemma split_ws_last: "token s \<Longrightarrow> split_ws s = [s]"
proof (cases s)
  case (Cons c cs)
  moreover assume "token s"
  ultimately have "\<not> is_space c" "\<forall>x\<in>set cs. \<not> is_space x" by (simp_all add: token_def list_all_iff)
  moreover from this have "takeWhile (\<lambda>x. \<not> is_space x) cs = cs"
      and rest: "dropWhile (\<lambda>x. \<not> is_space x) cs = []"
    by (induction cs) simp_all
  ultimately show ?thesis unfolding Cons by (simp only: split_ws.simps rest if_False)
qed (simp add: token_def)

lemma split_ws_tokens: "t \<in> set (split_ws s) \<Longrightarrow> token t"
proof (induction s rule: split_ws.induct)
  case (2 c cs)
  show ?case
  proof (cases "is_space c")
    case True
    with 2 show ?thesis by simp
  next
    case False
    from 2(3) False have "t = c # takeWhile (\<lambda>x. \<not> is_space x) cs
        \<or> t \<in> set (split_ws (dropWhile (\<lambda>x. \<not> is_space x) cs))" by simp
    then show ?thesis
    proof
      assume "t = c # takeWhile (\<lambda>x. \<not> is_space x) cs"
      with False show ?thesis by (auto simp: token_def list_all_iff dest: set_takeWhileD)
    next
      assume "t \<in> set (split_ws (dropWhile (\<lambda>x. \<not> is_space x) cs))"
      with 2(2) False show ?thesis by blast
    qed
  qed
qed simp

subsection \<open>Numbers\<close>

definition show_int :: "int \<Rightarrow> string" where
  "show_int n = (if n < 0 then CHR ''-'' # show_nat (nat (- n)) else show_nat (nat n))"

text \<open>Digits, with single underscores allowed between them.\<close>

definition parse_digits :: "string \<Rightarrow> int option" where
  "parse_digits s =
     (let parts = split_on (CHR ''_'') s in
      if [] \<in> set parts then None else map_option int (read_nat (concat parts)))"

definition parse_int :: "string \<Rightarrow> exn + int" where
  "parse_int s =
     (let t = strip s;
          r = (case t of [] \<Rightarrow> None
               | c # cs \<Rightarrow> if c = CHR ''-'' then map_option uminus (parse_digits cs)
                          else if c = CHR ''+'' then parse_digits cs else parse_digits t)
      in case r of None \<Rightarrow> Inl ValueError | Some n \<Rightarrow> Inr n)"

lemma digit_char_plain:
  "d < 10 \<Longrightarrow> \<not> is_space (digit_char d) \<and> digit_char d \<noteq> CHR ''-'' \<and> digit_char d \<noteq> CHR ''+''
     \<and> digit_char d \<noteq> CHR ''_'' \<and> digit_char d \<noteq> CHR ''=''"
proof -
  assume d: "d < 10"
  then have "of_char (digit_char d) = 48 + d" by (simp add: digit_char_def)
  then have "\<not> is_space (digit_char d)" by (simp add: is_space_def)
  moreover have "digit_char d \<noteq> c" if "char_digit c = None" for c
    using that d char_digit_digit_char[of d] by (cases "digit_char d = c") simp_all
  ultimately show ?thesis by (simp add: char_digit_def)
qed

lemma show_nat_plain:
  "c \<in> set (show_nat n) \<Longrightarrow> \<not> is_space c \<and> c \<noteq> CHR ''-'' \<and> c \<noteq> CHR ''+'' \<and> c \<noteq> CHR ''_'' \<and> c \<noteq> CHR ''=''"
proof -
  assume "c \<in> set (show_nat n)"
  with show_nat_digits[of n] obtain d where "d < 10" "c = digit_char d" by blast
  then show ?thesis using digit_char_plain[of d] by simp
qed

lemma parse_digits_show_nat [simp]: "parse_digits (show_nat n) = Some (int n)"
proof -
  have "CHR ''_'' \<notin> set (show_nat n)" using show_nat_plain[of "CHR ''_''" n] by blast
  moreover have "[] \<noteq> show_nat n" by (metis show_nat_nonempty)
  ultimately show ?thesis by (simp add: parse_digits_def split_on_notin Let_def)
qed

lemma strip_token: "list_all (\<lambda>c. \<not> is_space c) s \<Longrightarrow> strip s = s"
proof -
  assume s: "list_all (\<lambda>c. \<not> is_space c) s"
  have "dropWhile is_space t = t" if "list_all (\<lambda>c. \<not> is_space c) t" for t
    using that by (cases t) auto
  with s show ?thesis by (simp add: strip_def)
qed

lemma show_int_token: "token (show_int n)"
proof -
  have "\<not> is_space (CHR ''-'')" by (simp add: is_space_def)
  then show ?thesis using show_nat_plain by (auto simp: token_def show_int_def list_all_iff)
qed

lemma parse_show_int [simp]: "parse_int (show_int n) = Inr n"
proof -
  have strip: "strip (show_int n) = show_int n"
    using show_int_token[of n] by (intro strip_token) (simp add: token_def)
  show ?thesis
  proof (cases "n < 0")
    case True
    then show ?thesis unfolding parse_int_def strip by (simp add: show_int_def)
  next
    case False
    obtain c cs where s: "show_nat (nat n) = c # cs" by (cases "show_nat (nat n)") simp_all
    then have "c \<noteq> CHR ''-''" "c \<noteq> CHR ''+''" using show_nat_plain[of c "nat n"] by simp_all
    with False s parse_digits_show_nat[of "nat n"] show ?thesis
      unfolding parse_int_def strip by (simp add: show_int_def)
  qed
qed

subsection \<open>Finding a substring\<close>

fun find_sub :: "string \<Rightarrow> string \<Rightarrow> nat option" where
  "find_sub p [] = (if p = [] then Some 0 else None)"
| "find_sub p (c # cs) =
     (if starts_with p (c # cs) then Some 0 else map_option Suc (find_sub p cs))"

text \<open>The first occurrence, where no earlier position matches.\<close>

lemma find_sub_append:
  assumes "\<And>k. k < length s \<Longrightarrow> \<not> starts_with p (drop k (s @ p @ t))" and "p \<noteq> []"
  shows "find_sub p (s @ p @ t) = Some (length s)"
  using assms
proof (induction s)
  case Nil
  then show ?case by (cases p) (simp_all add: starts_with_def)
next
  case (Cons c s)
  have "\<not> starts_with p (drop 0 ((c # s) @ p @ t))" by (rule Cons.prems(1)) simp
  moreover have "find_sub p (s @ p @ t) = Some (length s)"
    by (rule Cons.IH) (use Cons.prems(1)[of "Suc _"] Cons.prems(2) in auto)
  ultimately show ?case by simp
qed

subsection \<open>UTF-8 text cut at an ASCII character\<close>

lemma utf8_valid_ascii_step:
  "(of_char c :: nat) < 128 \<Longrightarrow> utf8_valid (c # s) = utf8_valid s"
  by simp

lemma utf8_cont_not_ascii: "(of_char c :: nat) < 128 \<Longrightarrow> \<not> utf8_cont c"
  by (simp add: utf8_cont_def)

text \<open>The first character of a text: one, two, three or four bytes.\<close>

lemma utf8_valid_chunk:
  assumes "utf8_valid (x # xs)"
  obtains k where "k \<le> length xs" and "list_all utf8_cont (take k xs)"
    and "\<And>ys. k \<le> length ys \<Longrightarrow> take k ys = take k xs \<Longrightarrow> utf8_valid (x # ys) = utf8_valid (drop k ys)"
proof -
  define n where "n = (of_char x :: nat)"
  note v = assms[unfolded utf8_valid.simps Let_def n_def[symmetric]]
  note g = utf8_valid.simps(2)[of x, unfolded Let_def n_def[symmetric]]
  consider "n < 128" | "\<not> n < 128" "194 \<le> n" "n \<le> 223" | "224 \<le> n" "n \<le> 239" | "240 \<le> n" "n \<le> 244"
    using v by (metis not_le)
  then show ?thesis
  proof cases
    case 1
    then show ?thesis by (intro that[of 0]) (simp_all add: g del: utf8_valid.simps(2))
  next
    case 2
    with v obtain c r where xs: "xs = c # r" "utf8_cont c" by (cases xs) (simp_all del: utf8_valid.simps(2))
    show ?thesis
    proof (rule that[of 1])
      fix ys :: bytes assume "1 \<le> length ys" "take 1 ys = take 1 xs"
      then obtain r' where "ys = c # r'" using xs by (cases ys) simp_all
      with 2 xs show "utf8_valid (x # ys) = utf8_valid (drop 1 ys)" by (simp add: g del: utf8_valid.simps(2))
    qed (use xs in simp_all)
  next
    case 3
    with v obtain c d r where xs: "xs = c # d # r" "utf8_cont c" "utf8_cont d"
      and lim: "n = 224 \<longrightarrow> 160 \<le> (of_char c :: nat)" "n = 237 \<longrightarrow> (of_char c :: nat) < 160"
      by (cases xs; cases "tl xs") (simp_all del: utf8_valid.simps(2))
    show ?thesis
    proof (rule that[of 2])
      fix ys :: bytes assume "2 \<le> length ys" "take 2 ys = take 2 xs"
      then obtain r' where "ys = c # d # r'" using xs by (cases ys; cases "tl ys") simp_all
      with 3 xs lim show "utf8_valid (x # ys) = utf8_valid (drop 2 ys)"
        by (simp add: g del: utf8_valid.simps(2))
    qed (use xs in simp_all)
  next
    case 4
    with v obtain c d e r where xs: "xs = c # d # e # r" "utf8_cont c" "utf8_cont d" "utf8_cont e"
      and lim: "n = 240 \<longrightarrow> 144 \<le> (of_char c :: nat)" "n = 244 \<longrightarrow> (of_char c :: nat) < 144"
      by (cases xs; cases "tl xs"; cases "tl (tl xs)") (simp_all del: utf8_valid.simps(2))
    show ?thesis
    proof (rule that[of 3])
      fix ys :: bytes assume "3 \<le> length ys" "take 3 ys = take 3 xs"
      then obtain r' where "ys = c # d # e # r'"
        using xs by (cases ys; cases "tl ys"; cases "tl (tl ys)") simp_all
      with 4 xs lim show "utf8_valid (x # ys) = utf8_valid (drop 3 ys)"
        by (simp add: g del: utf8_valid.simps(2))
    qed (use xs in simp_all)
  qed
qed

lemma utf8_valid_append: "utf8_valid a \<Longrightarrow> utf8_valid (a @ b) = utf8_valid b"
proof (induction a rule: length_induct)
  case (1 a)
  show ?case
  proof (cases a)
    case (Cons x xs)
    obtain k where k: "k \<le> length xs"
      and step: "\<And>ys. k \<le> length ys \<Longrightarrow> take k ys = take k xs \<Longrightarrow> utf8_valid (x # ys) = utf8_valid (drop k ys)"
      using utf8_valid_chunk 1(2)[unfolded Cons] by metis
    have "utf8_valid (drop k xs)" using step[of xs] k 1(2) Cons by simp
    moreover have "length (drop k xs) < length a" using Cons by simp
    ultimately have "utf8_valid (drop k xs @ b) = utf8_valid b" using 1(1) by blast
    then show ?thesis using step[of "xs @ b"] k Cons by (simp del: utf8_valid.simps(2))
  qed simp
qed

lemma utf8_valid_cut:
  assumes "(of_char c :: nat) < 128" and "utf8_valid (a @ c # b)"
  shows "utf8_valid a \<and> utf8_valid (c # b)"
  using assms(2)
proof (induction a rule: length_induct)
  case (1 a)
  show ?case
  proof (cases a)
    case Nil
    with 1(2) show ?thesis by simp
  next
    case (Cons x xs)
    obtain k where cont: "list_all utf8_cont (take k (xs @ c # b))"
      and step: "\<And>ys. k \<le> length ys \<Longrightarrow> take k ys = take k (xs @ c # b)
          \<Longrightarrow> utf8_valid (x # ys) = utf8_valid (drop k ys)"
      and l: "k \<le> length (xs @ c # b)"
      using utf8_valid_chunk 1(2)[unfolded Cons append_Cons] by metis
    have k: "k \<le> length xs"
    proof (rule ccontr)
      assume "\<not> k \<le> length xs"
      then have "c \<in> set (take k (xs @ c # b))" by (cases "k - length xs") simp_all
      with cont utf8_cont_not_ascii[OF assms(1)] show False by (auto simp: list_all_iff)
    qed
    have "utf8_valid (drop k xs @ c # b)" using step[of "xs @ c # b"] l k 1(2) Cons by simp
    moreover have "length (drop k xs) < length a" using Cons by simp
    ultimately have "utf8_valid (drop k xs) \<and> utf8_valid (c # b)" using 1(1) by blast
    then show ?thesis using step[of xs] k Cons by (simp del: utf8_valid.simps(2))
  qed
qed

text \<open>The words of a valid text are valid.\<close>

lemma is_space_ascii: "is_space c \<Longrightarrow> (of_char c :: nat) < 128"
  by (auto simp: is_space_def Let_def)

lemma utf8_valid_takeWhile:
  assumes "utf8_valid s"
  shows "utf8_valid (takeWhile (\<lambda>x. \<not> is_space x) s) \<and> utf8_valid (dropWhile (\<lambda>x. \<not> is_space x) s)"
proof (cases "dropWhile (\<lambda>x. \<not> is_space x) s")
  case Nil
  have "takeWhile (\<lambda>x. \<not> is_space x) s = s"
    using takeWhile_dropWhile_id[of "\<lambda>x. \<not> is_space x" s] unfolding Nil by (simp only: append_Nil2)
  with Nil assms show ?thesis by (simp only: utf8_valid.simps(1))
next
  case (Cons c cs)
  then have "is_space c" by (metis hd_dropWhile list.discI list.sel(1))
  moreover have "utf8_valid (takeWhile (\<lambda>x. \<not> is_space x) s @ c # cs)"
    using assms Cons by (metis takeWhile_dropWhile_id)
  ultimately show ?thesis unfolding Cons by (intro utf8_valid_cut is_space_ascii)
qed

lemma split_ws_dropWhile:
  "split_ws (dropWhile is_space s) = split_ws s"
  by (induction s) simp_all

lemma split_ws_unfold:
  assumes "c # cs = dropWhile is_space s"
  shows "split_ws s = takeWhile (\<lambda>x. \<not> is_space x) (c # cs)
    # split_ws (dropWhile (\<lambda>x. \<not> is_space x) (c # cs))"
proof -
  have "\<not> is_space c" using assms by (metis hd_dropWhile list.discI list.sel(1))
  then show ?thesis
    by (subst split_ws_dropWhile[symmetric], subst assms[symmetric]) simp
qed

lemma split_ws_valid: "utf8_valid s \<Longrightarrow> t \<in> set (split_ws s) \<Longrightarrow> utf8_valid t"
proof (induction s rule: split_ws.induct)
  case (2 c cs)
  note w = utf8_valid_takeWhile[OF 2(3)]
  show ?case
  proof (cases "is_space c")
    case True
    with 2 is_space_ascii[of c] show ?thesis by simp
  next
    case False
    with 2(4) consider "t = takeWhile (\<lambda>x. \<not> is_space x) (c # cs)"
      | "t \<in> set (split_ws (dropWhile (\<lambda>x. \<not> is_space x) cs))" by auto
    then show ?thesis
    proof cases
      case 1
      with w show ?thesis by blast
    next
      case x: 2
      have "utf8_valid (dropWhile (\<lambda>x. \<not> is_space x) cs)"
        using w False by (simp del: utf8_valid.simps)
      then show ?thesis by (rule 2(2)[OF False _ x])
    qed
  qed
qed simp

lemma show_int_valid: "utf8_valid (show_int n)"
proof (rule utf8_valid_ascii)
  fix c assume "c \<in> set (show_int n)"
  then have "c = CHR ''-'' \<or> c \<in> digit_char ` {..<10}"
    using show_nat_digits by (auto simp: show_int_def split: if_splits)
  then show "(of_char c :: nat) < 128" by (auto simp: digit_char_def)
qed

lemma utf8_valid_words:
  "utf8_valid a \<Longrightarrow> utf8_valid (a @ '' '' @ b) = utf8_valid b"
  using utf8_valid_append[of a "'' '' @ b"] utf8_valid_append[of "'' ''" b] by simp

end
