(* ===== verification/Counter.thy ===== *)
theory Counter
  imports Pytext
begin

text \<open>
  \<^verbatim>\<open>src/counter.py\<close>: the bank-like demo application whose containers are checkpointed. A node
  keeps a counter and answers UDP requests; the other commands are clients that send one
  request each, and \<open>sum\<close> polls three nodes until their total is stable.

  One \<open>proc\<close> is one run of the script. What it prints and sends is the trace \<open>out\<close>; the
  kernel's answers are the record \<open>udp\<close>.
\<close>

subsection \<open>The process and its environment\<close>

type_synonym address = "string \<times> int"

datatype effect = Print string | PrintErr string | SendTo address bytes

record proc =
  node_name :: string
  counter :: int
  out :: "effect list"
  attempts :: nat
  asked :: nat
  slept :: nat

text \<open>What a request of a client meets: the bind refused, an error or a timeout, a reply.\<close>

datatype answer = BindRefused | Failed | Answered bytes

text \<open>
  Does the \<open>k\<close>-th \<open>sendto\<close> succeed, can the node's port be bound, what arrives there until
  the process is killed, and what the \<open>k\<close>-th request of a client meets.
\<close>

record udp =
  send_ok :: "nat \<Rightarrow> bool"
  bind_ok :: bool
  arrivals :: "(bytes \<times> address) list"
  answer_to :: "nat \<Rightarrow> answer"

definition BUF :: nat where "BUF = 512"

definition PORT :: int where "PORT = 5000"

definition emit_out :: "effect \<Rightarrow> (proc, unit) py" where
  "emit_out a = pmod (\<lambda>s. s\<lparr>out := out s @ [a]\<rparr>)"

definition die :: "string \<Rightarrow> (proc, int) py" where
  "die msg = pseq (emit_out (PrintErr msg)) (pret 1)"

definition valid_port :: "int \<Rightarrow> bool" where
  "valid_port p \<longleftrightarrow> 0 \<le> p \<and> p \<le> 65535"

text \<open>\<open>sock.sendto(data, addr)\<close>\<close>

definition sock_sendto :: "udp \<Rightarrow> address \<Rightarrow> bytes \<Rightarrow> (proc, unit) py" where
  "sock_sendto E addr data =
     pbind (pget attempts) (\<lambda>k.
     pseq (pmod (\<lambda>s. s\<lparr>attempts := Suc k\<rparr>))
       (if \<not> valid_port (snd addr) then praise OverflowError
        else if send_ok E k then emit_out (SendTo addr data) else praise OSError))"

definition bind_udp :: "udp \<Rightarrow> string \<Rightarrow> (proc, unit) py" where
  "bind_udp E port =
     pbind (plift (parse_int port)) (\<lambda>p.
       if \<not> valid_port p then praise OverflowError
       else if bind_ok E then pret () else praise OSError)"

definition send_udp :: "udp \<Rightarrow> string \<Rightarrow> string \<Rightarrow> string \<Rightarrow> (proc, int) py" where
  "send_udp E host port msg =
     pcatch
       (pbind (plift (parse_int port)) (\<lambda>p.
        pseq (sock_sendto E (host, p) msg) (pret 0)))
       (pret (-1))"

subsection \<open>The node\<close>

definition state_reply :: "string \<Rightarrow> int \<Rightarrow> string" where
  "state_reply name c = ''STATE '' @ name @ '' counter='' @ show_int c"

definition credit_msg :: "string \<Rightarrow> string \<Rightarrow> int \<Rightarrow> string" where
  "credit_msg txid name amount = ''CREDIT '' @ txid @ '' '' @ name @ '' '' @ show_int amount"

definition on_state :: "udp \<Rightarrow> address \<Rightarrow> (proc, unit) py" where
  "on_state E addr =
     pbind (pget (\<lambda>s. state_reply (node_name s) (counter s))) (sock_sendto E addr)"

definition on_credit :: "udp \<Rightarrow> string \<Rightarrow> address \<Rightarrow> (proc, unit) py" where
  "on_credit E buf addr =
     (let parts = split_ws buf in
      if 4 \<le> length parts then
        (let txid = parts ! 1; from_node = parts ! 2 in
         pbind (plift (parse_int (parts ! 3))) (\<lambda>amount.
         pseq (pmod (\<lambda>s. s\<lparr>counter := counter s + amount\<rparr>))
         (pseq (pbind (pget (\<lambda>s. node_name s @ '' CREDIT tx='' @ txid @ '' from='' @ from_node
                 @ '' amount='' @ show_int amount @ '' counter='' @ show_int (counter s)))
               (\<lambda>line. emit_out (Print line)))
           (sock_sendto E addr (''OK CREDIT '' @ txid)))))
      else pret ())"

definition on_transfer :: "udp \<Rightarrow> string \<Rightarrow> address \<Rightarrow> (proc, unit) py" where
  "on_transfer E buf addr =
     (let parts = split_ws buf in
      if 5 \<le> length parts then
        (let txid = parts ! 1; host = parts ! 2; peer_port = parts ! 3 in
         pbind (plift (parse_int (parts ! 4))) (\<lambda>amount.
         pseq (pmod (\<lambda>s. s\<lparr>counter := counter s - amount\<rparr>))
         (pseq (pbind (pget (\<lambda>s. node_name s @ '' DEBIT tx='' @ txid @ '' to='' @ host @ '':''
                 @ peer_port @ '' amount='' @ show_int amount @ '' counter=''
                 @ show_int (counter s)))
               (\<lambda>line. emit_out (Print line)))
         (pseq (pbind (pget (\<lambda>s. credit_msg txid (node_name s) amount)) (send_udp E host peer_port))
           (sock_sendto E addr (''OK TRANSFER '' @ txid))))))
      else pret ())"

definition on_reset :: "udp \<Rightarrow> string \<Rightarrow> address \<Rightarrow> (proc, unit) py" where
  "on_reset E buf addr =
     (let parts = split_ws buf in
      if 2 \<le> length parts then
        pbind (plift (parse_int (parts ! 1))) (\<lambda>amount.
        pseq (pmod (\<lambda>s. s\<lparr>counter := amount\<rparr>))
        (pseq (pbind (pget (\<lambda>s. node_name s @ '' RESET amount='' @ show_int amount
                @ '' counter='' @ show_int (counter s)))
              (\<lambda>line. emit_out (Print line)))
          (sock_sendto E addr ''OK RESET'')))
      else pret ())"

text \<open>One round of the loop: \<open>recvfrom(BUF)\<close> cuts a longer datagram off.\<close>

definition handle_request :: "udp \<Rightarrow> bytes \<Rightarrow> address \<Rightarrow> (proc, unit) py" where
  "handle_request E data addr =
     pbind (plift (decode (take BUF data))) (\<lambda>buf.
       if starts_with ''STATE'' buf then on_state E addr
       else if starts_with ''CREDIT '' buf then on_credit E buf addr
       else if starts_with ''TRANSFER '' buf then on_transfer E buf addr
       else if starts_with ''RESET '' buf then on_reset E buf addr
       else sock_sendto E addr ''ERR'')"

definition serve :: "udp \<Rightarrow> bytes \<Rightarrow> address \<Rightarrow> (proc, unit) py" where
  "serve E data addr = pcatch (handle_request E data addr) (pret ())"

definition node :: "udp \<Rightarrow> string \<Rightarrow> string \<Rightarrow> string \<Rightarrow> (proc, unit) py" where
  "node E name port init_counter =
     pbind (plift (parse_int init_counter)) (\<lambda>c.
     pseq (pmod (\<lambda>s. s\<lparr>node_name := name, counter := c\<rparr>))
     (pseq (bind_udp E port)
     (pseq (emit_out (Print (''node '' @ name @ '' listening on udp/'' @ port @ '' with counter=''
              @ show_int c)))
       (pfor (\<lambda>(data, addr). serve E data addr) (arrivals E)))))"

subsection \<open>The clients\<close>

text \<open>
  The client binds \<open>PORT\<close> outside the \<open>try\<close>; everything after that ends in None.
  \<open>timeout_ms\<close> only says how long the kernel waits before the answer is \<open>Failed\<close>.
\<close>

definition request_udp :: "udp \<Rightarrow> string \<Rightarrow> string \<Rightarrow> string \<Rightarrow> nat \<Rightarrow> (proc, string option) py" where
  "request_udp E host port msg timeout_ms =
     pbind (pget (\<lambda>s. answer_to E (asked s))) (\<lambda>a.
     pseq (pmod (\<lambda>s. s\<lparr>asked := Suc (asked s)\<rparr>))
     (case a of BindRefused \<Rightarrow> praise OSError
      | _ \<Rightarrow> pcatch
          (pbind (plift (parse_int port)) (\<lambda>p.
           pseq (sock_sendto E (host, p) msg)
           (case a of Answered data \<Rightarrow> pbind (plift (decode (take BUF data))) (\<lambda>t. pret (Some t))
            | _ \<Rightarrow> praise OSError)))
          (pret None)))"

definition state :: "udp \<Rightarrow> string \<Rightarrow> string \<Rightarrow> (proc, int) py" where
  "state E host port =
     pbind (request_udp E host port ''STATE'' 1000) (\<lambda>r.
       case r of None \<Rightarrow> pret 1
       | Some reply \<Rightarrow> pseq (emit_out (Print reply)) (pret 0))"

definition transfer :: "udp \<Rightarrow> string \<Rightarrow> string \<Rightarrow> string \<Rightarrow> string \<Rightarrow> string \<Rightarrow> (proc, int) py" where
  "transfer E from_host from_port to_host to_port amount =
     pbind (request_udp E from_host from_port
              (''TRANSFER tx123 '' @ to_host @ '' '' @ to_port @ '' '' @ amount) 1000) (\<lambda>r.
       case r of None \<Rightarrow> pret 1
       | Some reply \<Rightarrow> pseq (emit_out (Print reply)) (pret (if starts_with ''OK'' reply then 0 else 1)))"

definition reset_counter :: "udp \<Rightarrow> string \<Rightarrow> string \<Rightarrow> string \<Rightarrow> (proc, int) py" where
  "reset_counter E host port amount =
     pbind (request_udp E host port (''RESET '' @ amount) 1000) (\<lambda>r.
       case r of None \<Rightarrow> pret 1
       | Some reply \<Rightarrow> pseq (emit_out (Print reply)) (pret (if starts_with ''OK'' reply then 0 else 1)))"

text \<open>The number after the first \<open>counter=\<close>; the errors of \<open>int\<close> and of \<open>[0]\<close> give None.\<close>

definition read_counter :: "string \<Rightarrow> int option" where
  "read_counter reply =
     (case find_sub ''counter='' reply of None \<Rightarrow> None
      | Some idx \<Rightarrow> (case split_ws (drop (idx + length ''counter='') reply) of [] \<Rightarrow> None
         | w # ws \<Rightarrow> (case parse_int w of Inl e \<Rightarrow> None | Inr n \<Rightarrow> Some n)))"

definition get_counter :: "udp \<Rightarrow> string \<Rightarrow> string \<Rightarrow> (proc, int option) py" where
  "get_counter E host port =
     pbind (request_udp E host port ''STATE'' 500) (\<lambda>r.
       pret (case r of None \<Rightarrow> None | Some reply \<Rightarrow> if reply = [] then None else read_counter reply))"

type_synonym reading = "int option \<times> int option \<times> int option"

definition poll :: "udp \<Rightarrow> string list \<Rightarrow> (proc, reading) py" where
  "poll E args =
     pbind (get_counter E (args ! 0) (args ! 1)) (\<lambda>a.
     pbind (get_counter E (args ! 2) (args ! 3)) (\<lambda>b.
     pbind (get_counter E (args ! 4) (args ! 5)) (\<lambda>c. pret (a, b, c))))"

definition missing :: "string \<Rightarrow> int option \<Rightarrow> string" where
  "missing n r = (if r = None then n else [])"

text \<open>What a poll prints, and the number of good polls in a row after it.\<close>

definition sum_line :: "int \<Rightarrow> reading \<Rightarrow> string" where
  "sum_line expected r =
     (case r of
        (Some a, Some b, Some c) \<Rightarrow>
          (let total = a + b + c in
           ''SUM a='' @ show_int a @ '' b='' @ show_int b @ '' c='' @ show_int c @ '' total=''
           @ show_int total @ '' expected='' @ show_int expected
           @ (if total = expected then '' PASS'' else '' FAIL''))
      | (a, b, c) \<Rightarrow>
          ''SUM waiting for nodes: '' @ missing ''a'' a @ '' '' @ missing ''b'' b @ '' ''
          @ missing ''c'' c)"

definition complete :: "reading \<Rightarrow> bool" where
  "complete r = (case r of (Some a, Some b, Some c) \<Rightarrow> True | _ \<Rightarrow> False)"

definition judge :: "int \<Rightarrow> int \<Rightarrow> reading \<Rightarrow> int" where
  "judge expected streak r =
     (case r of (Some a, Some b, Some c) \<Rightarrow> if a + b + c = expected then streak + 1 else 0
      | _ \<Rightarrow> 0)"

function sum_loop ::
  "udp \<Rightarrow> string list \<Rightarrow> int \<Rightarrow> int \<Rightarrow> int \<Rightarrow> int \<Rightarrow> int \<Rightarrow> proc \<Rightarrow> (exn + int) \<times> proc" where
  "sum_loop E args expected timeout_ms stable_needed elapsed streak s =
     (if elapsed \<le> timeout_ms then
        (case poll E args s of
           (Inl e, t) \<Rightarrow> (Inl e, t)
         | (Inr r, t) \<Rightarrow>
             (let u = t\<lparr>out := out t @ [Print (sum_line expected r)]\<rparr>;
                  streak' = judge expected streak r in
              if complete r \<and> stable_needed \<le> streak' then (Inr 0, u)
              else sum_loop E args expected timeout_ms stable_needed (elapsed + 100) streak'
                     (u\<lparr>slept := slept u + 500\<rparr>)))
      else (Inr 1, s))"
  by pat_completeness auto
termination
  by (relation "measure (\<lambda>(E, args, expected, timeout_ms, stable_needed, elapsed, streak, s).
        nat (timeout_ms + 100 - elapsed))") auto

declare sum_loop.simps [simp del]

definition sum_counters :: "udp \<Rightarrow> string list \<Rightarrow> (proc, int) py" where
  "sum_counters E args =
     pbind (plift (parse_int (args ! 6))) (\<lambda>expected.
     pbind (plift (parse_int (args ! 7))) (\<lambda>timeout_ms.
     pbind (plift (parse_int (args ! 8))) (\<lambda>stable_needed.
       sum_loop E args expected timeout_ms stable_needed 0 0)))"

text \<open>
  The exit status of the script. The node's loop has no end, so the 0 after it is never
  observed.
\<close>

definition main :: "udp \<Rightarrow> string list \<Rightarrow> (proc, int) py" where
  "main E argv =
     (if length argv < 2 then die (''usage: '' @ argv ! 0 @ '' node|state|transfer|reset|sum ...'')
      else
        (let cmd = argv ! 1 in
         if cmd = ''node'' then
           (if length argv \<noteq> 5 then die (''usage: '' @ argv ! 0 @ '' node NAME PORT INITIAL'')
            else pseq (node E (argv ! 2) (argv ! 3) (argv ! 4)) (pret 0))
         else if cmd = ''state'' then
           (if length argv \<noteq> 4 then die (''usage: '' @ argv ! 0 @ '' state HOST PORT'')
            else state E (argv ! 2) (argv ! 3))
         else if cmd = ''transfer'' then
           (if length argv \<noteq> 7 then
              die (''usage: '' @ argv ! 0 @ '' transfer FROM_HOST FROM_PORT TO_HOST TO_PORT AMOUNT'')
            else transfer E (argv ! 2) (argv ! 3) (argv ! 4) (argv ! 5) (argv ! 6))
         else if cmd = ''reset'' then
           (if length argv \<noteq> 5 then die (''usage: '' @ argv ! 0 @ '' reset HOST PORT AMOUNT'')
            else reset_counter E (argv ! 2) (argv ! 3) (argv ! 4))
         else if cmd = ''sum'' then
           (if length argv \<noteq> 11 then
              die (''usage: '' @ argv ! 0
                @ '' sum A_HOST A_PORT B_HOST B_PORT C_HOST C_PORT EXPECTED TIMEOUT_MS STABLE_POLLS'')
            else sum_counters E (drop 2 argv))
         else die (''unknown command: '' @ cmd)))"

end
