(* ===== verification/Polls.thy ===== *)
theory Polls
  imports Counter
begin

text \<open>
  The clients of the demo application: a counter is read back from the reply of its node, and
  the verdict of \<open>sum\<close> as a function of what its polls read.
\<close>

subsection \<open>One reading\<close>

text \<open>What a client makes of the answer to a STATE request.\<close>

definition heard :: "answer \<Rightarrow> int option" where
  "heard a =
     (case a of Answered data \<Rightarrow>
        (case decode (take BUF data) of Inl e \<Rightarrow> None
         | Inr t \<Rightarrow> if t = [] then None else read_counter t)
      | _ \<Rightarrow> None)"

text \<open>The kernel takes every datagram and lets the client bind its port.\<close>

definition reachable_kernel :: "udp \<Rightarrow> bool" where
  "reachable_kernel E \<longleftrightarrow> (\<forall>k. send_ok E k) \<and> (\<forall>k. answer_to E k \<noteq> BindRefused)"

definition port_ok :: "string \<Rightarrow> bool" where
  "port_ok p = (case parse_int p of Inl e \<Rightarrow> False | Inr n \<Rightarrow> valid_port n)"

lemma get_counter_reads:
  assumes "reachable_kernel E" and "port_ok port" and "asked s = k"
  obtains t where "get_counter E host port s = (Inr (heard (answer_to E k)), t)"
    and "asked t = Suc k" and "slept t = slept s"
proof -
  obtain p where p: "parse_int port = Inr p" "valid_port p"
    using assms(2) by (auto simp: port_ok_def split: sum.splits)
  let ?u = "s\<lparr>asked := Suc k, attempts := Suc (attempts s),
    out := out s @ [SendTo (host, p) ''STATE'']\<rparr>"
  have send: "sock_sendto E (host, p) ''STATE'' (s\<lparr>asked := Suc k\<rparr>) = (Inr (), ?u)"
    using assms(1) p by (simp add: sock_sendto_def reachable_kernel_def emit_out_def py_run)
  have "get_counter E host port s = (Inr (heard (answer_to E k)), ?u)"
    using assms(1,3) p send
    by (cases "answer_to E k")
      (auto simp: get_counter_def request_udp_def heard_def reachable_kernel_def pcatch_def decode_def
        py_run simp del: utf8_valid.simps(2))
  then show ?thesis by (rule that) simp_all
qed

lemma starts_with_nth: "starts_with p l \<Longrightarrow> i < length p \<Longrightarrow> l ! i = p ! i"
  by (auto elim!: starts_withE simp: nth_append)

lemma seventh: "''counter='' ! 7 = CHR ''=''"
  by simp

text \<open>The reply of a node is read back, unless \<open>counter=\<close> occurs in it before its place.\<close>

lemma read_state_reply:
  assumes "CHR ''='' \<notin> set name"
  shows "read_counter (state_reply name c) = Some c"
proof -
  let ?p = "''STATE '' @ name @ '' ''" and ?q = "''counter=''"
  have reply: "state_reply name c = ?p @ ?q @ show_int c" by (simp add: state_reply_def)
  have "find_sub ?q (?p @ ?q @ show_int c) = Some (length ?p)"
  proof (rule find_sub_append)
    fix k assume k: "k < length ?p"
    let ?l = "?p @ ?q @ show_int c"
    show "\<not> starts_with ?q (drop k ?l)"
    proof
      assume "starts_with ?q (drop k ?l)"
      then have "drop k ?l ! 7 = ?q ! 7" by (rule starts_with_nth) simp
      moreover have "drop k ?l ! 7 = ?l ! (k + 7)" using k by (intro nth_drop) simp
      ultimately have eq: "?l ! (k + 7) = CHR ''=''" by (simp only: seventh)
      have "?l ! (k + 7) \<noteq> CHR ''=''"
      proof (cases "k + 7 < length ?p")
        case True
        then have "?l ! (k + 7) \<in> set ?p" by (metis nth_append nth_mem)
        with assms show ?thesis by auto
      next
        case False
        define j where "j = k + 7 - length ?p"
        have "j < 7" using False k by (simp add: j_def)
        moreover have "?l ! (k + 7) = (?q @ show_int c) ! j" using False by (simp only: nth_append j_def if_False)
        ultimately show ?thesis
          by (auto simp: less_Suc_eq numeral_eq_Suc nth_Cons' split: if_splits)
      qed
      with eq show False by simp
    qed
  qed simp
  then show ?thesis
    using split_ws_last[OF show_int_token[of c]] unfolding reply by (simp add: read_counter_def)
qed

lemma state_reply_valid: "utf8_valid name \<Longrightarrow> utf8_valid (state_reply name c)"
  using utf8_valid_append[of "''STATE ''" "name @ '' counter='' @ show_int c"]
    utf8_valid_append[of name "'' counter='' @ show_int c"]
    utf8_valid_append[of "'' counter=''" "show_int c"] show_int_valid
  by (simp add: state_reply_def)

text \<open>
  C37: asking a node for its counter gives its counter. A node answers STATE with a text that
  leaves its counter alone, and a client that receives the text reads exactly the counter,
  negative or not, provided the name holds no \<open>=\<close> and the reply fits the buffer.
\<close>

theorem counter_is_read_back:
  assumes "utf8_valid (node_name s)" and "CHR ''='' \<notin> set (node_name s)"
    and "length (state_reply (node_name s) (counter s)) \<le> BUF"
    and "send_ok E (attempts s)" "valid_port (snd addr)"
  shows "\<exists>t reply. serve E ''STATE'' addr s = (Inr (), t) \<and> counter t = counter s
      \<and> out t = out s @ [SendTo addr reply]
      \<and> (reachable_kernel C \<and> port_ok port \<and> answer_to C (asked u) = Answered reply
          \<longrightarrow> fst (get_counter C host port u) = Inr (Some (counter s)))"
proof -
  let ?r = "state_reply (node_name s) (counter s)"
  let ?t = "s\<lparr>attempts := Suc (attempts s), out := out s @ [SendTo addr ?r]\<rparr>"
  have "decode (take BUF ''STATE'') = Inr ''STATE''" by (simp add: BUF_def decode_def)
  then have "serve E ''STATE'' addr s = (Inr (), ?t)"
    using assms(4,5)
    by (simp add: serve_def pcatch_def handle_request_def on_state_def sock_sendto_def emit_out_def py_run
        starts_with_def)
  moreover have "heard (Answered ?r) = Some (counter s)"
    using read_state_reply[OF assms(2)] state_reply_valid[OF assms(1)] assms(3)
    by (simp add: heard_def state_reply_def)
  then have "fst (get_counter C host port u) = Inr (Some (counter s))"
    if "reachable_kernel C" "port_ok port" "answer_to C (asked u) = Answered ?r"
    using get_counter_reads[OF that(1,2) refl, of host u] that(3) by (metis fst_conv)
  ultimately show ?thesis by (intro exI[of _ ?t] exI[of _ ?r]) simp
qed

definition kernel_of :: "(nat \<Rightarrow> answer) \<Rightarrow> udp" where
  "kernel_of f = \<lparr>send_ok = (\<lambda>k. True), bind_ok = True, arrivals = [], answer_to = f\<rparr>"

definition fresh_proc :: "string \<Rightarrow> int \<Rightarrow> proc" where
  "fresh_proc n c = \<lparr>node_name = n, counter = c, out = [], attempts = 0, asked = 0, slept = 0\<rparr>"

theorem counter_is_read_back_witness:
  "\<exists>t reply. serve (kernel_of (\<lambda>k. Failed)) ''STATE'' (''h9'', 5000) (fresh_proc ''a'' (-7)) = (Inr (), t)
     \<and> counter t = -7 \<and> out t = [SendTo (''h9'', 5000) reply]
     \<and> (reply = ''STATE a counter=-7'' \<longrightarrow>
          fst (get_counter (kernel_of (\<lambda>k. Answered ''STATE a counter=-7'')) ''h1'' ''5000'' (fresh_proc ''c'' 0))
          = Inr (Some (-7)))"
proof -
  let ?C = "kernel_of (\<lambda>k. Answered ''STATE a counter=-7'')"
  have "length (state_reply ''a'' (-7)) \<le> BUF" "port_ok ''5000''" by code_simp+
  moreover have "reachable_kernel ?C" by (simp add: reachable_kernel_def kernel_of_def)
  ultimately show ?thesis
    using counter_is_read_back[of "fresh_proc ''a'' (-7)" "kernel_of (\<lambda>k. Failed)" "(''h9'', 5000)"
        ?C "''5000''" "fresh_proc ''c'' 0" "''h1''"]
    by (auto simp: fresh_proc_def kernel_of_def valid_port_def utf8_valid_ascii)
qed

subsection \<open>The verdict of sum\<close>

definition readings :: "udp \<Rightarrow> nat \<Rightarrow> reading" where
  "readings E n =
     (heard (answer_to E (3 * n)), heard (answer_to E (Suc (3 * n))),
      heard (answer_to E (Suc (Suc (3 * n)))))"

text \<open>All three nodes answered, and their counters add up.\<close>

definition right_sum :: "int \<Rightarrow> reading \<Rightarrow> bool" where
  "right_sum expected r = (case r of (Some a, Some b, Some c) \<Rightarrow> a + b + c = expected | _ \<Rightarrow> False)"

text \<open>The number of right polls in a row among the first \<open>n\<close>.\<close>

primrec in_a_row :: "udp \<Rightarrow> int \<Rightarrow> nat \<Rightarrow> nat" where
  "in_a_row E expected 0 = 0"
| "in_a_row E expected (Suc n) =
     (if right_sum expected (readings E n) then Suc (in_a_row E expected n) else 0)"

lemma in_a_row_iff:
  "k \<le> in_a_row E x n \<longleftrightarrow> k \<le> n \<and> (\<forall>j. n - k \<le> j \<and> j < n \<longrightarrow> right_sum x (readings E j))"
proof (induction n arbitrary: k)
  case (Suc n)
  show ?case
  proof (cases k)
    case (Suc k')
    then show ?thesis
      using Suc.IH[of k'] by (cases "right_sum x (readings E n)") (auto simp: less_Suc_eq intro: diff_le_self)
  qed auto
qed simp

lemma judge_readings:
  "judge x (int (in_a_row E x n)) (readings E n) = int (in_a_row E x (Suc n))"
  by (auto simp: judge_def right_sum_def split: prod.splits option.splits)

lemma right_sum_complete: "right_sum x r \<Longrightarrow> complete r"
  by (auto simp: right_sum_def complete_def split: prod.splits option.splits)

definition ports_ok :: "string list \<Rightarrow> bool" where
  "ports_ok args \<longleftrightarrow> port_ok (args ! 1) \<and> port_ok (args ! 3) \<and> port_ok (args ! 5)"

lemma poll_reads:
  assumes "reachable_kernel E" and "ports_ok args" and "asked s = 3 * n"
  obtains t where "poll E args s = (Inr (readings E n), t)" and "asked t = 3 * Suc n" and "slept t = slept s"
proof -
  have p: "port_ok (args ! 1)" "port_ok (args ! 3)" "port_ok (args ! 5)"
    using assms(2) by (simp_all add: ports_ok_def)
  obtain t1 where 1: "get_counter E (args ! 0) (args ! 1) s = (Inr (heard (answer_to E (3 * n))), t1)"
      "asked t1 = Suc (3 * n)" "slept t1 = slept s"
    by (rule get_counter_reads[OF assms(1) p(1) assms(3)])
  obtain t2 where 2: "get_counter E (args ! 2) (args ! 3) t1 = (Inr (heard (answer_to E (Suc (3 * n)))), t2)"
      "asked t2 = Suc (Suc (3 * n))" "slept t2 = slept t1"
    by (rule get_counter_reads[OF assms(1) p(2) 1(2)])
  obtain t3 where 3: "get_counter E (args ! 4) (args ! 5) t2 = (Inr (heard (answer_to E (Suc (Suc (3 * n))))), t3)"
      "asked t3 = Suc (Suc (Suc (3 * n)))" "slept t3 = slept t2"
    by (rule get_counter_reads[OF assms(1) p(3) 2(2)])
  show ?thesis
  proof (rule that[of t3])
    show "poll E args s = (Inr (readings E n), t3)"
      by (simp only: poll_def pbind_run 1(1) 2(1) 3(1) pret_run readings_def prod.case sum.case)
  qed (use 1 2 3 in simp_all)
qed

lemma sum_loop_verdict:
  assumes E: "reachable_kernel E" "ports_ok args" and "0 < needed"
  shows "asked s = 3 * n \<Longrightarrow>
    \<exists>r t. sum_loop E args x timeout needed (100 * int n) (int (in_a_row E x n)) s = (Inr r, t)
      \<and> r \<in> {0, 1}
      \<and> (r = 0 \<longleftrightarrow> (\<exists>m\<ge>n. 100 * int m \<le> timeout \<and> needed \<le> int (in_a_row E x (Suc m))))
      \<and> (r = 1 \<longrightarrow> slept t = slept s + 500 * nat (timeout div 100 + 1 - int n))
      \<and> asked t \<le> max (3 * n) (3 * nat (timeout div 100 + 1))"
proof (induction "nat (timeout + 100 - 100 * int n)" arbitrary: n s rule: less_induct)
  case less
  let ?a = "in_a_row E x" and ?N = "timeout div 100 + 1"
  show ?case
  proof (cases "100 * int n \<le> timeout")
    case False
    then have "?N \<le> int n" by linarith
    moreover have "\<not> (\<exists>m\<ge>n. 100 * int m \<le> timeout)" using False by auto
    ultimately show ?thesis using False less(2) by (subst sum_loop.simps) auto
  next
    case True
    then have N: "int n < ?N" by linarith
    obtain t where p: "poll E args s = (Inr (readings E n), t)" "asked t = 3 * Suc n" "slept t = slept s"
      using poll_reads[OF E less(2)] by blast
    let ?u = "t\<lparr>out := out t @ [Print (sum_line x (readings E n))]\<rparr>"
    have full: "complete (readings E n)" if "needed \<le> int (?a (Suc n))"
      using that \<open>0 < needed\<close> right_sum_complete[of x "readings E n"] by (auto split: if_splits)
    show ?thesis
    proof (cases "needed \<le> int (?a (Suc n))")
      case True
      with \<open>100 * int n \<le> timeout\<close> have "sum_loop E args x timeout needed (100 * int n) (int (?a n)) s = (Inr 0, ?u)"
        by (subst sum_loop.simps) (simp only: p judge_readings full[OF True] Let_def prod.case sum.case if_True simp_thms)
      moreover have "asked ?u \<le> max (3 * n) (3 * nat ?N)" using N p(2) by simp
      ultimately show ?thesis using True \<open>100 * int n \<le> timeout\<close> by (intro exI[of _ 0] exI[of _ ?u]) auto
    next
      case False
      let ?v = "?u\<lparr>slept := slept ?u + 500\<rparr>"
      have step: "sum_loop E args x timeout needed (100 * int n) (int (?a n)) s
          = sum_loop E args x timeout needed (100 * int (Suc n)) (int (?a (Suc n))) ?v"
        using \<open>100 * int n \<le> timeout\<close> False
        by (subst sum_loop.simps) (simp only: p judge_readings Let_def prod.case sum.case if_True if_False simp_thms,
          simp add: add.commute)
      have "asked ?v = 3 * Suc n" using p by simp
      from less(1)[OF _ this] \<open>100 * int n \<le> timeout\<close> obtain r w where
        IH: "sum_loop E args x timeout needed (100 * int (Suc n)) (int (?a (Suc n))) ?v = (Inr r, w)"
          "r \<in> {0, 1}" "r = 0 \<longleftrightarrow> (\<exists>m\<ge>Suc n. 100 * int m \<le> timeout \<and> needed \<le> int (?a (Suc m)))"
          "r = 1 \<longrightarrow> slept w = slept ?v + 500 * nat (?N - int (Suc n))"
          "asked w \<le> max (3 * Suc n) (3 * nat ?N)" by auto
      have "(\<exists>m\<ge>n. 100 * int m \<le> timeout \<and> needed \<le> int (?a (Suc m)))
          \<longleftrightarrow> (\<exists>m\<ge>Suc n. 100 * int m \<le> timeout \<and> needed \<le> int (?a (Suc m)))"
        using False by (metis Suc_leD not_less_eq_eq order_antisym)
      moreover have "nat (?N - int n) = Suc (nat (?N - int (Suc n)))" using N by linarith
      moreover have "Suc n \<le> nat ?N" using N by linarith
      then have "max (3 * Suc n) (3 * nat ?N) = max (3 * n) (3 * nat ?N)" by simp
      ultimately show ?thesis using IH p(3) unfolding step by (intro exI[of _ r] exI[of _ w]) simp
    qed
  qed
qed

text \<open>
  C30: the verdict of \<open>sum\<close>. It exits with 0 exactly when, among the polls numbered
  \<open>0 \<dots> timeout_ms div 100\<close>, there are \<open>stable_needed\<close> consecutive ones in which
  all three nodes answered and their counters add up to the expected total, and with 1
  otherwise; it always ends, after at most three requests for each of these polls. Since every
  poll sleeps 500 ms but counts 100, a failing run sleeps five times its time limit and more.
\<close>

theorem sum_verdict:
  assumes "reachable_kernel E" "ports_ok args" "asked s = 0"
    and "parse_int (args ! 6) = Inr expected" "parse_int (args ! 7) = Inr timeout_ms"
    and "parse_int (args ! 8) = Inr (int needed)" "0 < needed"
  shows "\<exists>r t. sum_counters E args s = (Inr r, t) \<and> r \<in> {0, 1}
      \<and> (r = 0 \<longleftrightarrow> (\<exists>m. 100 * int m \<le> timeout_ms \<and> needed \<le> Suc m
            \<and> (\<forall>j. m < j + needed \<and> j \<le> m \<longrightarrow> right_sum expected (readings E j))))
      \<and> (r = 1 \<longrightarrow> slept t = slept s + 500 * nat (timeout_ms div 100 + 1)
           \<and> (0 \<le> timeout_ms \<longrightarrow> 5 * timeout_ms < int (slept t)))
      \<and> asked t \<le> 3 * nat (timeout_ms div 100 + 1)"
proof -
  have run: "sum_counters E args s = sum_loop E args expected timeout_ms (int needed)
      (100 * int 0) (int (in_a_row E expected 0)) s"
    using assms(4-6) by (simp add: sum_counters_def)
  from sum_loop_verdict[of E args "int needed" s 0 expected timeout_ms] assms(1-3,7) obtain r t where
    v: "sum_counters E args s = (Inr r, t)" "r \<in> {0, 1}"
      "r = 0 \<longleftrightarrow> (\<exists>m\<ge>0. 100 * int m \<le> timeout_ms \<and> int needed \<le> int (in_a_row E expected (Suc m)))"
      "r = 1 \<longrightarrow> slept t = slept s + 500 * nat (timeout_ms div 100 + 1 - int 0)"
      "asked t \<le> max (3 * 0) (3 * nat (timeout_ms div 100 + 1))"
    unfolding run by fastforce
  have "needed \<le> in_a_row E expected (Suc m) \<longleftrightarrow> needed \<le> Suc m
      \<and> (\<forall>j. m < j + needed \<and> j \<le> m \<longrightarrow> right_sum expected (readings E j))" for m
    unfolding in_a_row_iff by (auto simp: less_Suc_eq_le)
  then have "r = 0 \<longleftrightarrow> (\<exists>m. 100 * int m \<le> timeout_ms \<and> needed \<le> Suc m
      \<and> (\<forall>j. m < j + needed \<and> j \<le> m \<longrightarrow> right_sum expected (readings E j)))"
    using v(3) by simp
  moreover have "5 * timeout_ms < int (500 * nat (timeout_ms div 100 + 1))" if "0 \<le> timeout_ms"
    using that by linarith
  ultimately show ?thesis using v(1,2,4,5) by (intro exI[of _ r] exI[of _ t]) auto
qed

definition demo_sum :: udp where
  "demo_sum = kernel_of (\<lambda>k. if k = 1 then Failed
     else Answered (if k mod 3 = 0 then ''STATE a counter=6'' else if k mod 3 = 1 then ''STATE b counter=4''
       else ''STATE c counter=0''))"

theorem sum_verdict_witness:
  "\<exists>t. sum_counters demo_sum
     [''h1'', ''5000'', ''h2'', ''5000'', ''h3'', ''5000'', ''10'', ''300'', ''2''] (fresh_proc ''s'' 0) = (Inr 0, t)
     \<and> asked t \<le> 12"
proof -
  let ?args = "[''h1'', ''5000'', ''h2'', ''5000'', ''h3'', ''5000'', ''10'', ''300'', ''2'']"
  have args: "ports_ok ?args" "parse_int (?args ! 6) = Inr 10" "parse_int (?args ! 7) = Inr 300"
    "parse_int (?args ! 8) = Inr (int 2)" by code_simp+
  have "reachable_kernel demo_sum" by (simp add: reachable_kernel_def demo_sum_def kernel_of_def)
  moreover have "right_sum 10 (readings demo_sum 1)" "right_sum 10 (readings demo_sum 2)" by code_simp+
  then have "\<exists>m. 100 * int m \<le> 300 \<and> (2::nat) \<le> Suc m
      \<and> (\<forall>j. m < j + 2 \<and> j \<le> m \<longrightarrow> right_sum 10 (readings demo_sum j))"
    by (intro exI[of _ 2]) (auto simp: le_Suc_eq numeral_2_eq_2)
  ultimately show ?thesis
    using sum_verdict[of demo_sum ?args "fresh_proc ''s'' 0" 10 300 2] args
    by (auto simp: fresh_proc_def)
qed

end
