(* ===== verification/Lossless.thy ===== *)
theory Lossless
  imports Sidecar Routing
begin

text \<open>
  Both ends of a channel together: one pass of the sender's retransmission task, one round of
  the network that loses nothing, and the acknowledgements on their way back. And the end of
  the sequence space.
\<close>

subsection \<open>A round without loss\<close>

text \<open>The sender's table for a peer holds packets of the stream, all of them overdue.\<close>

definition table_of :: "(int \<Rightarrow> packet) \<Rightarrow> world \<Rightarrow> string \<Rightarrow> bool" where
  "table_of stream a ip \<longleftrightarrow>
     (\<forall>e\<in>set (unacked (peer_of a ip)). due (clock a) e \<and> fst (stream (fst e)) = fst e
        \<and> packet_ok (stream (fst e)) \<and> snd (snd e) = packet_bytes (stream (fst e)))"

text \<open>The receiver holds packets of the stream.\<close>

definition buffer_of :: "(int \<Rightarrow> packet) \<Rightarrow> world \<Rightarrow> string \<Rightarrow> bool" where
  "buffer_of stream w ip \<longleftrightarrow>
     rx_inv (rx_of w ip) \<and> held_messages (rx_of w ip) \<and> rx.from_stream (in_stream stream) (rx_of w ip)"

definition keys_of :: "('k \<times> 'v) list \<Rightarrow> 'k set" where
  "keys_of d = set (map fst d)"

text \<open>
  Nothing the sender has numbered is lost for good: the receiver has handed it over or holds
  it, or it waits in the sender's table; and nothing else is on either side.
\<close>

definition accounted :: "world \<Rightarrow> string \<Rightarrow> world \<Rightarrow> string \<Rightarrow> bool" where
  "accounted a ip w jp \<longleftrightarrow>
     (let n = send_seq (peer_of a ip); r = rx_of w jp in
      fst r \<le> n \<and> keys_of (snd r) \<subseteq> {..<n} \<and> keys_of (unacked (peer_of a ip)) \<subseteq> {..<n}
      \<and> {fst r..<n} \<subseteq> keys_of (snd r) \<union> keys_of (unacked (peer_of a ip)))"

lemma acks_received:
  assumes "\<forall>k\<in>set ks. is_uint 8 k"
  obtains v where "pfor (\<lambda>k. datagram_received E (ack_frame k) ip) ks w = (Inr (), v)"
    and "keys_of (unacked (peer_of v ip)) = keys_of (unacked (peer_of w ip)) - set ks"
    and "send_seq (peer_of v ip) = send_seq (peer_of w ip)"
proof -
  have "\<exists>v. pfor (\<lambda>k. datagram_received E (ack_frame k) ip) ks w = (Inr (), v)
    \<and> keys_of (unacked (peer_of v ip)) = keys_of (unacked (peer_of w ip)) - set ks
    \<and> send_seq (peer_of v ip) = send_seq (peer_of w ip)"
    using assms
  proof (induction ks arbitrary: w)
    case Nil
    then show ?case by (simp add: pret_run)
  next
    case (Cons k ks)
    let ?u = "upd_peer ip (\<lambda>p. p\<lparr>unacked := AList.delete k (unacked p)\<rparr>) (ensured ip w)"
    have run: "datagram_received E (ack_frame k) ip w = (Inr (), ?u)"
      using ack_frame_run[of k E "[]" ip w] Cons.prems by simp
    obtain v where v: "pfor (\<lambda>k. datagram_received E (ack_frame k) ip) ks ?u = (Inr (), v)"
      "keys_of (unacked (peer_of v ip)) = keys_of (unacked (peer_of ?u ip)) - set ks"
      "send_seq (peer_of v ip) = send_seq (peer_of ?u ip)"
      using Cons.IH[of ?u] Cons.prems by auto
    have "keys_of (AList.delete k (unacked (peer_of w ip))) = keys_of (unacked (peer_of w ip)) - {k}"
      unfolding keys_of_def by (rule pydict.set_keys_del)
    with v show ?case by (intro exI[of _ v]) (auto simp: pseq_run run)
  qed
  with that show ?thesis by blast
qed

lemma sent_to_Cons:
  "sent_to ip (TunnelSend pk jp # es) = (if jp = ip then pk # sent_to ip es else sent_to ip es)"
  by (simp add: sent_to_def)

lemma sent_to_resends_one:
  "sent_to ip (resends now (jp, p))
    = (if jp = ip then map (snd \<circ> snd) (filter (due now) (unacked p)) else [])"
proof -
  have "sent_to ip [TunnelSend (snd (snd e)) jp. e \<leftarrow> d, due now e]
      = (if jp = ip then map (snd \<circ> snd) (filter (due now) d) else [])" for d
    by (induction d) (simp_all add: sent_to_Cons)
  from this[of "unacked p"] show ?thesis by (simp only: resends_def fst_conv snd_conv)
qed

lemma sent_to_resends:
  "distinct (map fst d) \<Longrightarrow> sent_to ip (concat (map (resends now) d))
    = (case map_of d ip of None \<Rightarrow> [] | Some p \<Rightarrow> map (snd \<circ> snd) (filter (due now) (unacked p)))"
proof (induction d)
  case (Cons x d)
  obtain jp p where x: "x = (jp, p)" by (cases x)
  with Cons have "map_of d jp = None" by (simp add: map_of_eq_None_iff)
  with Cons x show ?case by (auto simp: sent_to_resends_one)
qed simp

lemma resends_all:
  assumes "sidecar_ok a" and "table_of stream a ip"
  shows "sent_to ip (concat (map (resends (clock a)) (peers a)))
    = map (\<lambda>e. packet_bytes (stream (fst e))) (unacked (peer_of a ip))"
proof -
  have d: "distinct (map fst (peers a))"
    using assms(1) by (simp add: sidecar_ok_def world_inv_def base_inv_def peers_inv_def)
  have "sent_to ip (concat (map (resends (clock a)) (peers a)))
      = map (snd \<circ> snd) (filter (due (clock a)) (unacked (peer_of a ip)))"
    unfolding sent_to_resends[OF d] by (simp add: peer_of_def PeerState_def split: option.split)
  also have "filter (due (clock a)) (unacked (peer_of a ip)) = unacked (peer_of a ip)"
    using assms(2) by (simp add: table_of_def)
  finally show ?thesis using assms(2) by (simp add: table_of_def)
qed

lemma rx_completes:
  assumes r: "rx_inv r" and n: "fst r \<le> n" "keys_of (snd r) \<subseteq> {..<n}" "fst ` set es \<subseteq> {..<n}"
    and all: "{fst r..<n} \<subseteq> keys_of (snd r) \<union> fst ` set es"
  shows "fst (rx.run es r) = (n, [])"
proof -
  let ?s = "fst (rx.run es r)"
  have inv: "rx_inv ?s" by (rule rx.inv_run[OF r])
  have dom: "dom (map_of (snd q)) = keys_of (snd q)" for q :: "int \<times> (int \<times> 'a) list"
    unfolding keys_of_def by (simp add: dom_map_of_conv_image_fst)
  have got: "{fst r..<fst ?s} \<union> keys_of (snd ?s) = keys_of (snd r) \<union> {k \<in> fst ` set es. fst r \<le> k}"
    using rx.run_got[OF r order_refl, of es] by (simp add: rx.got_def dom)
  have ge: "fst r \<le> fst ?s" by (rule rx.run_mono[OF r])
  have no: "fst ?s \<notin> {fst r..<fst ?s} \<union> keys_of (snd ?s)"
    using rx.next_not_got[OF inv, of "fst r"] by (simp add: rx.got_def dom)
  have "n \<le> fst ?s"
  proof (rule ccontr)
    assume "\<not> n \<le> fst ?s"
    with ge have "fst ?s \<in> {fst r..<n}" by simp
    with all have "fst ?s \<in> keys_of (snd r) \<union> fst ` set es" by (rule subsetD)
    with ge have "fst ?s \<in> keys_of (snd r) \<union> {k \<in> fst ` set es. fst r \<le> k}" by blast
    with no show False unfolding got by blast
  qed
  moreover have sub: "{fst r..<fst ?s} \<union> keys_of (snd ?s) \<subseteq> {..<n}" unfolding got using n(2,3) by blast
  have "fst ?s \<le> n"
  proof (rule ccontr)
    assume "\<not> fst ?s \<le> n"
    with n(1) have "n \<in> {fst r..<fst ?s}" by simp
    with sub show False by blast
  qed
  ultimately have eq: "fst ?s = n" by simp
  have "snd ?s = []"
  proof (rule ccontr)
    assume "snd ?s \<noteq> []"
    then obtain k where k: "k \<in> keys_of (snd ?s)" unfolding keys_of_def by (cases "snd ?s") auto
    then have "fst ?s < k" using inv unfolding rx_inv_def keys_of_def by (cases ?s) auto
    moreover have "k < n" using sub k by auto
    ultimately show False using eq by simp
  qed
  with eq show ?thesis by (cases ?s) simp
qed

text \<open>
  C7: The tunnel makes progress: one round of the network without loss completes the stream.
  Whatever was lost before, when every packet in the sender's table is overdue, its next
  retransmission pass sends all of them; once they have reached the receiver, in any order
  and any number of times, the application there has the whole stream up to the sender's
  position, in order, and nothing is held back; and once the acknowledgements are back the
  sender's table is empty.
\<close>

theorem lossless_round_completes_the_stream:
  assumes "sidecar_ok a" and "\<not> timed_out a" and "table_of stream a rip"
    and "idle w" and "tunnel_transport w" and "\<forall>n. send_ok E n" and "buffer_of stream w sip"
    and "accounted a rip w sip"
    and "set ks = keys_of (unacked (peer_of a rip))"
  shows "\<exists>a' v a''. retransmit_tick Ea a = (Inr (), a')
    \<and> (\<exists>es. trace a' = trace a @ es \<and> set (sent_to rip es) = packet_bytes ` stream ` set ks)
    \<and> pfor (\<lambda>k. datagram_received E (packet_bytes (stream k)) sip) ks w = (Inr (), v)
    \<and> rx_of v sip = (send_seq (peer_of a rip), [])
    \<and> delivered (trace v) = delivered (trace w)
        @ map (\<lambda>k. to_app (packet_entry (stream k))) [fst (rx_of w sip)..send_seq (peer_of a rip) - 1]
    \<and> tunneled (trace v) = tunneled (trace w) @ map (\<lambda>k. (ack_frame k, sip)) ks
    \<and> pfor (\<lambda>k. datagram_received Ea (ack_frame k) rip) ks a' = (Inr (), a'')
    \<and> unacked (peer_of a'' rip) = [] \<and> send_seq (peer_of a'' rip) = send_seq (peer_of a rip)"
proof -
  let ?n = "send_seq (peer_of a rip)" and ?es = "concat (map (resends (clock a)) (peers a))"
  let ?a = "retransmitted (clock a) a" and ?ds = "map stream ks"
  have tick: "retransmit_tick Ea a = (Inr (), ?a)"
    using assms(2) sidecar_core[OF assms(1)]
    by (simp add: retransmit_tick_def check_timeout_def pbind_pget pseq_run pret_run retransmit_run)
  have key: "packet_ok (stream k) \<and> fst (stream k) = k" if "k \<in> set ks" for k
    using that assms(3,9) by (auto simp: table_of_def keys_of_def)
  have sent: "set (sent_to rip ?es) = packet_bytes ` stream ` set ks"
    unfolding resends_all[OF assms(1,3)] assms(9) keys_of_def by force
  have inv: "rx_inv (rx_of w sip)" and held: "held_messages (rx_of w sip)"
    and str: "rx.from_stream (in_stream stream) (rx_of w sip)" using assms(7) by (simp_all add: buffer_of_def)
  have ds: "\<forall>d\<in>set ?ds. of_stream stream d" using key by (auto simp: of_stream_def)
  obtain v where v: "pfor (\<lambda>d. datagram_received E (packet_bytes d) sip) ?ds w = (Inr (), v)"
    "rx_of v = (rx_of w)(sip := fst (rx.run (map packet_entry ?ds) (rx_of w sip)))"
    "delivered (trace v) = delivered (trace w)
      @ map (\<lambda>k. to_app (packet_entry (stream k))) [fst (rx_of w sip)..fst (rx_of v sip) - 1]"
    "tunneled (trace v) = tunneled (trace w) @ map (\<lambda>d. (ack_frame (fst d), sip)) ?ds"
    by (rule stream_received[OF assms(4-6) inv held str ds])
  have seqs: "fst ` set (map packet_entry ?ds) = set ks" using key by (force simp: image_image)
  have "fst (rx.run (map packet_entry ?ds) (rx_of w sip)) = (?n, [])"
    by (rule rx_completes[OF inv]) (use assms(8) seqs assms(9) in \<open>auto simp: accounted_def Let_def\<close>)
  then have rxv: "rx_of v sip = (?n, [])" by (simp add: v(2))
  have "is_uint 8 (fst d)" if "packet_ok d" for d using that by (auto simp: packet_ok_def split: prod.splits)
  with key have "\<forall>k\<in>set ks. is_uint 8 k" by metis
  then obtain b where b: "pfor (\<lambda>k. datagram_received Ea (ack_frame k) rip) ks ?a = (Inr (), b)"
    "keys_of (unacked (peer_of b rip)) = keys_of (unacked (peer_of ?a rip)) - set ks"
    "send_seq (peer_of b rip) = send_seq (peer_of ?a rip)"
    by (rule acks_received)
  have "keys_of (unacked (peer_of ?a rip)) = set ks"
    unfolding assms(9) keys_of_def peer_of_retransmitted by (simp add: keys_refresh del: map_map set_map)
  then have "keys_of (unacked (peer_of b rip)) = {}" using b(2) by simp
  then have "unacked (peer_of b rip) = []" by (cases "unacked (peer_of b rip)") (simp_all add: keys_of_def)
  moreover have "pfor (\<lambda>k. datagram_received E (packet_bytes (stream k)) sip) ks w = (Inr (), v)"
    using v(1) by (simp only: pfor_map)
  moreover have "trace ?a = trace a @ ?es" by (simp add: retransmitted_def)
  moreover have "map (\<lambda>d. (ack_frame (fst d), sip)) ?ds = map (\<lambda>k. (ack_frame k, sip)) ks"
    using key by simp
  ultimately show ?thesis
    using tick sent rxv v(3,4) b(1,3)
    by (intro exI[of _ ?a] exI[of _ v] exI[of _ b]) (auto simp: peer_of_retransmitted)
qed

definition demo_sender :: world where
  "demo_sender = upd_peer ''10.24.24.11'' (\<lambda>p. p\<lparr>unacked :=
     [(0, - 600, packet_bytes (demo_packet 0))], send_seq := 2\<rparr>) demo_world"

definition demo_holder :: world where
  "demo_holder = upd_peer ''10.24.24.10'' (\<lambda>p. p\<lparr>recv_buffer := [packet_entry (demo_packet 1)]\<rparr>) demo_world"

lemma demo_packet_facts:
  "packet_ok (demo_packet 0)" "packet_ok (demo_packet 1)" "fst (demo_packet n) = n"
  by (simp_all add: demo_packet_def packet_ok_def is_uint_def MARKER_def starts_with_def)

lemma demo_sender_ok: "sidecar_ok demo_sender"
proof -
  have ok: "data_header_ok (0, 0, 5000, 6000, ZERO_IP)" by (simp add: is_uint_def)
  have "frame_seq (packet_bytes (demo_packet 0)) = 0"
    unfolding packet_bytes_def demo_packet_def data_frame_def prod.case
    by (rule frame_seq_packed[OF data_header_pack_ok[OF ok]])
  moreover have "world_inv demo_sender"
    unfolding demo_sender_def world_inv_def
    using demo_base_inv demo_world_inv by (auto simp: world_inv_def peer_ok_def intro!: base_inv_upd_peer)
  ultimately show ?thesis
    by (simp add: sidecar_ok_def demo_sender_def rx_ok_def rx_of_def rx_inv_def PeerState_def tx_ok_def
        entry_ok_def)
qed

lemma demo_holder_facts:
  "idle demo_holder" "tunnel_transport demo_holder" "buffer_of demo_packet demo_holder ''10.24.24.10''"
  "rx_of demo_holder ''10.24.24.10'' = (0, [packet_entry (demo_packet 1)])"
proof -
  show rx: "rx_of demo_holder ''10.24.24.10'' = (0, [packet_entry (demo_packet 1)])"
    by (simp add: rx_of_def demo_holder_def PeerState_def)
  have e: "packet_entry (demo_packet 1) = (1, ''B'', 5000, 6000, quad ZERO_IP)"
    by (simp add: packet_entry_def demo_packet_def char_of_def)
  show "buffer_of demo_packet demo_holder ''10.24.24.10''"
    by (auto simp: buffer_of_def rx e rx_inv_def held_messages_def is_message_def MARKER_def
        starts_with_def rx.from_stream_def in_stream_def split: if_splits)
  have "base_inv demo_holder"
    unfolding demo_holder_def using demo_base_inv by (auto simp: peer_ok_def e intro!: base_inv_upd_peer)
  then show "idle demo_holder" by (simp add: idle_def demo_holder_def SnapshotController_def)
  show "tunnel_transport demo_holder" by (simp add: demo_holder_def)
qed

theorem lossless_round_completes_the_stream_witness:
  "\<exists>v. datagram_received demo_env (packet_bytes (demo_packet 0)) ''10.24.24.10'' demo_holder = (Inr (), v)
    \<and> delivered (trace v) = [(''A'', quad ZERO_IP, 6000), (''B'', quad ZERO_IP, 6000)]"
proof -
  let ?a = "''10.24.24.11''" and ?b = "''10.24.24.10''"
  have "\<not> timed_out demo_sender" by (simp add: timed_out_def demo_sender_def SnapshotController_def)
  moreover have "table_of demo_packet demo_sender ?a"
    using demo_packet_facts by (simp add: table_of_def demo_sender_def due_def RETRY_TIMEOUT_def)
  moreover have "accounted demo_sender ?a demo_holder ?b"
    using demo_packet_facts(3) by (auto simp: accounted_def demo_holder_facts(4) keys_of_def demo_sender_def)
  moreover have "set [0] = keys_of (unacked (peer_of demo_sender ?a))"
    by (simp add: keys_of_def demo_sender_def)
  ultimately obtain v where v:
    "pfor (\<lambda>k. datagram_received demo_env (packet_bytes (demo_packet k)) ?b) [0] demo_holder = (Inr (), v)"
    "delivered (trace v) = delivered (trace demo_holder) @ map (\<lambda>k. to_app (packet_entry (demo_packet k)))
      [fst (rx_of demo_holder ?b)..send_seq (peer_of demo_sender ?a) - 1]"
    using lossless_round_completes_the_stream[OF demo_sender_ok _ _ demo_holder_facts(1,2) demo_sends
        demo_holder_facts(3), where ks = "[0]" and Ea = demo_env] by blast
  have "trace demo_holder = []" "send_seq (peer_of demo_sender ?a) = 2"
    by (simp_all add: demo_holder_def demo_sender_def)
  with v demo_holder_facts(4) show ?thesis
    by (intro exI[of _ v]) (simp add: upto.simps demo_packet_def packet_entry_def to_app_def char_of_def)
qed

subsection \<open>The end of the sequence space\<close>

lemma send_in_space:
  assumes "tunnel_transport w" and "is_uint 8 (send_seq (peer_of w ip))"
    and "is_uint 2 sp" "is_uint 2 dp" "length tip = 4"
  shows "send_data ip sp dp tip p w
    = (Inr (), sent_data ip (data_frame (send_seq (peer_of w ip)) sp dp tip p) w)"
proof -
  have "data_header_ok (0, send_seq (peer_of w ip), sp, dp, tip)" using assms by (simp add: is_uint_def)
  from send_data_run[OF assms(1) data_header_pack_ok[OF this]] show ?thesis by (simp add: data_frame_def)
qed

lemma send_past_the_end:
  assumes "send_seq (peer_of w ip) = 2 ^ 64"
  shows "send_data ip sp dp tip p w = (Inl StructError, w)"
proof -
  have "pack_uint 1 0 = Inr (be_bytes 1 0)" "pack_uint 8 (2 ^ 64) = Inl StructError"
    by (simp_all add: pack_uint_def)
  then have "data_header_pack (0, 2 ^ 64, sp, dp, tip) = Inl StructError" by simp
  then show ?thesis using assms by (simp add: send_data_def pbind_pget praise_run del: data_header_pack.simps)
qed

text \<open>
  C29: Sequence numbers never wrap around. A batch of packets for one peer is sent with
  consecutive numbers while they fit the eight bytes of the header; the first packet past
  \<open>2^64 - 1\<close> raises \<open>struct.error\<close> and leaves the state as it is, so that no number is
  ever used twice and the position of the stream stays at \<open>2^64\<close>.
\<close>

theorem sequence_numbers_never_wrap:
  assumes "tunnel_transport w" and "send_seq (peer_of w ip) = n" "0 \<le> n" "n \<le> 2 ^ 64"
    and "is_uint 2 sp" "is_uint 2 dp" "length tip = 4"
  shows "\<exists>r v. pfor (send_data ip sp dp tip) ps w = (r, v)
    \<and> r = (if int (length ps) \<le> 2 ^ 64 - n then Inr () else Inl StructError)
    \<and> (let m = min (length ps) (nat (2 ^ 64 - n)) in
        send_seq (peer_of v ip) = n + int m
        \<and> trace v = trace w @ map (\<lambda>i. TunnelSend (data_frame (n + int i) sp dp tip (ps ! i)) ip) [0..<m])"
  using assms(1-4)
proof (induction ps arbitrary: w n)
  case Nil
  then show ?case by (simp add: pret_run)
next
  case (Cons p ps)
  show ?case
  proof (cases "n = 2 ^ 64")
    case True
    then show ?thesis using send_past_the_end Cons.prems(2) by (simp add: pseq_run)
  next
    case False
    let ?u = "sent_data ip (data_frame n sp dp tip p) w"
    have n: "n + 1 \<le> 2 ^ 64" "0 \<le> n + 1" "is_uint 8 n" using False Cons.prems by (simp_all add: is_uint_def)
    have step: "send_data ip sp dp tip p w = (Inr (), ?u)"
      using send_in_space[OF Cons.prems(1) _ assms(5-7), of ip p] n(3) Cons.prems(2) by simp
    let ?m = "min (length ps) (nat (2 ^ 64 - (n + 1)))"
    obtain r v where v: "pfor (send_data ip sp dp tip) ps ?u = (r, v)"
      "r = (if int (length ps) \<le> 2 ^ 64 - (n + 1) then Inr () else Inl StructError)"
      "send_seq (peer_of v ip) = n + 1 + int ?m"
      "trace v = trace ?u @ map (\<lambda>i. TunnelSend (data_frame (n + 1 + int i) sp dp tip (ps ! i)) ip) [0..<?m]"
      using Cons.IH[of ?u "n + 1"] Cons.prems n by (auto simp: Let_def)
    have m: "min (length (p # ps)) (nat (2 ^ 64 - n)) = Suc ?m" using n by (auto simp: min_def)
    have "map (\<lambda>i. TunnelSend (data_frame (n + int i) sp dp tip ((p # ps) ! i)) ip) [0..<Suc ?m]
        = TunnelSend (data_frame n sp dp tip p) ip
          # map (\<lambda>i. TunnelSend (data_frame (n + 1 + int i) sp dp tip (ps ! i)) ip) [0..<?m]"
      by (simp add: upt_conv_Cons map_Suc_upt[symmetric] o_def add.assoc del: upt_Suc)
    then show ?thesis
      using v step unfolding m by (intro exI[of _ r] exI[of _ v]) (simp add: pseq_run Let_def)
  qed
qed

definition demo_late_stream :: world where
  "demo_late_stream = upd_peer ''10.24.24.11'' (\<lambda>p. p\<lparr>send_seq := 2 ^ 64 - 1\<rparr>) demo_world"

theorem sequence_numbers_never_wrap_witness:
  "\<exists>v. pfor (send_data ''10.24.24.11'' 5000 6000 ZERO_IP) [''a'', ''b''] demo_late_stream = (Inl StructError, v)
    \<and> trace v = [TunnelSend (data_frame (2 ^ 64 - 1) 5000 6000 ZERO_IP ''a'') ''10.24.24.11'']"
proof -
  have "tunnel_transport demo_late_stream" "send_seq (peer_of demo_late_stream ''10.24.24.11'') = 2 ^ 64 - 1"
    "trace demo_late_stream = []" "is_uint 2 5000" "is_uint 2 6000"
    by (simp_all add: demo_late_stream_def is_uint_def)
  then show ?thesis
    using sequence_numbers_never_wrap[of demo_late_stream "''10.24.24.11''" "2 ^ 64 - 1" 5000 6000 ZERO_IP
        "[''a'', ''b'']"] by (auto simp: Let_def)
qed

end
