(* ===== verification/Interrupted.thy ===== *)
theory Interrupted
  imports Lossless
begin

text \<open>
  The await in \<open>start\<close>: the reader of the intercept socket is already registered, the restore has
  not run yet. What the application sends in between is numbered from zero, although the peers
  that are restored from the same cut expect the recorded position.
\<close>

subsection \<open>What the sender keeps\<close>

lemma forwarded_table:
  assumes "list_all (to_member E) ds" and "is_server w" and "tunnel_transport w" and "seqs_fit w (length ds)"
    and "pfor (take_forward E) (map queued ds) w = (Inr (), v)"
  shows "keys_of (unacked (peer_of v ip)) = keys_of (unacked (peer_of w ip))
    \<union> {send_seq (peer_of w ip)..<send_seq (peer_of w ip) + int (length (filter (\<lambda>d. dgram_ip d = ip) ds))}"
  using assms
proof (induction ds arbitrary: w)
  case Nil
  then show ?case by (simp add: pret_run)
next
  case (Cons d ds)
  let ?jp = "dgram_ip d" and ?n = "send_seq (peer_of w (dgram_ip d))"
  let ?u = "sent_data ?jp (dgram_frame ?n d) (ensured ?jp (w\<lparr>local_sock := tl (local_sock w)\<rparr>))"
  have "is_uint 8 ?n" by (rule seqs_fit_Suc[of w "length ds"]) (use Cons.prems(4) in simp)
  then have first: "take_forward E (queued d) w = (Inr (), ?u)"
    by (intro take_forward_member) (use Cons.prems in simp_all)
  have "seqs_fit ?u (length ds)" by (rule seqs_fit_sent) (use Cons.prems(4) in simp)
  with Cons.IH[of ?u] Cons.prems first
  have IH: "keys_of (unacked (peer_of v ip)) = keys_of (unacked (peer_of ?u ip))
    \<union> {send_seq (peer_of ?u ip)..<send_seq (peer_of ?u ip) + int (length (filter (\<lambda>d. dgram_ip d = ip) ds))}"
    by (simp add: pseq_run)
  have "keys_of (AList.update k x d) = insert k (keys_of d)" for k x and d :: "(int \<times> int \<times> bytes) list"
    unfolding keys_of_def by (rule pydict.set_keys_put)
  then show ?case unfolding IH by auto
qed

subsection \<open>What the receiver drops\<close>

lemma stale_frame_dropped:
  assumes "to_member E d" and "is_uint 8 n" and "n < fst (rx_of w ip)" and "tunnel_transport w"
  shows "datagram_received E' (dgram_frame n d) ip w = (Inr (), emit (TunnelSend (ack_frame n) ip) (ensured ip w))"
proof -
  obtain dst port src sp data where d: "d = (dst, port, src, sp, data)" by (cases d)
  have "data_header_ok (0, n, sp, port, dst)" "inet_ntoa dst = Inr (quad dst)"
    using assms(1,2) by (simp_all add: d is_uint_def quad_ok)
  from datagram_data_run[OF this(1) assms(4) this(2), of E' data ip] assms(3) show ?thesis
    by (simp add: d in_order_def pbind_pget pret_run rx_of_def)
qed

lemma stale_frames_dropped:
  assumes "list_all (to_member E) ds" and "0 \<le> n" and "n + int (length ds) \<le> 256 ^ 8"
    and "n + int (length ds) \<le> fst (rx_of w ip)" and "tunnel_transport w"
  shows "\<exists>v. pfor (\<lambda>f. datagram_received E' f ip) (frames n ds) w = (Inr (), v) \<and> rx_of v = rx_of w
    \<and> delivered (trace v) = delivered (trace w)
    \<and> tunneled (trace v) = tunneled (trace w) @ map (\<lambda>k. (ack_frame k, ip)) [n..n + int (length ds) - 1]"
  using assms
proof (induction ds arbitrary: n w)
  case Nil
  then show ?case by (simp add: pret_run)
next
  case (Cons d ds)
  let ?u = "emit (TunnelSend (ack_frame n) ip) (ensured ip w)"
  have first: "datagram_received E' (dgram_frame n d) ip w = (Inr (), ?u)"
    by (rule stale_frame_dropped[where E = E]) (use Cons.prems in \<open>simp_all add: is_uint_def\<close>)
  have rx: "rx_of ?u = rx_of w" by (rule ext) simp
  obtain v where v: "pfor (\<lambda>f. datagram_received E' f ip) (frames (n + 1) ds) ?u = (Inr (), v)" "rx_of v = rx_of ?u"
    "delivered (trace v) = delivered (trace ?u)"
    "tunneled (trace v) = tunneled (trace ?u) @ map (\<lambda>k. (ack_frame k, ip)) [n + 1..n + 1 + int (length ds) - 1]"
    using Cons.IH[of "n + 1" ?u] Cons.prems by (auto simp: rx)
  have "[n..n + int (length (d # ds)) - 1] = n # [n + 1..n + 1 + int (length ds) - 1]"
    by (simp add: upto_rec1 algebra_simps)
  then show ?case using v rx first by (intro exI[of _ v]) (simp add: pseq_run)
qed

text \<open>The sidecar while \<open>start\<close> waits, with what the application has sent so far.\<close>

definition listening :: "env \<Rightarrow> app_datagram list \<Rightarrow> world" where
  "listening E ds = (snd (start_listening E MeshProxy))\<lparr>local_sock := map queued ds\<rparr>"

lemma listening_facts:
  "tunnel_transport (listening E ds)" "trace (listening E ds) = []" "local_sock (listening E ds) = map queued ds"
  "peer_of (listening E ds) ip = PeerState" "world_inv (listening E ds)"
  "\<not> is_snapshotting (snapshot_ctrl (listening E ds))"
proof -
  show "world_inv (listening E ds)"
    using start_listening_fresh[of E] by (simp add: listening_def fresh_def world_inv_def)
qed (simp_all add: listening_def start_listening_run peer_of_def, simp_all add: MeshProxy_def SnapshotController_def)

text \<open>What the reader makes of it.\<close>

lemma listening_forwards:
  assumes "is_server (listening E ds)" and "list_all (to_member E) ds" and "list_all plain_datagram (map queued ds)"
    and "int (length ds) \<le> 256 ^ 8"
  obtains v where "handle_local_intercept E [] (listening E ds) = (Inr (), v)" and "forwarded ds (listening E ds) v"
    and "idle v" and "keys_of (unacked (peer_of v q)) = {0..<int (length (filter (\<lambda>d. dgram_ip d = q) ds))}"
proof -
  let ?w = "listening E ds"
  have fit: "seqs_fit ?w (length ds)" using assms(4) by (simp add: seqs_fit_def listening_facts PeerState_def)
  obtain v where run: "pfor (take_forward E) (map queued ds) ?w = (Inr (), v)" and fwd: "forwarded ds ?w v"
    using pfor_take_forward_members[OF assms(2,1) listening_facts(1) fit] by blast
  have "?w\<lparr>local_sock := map queued ds\<rparr> = ?w" by (simp add: listening_def)
  with run have "pfor (take_forward E) (map queued ds) (?w\<lparr>local_sock := map queued ds\<rparr>) = (Inr (), v)" by simp
  then have read: "handle_local_intercept E [] ?w = (Inr (), v)"
    by (intro intercept_drains(1)) (use assms(3) in \<open>simp_all add: listening_facts drain_intercept_pfor\<close>)
  have "world_inv v"
    using preserves_runD[OF handle_local_intercept_inv listening_facts(5) read] .
  then have "idle v" using fwd listening_facts(6)[of E ds] by (simp add: idle_def world_inv_def forwarded_def)
  moreover have "keys_of (unacked (peer_of v q)) = {0..<int (length (filter (\<lambda>d. dgram_ip d = q) ds))}"
    using forwarded_table[OF assms(2,1) listening_facts(1) fit run, of q]
    by (simp add: listening_facts PeerState_def keys_of_def)
  ultimately show ?thesis using that read fwd by blast
qed

subsection \<open>Properties\<close>

text \<open>
  C35: A datagram sent while a restoring sidecar still waits in \<open>start\<close> is lost for good. What
  the application has queued for a member goes out at once, numbered from zero; then the restore
  sets the position of that channel to the recorded one. A receiver that stands at the same cut
  acknowledges every one of these packets and delivers none, and the acknowledgements empty the
  sender's table.
\<close>

theorem interrupted_restore_loses_datagrams:
  assumes "is_server (listening E ds)" and "list_all (to_member E) ds" and "list_all plain_datagram (map queued ds)"
    and "RESTORE_SNAPSHOT_ID E = Some (x # xs)" and "CHECKPOINT_TARGET E = Some (container_id E0)"
    and "\<forall>n. send_ok E n \<and> http_ok E n \<and> http_body E n = snapshot_body sid
      (before @ cut_artifact E0 st i ps send recv ch # rest)"
    and "list_all (other_node (container_id E0)) before" and "finite ps"
    and "\<forall>p\<in>ps. \<forall>m\<in>set (ch p). \<not> starts_with MARKER (m_payload m)"
    and "q \<in> ps" and "send q = Some c" and "int (length ds) \<le> c" and "c \<le> 256 ^ 8"
    and "tunnel_transport r" and "recv_seq (peer_of r sip) = c"
  shows "\<exists>w1 w2 w3 r'. (let mine = filter (\<lambda>d. dgram_ip d = q) ds; sent = frames 0 mine; nums = [0..int (length mine) - 1] in
      handle_local_intercept E [] (listening E ds) = (Inr (), w1) \<and> sent_to q (trace w1) = sent
    \<and> start_serving E w1 = (Inr (), w2) \<and> send_seq (peer_of w2 q) = c
    \<and> pfor (\<lambda>f. datagram_received E' f sip) sent r = (Inr (), r')
    \<and> delivered (trace r') = delivered (trace r) \<and> rx_of r' sip = rx_of r sip
    \<and> tunneled (trace r') = tunneled (trace r) @ map (\<lambda>k. (ack_frame k, sip)) nums
    \<and> pfor (\<lambda>k. datagram_received E (ack_frame k) q) nums w2 = (Inr (), w3)
    \<and> unacked (peer_of w3 q) = [] \<and> send_seq (peer_of w3 q) = c)"
proof -
  let ?mine = "filter (\<lambda>d. dgram_ip d = q) ds"
  let ?nums = "[0..int (length ?mine) - 1]"
  have len: "int (length ?mine) \<le> c" using assms(12) length_filter_le[of _ ds] by (meson of_nat_mono order_trans)
  obtain w1 where w1: "handle_local_intercept E [] (listening E ds) = (Inr (), w1)" "forwarded ds (listening E ds) w1"
    "idle w1" "keys_of (unacked (peer_of w1 q)) = {0..<int (length ?mine)}"
    by (rule listening_forwards[OF assms(1-3), of q]) (use assms(12,13) in linarith)
  have sends: "\<forall>n. send_ok E n" "http_ok E (length (trace w1))" "http_body E (length (trace w1)) = snapshot_body sid
      (before @ cut_artifact E0 st i ps send recv ch # rest)" using assms(6) by simp_all
  obtain w2 where w2: "restore_from_artifact E w1 = (Inr (), w2)"
    "\<forall>p. send_seq (peer_of w2 p) =
          (case if p \<in> ps then send p else None of None \<Rightarrow> send_seq (peer_of w1 p) | Some n \<Rightarrow> n)"
    "\<forall>p. unacked (peer_of w2 p) = unacked (peer_of w1 p)"
    using restore_cut_run[OF w1(3) sends(1,2) assms(4,5) sends(3) assms(7-9)] by blast
  have c: "send_seq (peer_of w2 q) = c" using w2(2) assms(10,11) by simp
  have "list_all (to_member E) ?mine" using assms(2) by (simp add: list_all_iff)
  from stale_frames_dropped[OF this, of 0 r sip E'] obtain r' where
    r: "pfor (\<lambda>f. datagram_received E' f sip) (frames 0 ?mine) r = (Inr (), r')" "rx_of r' = rx_of r"
    "delivered (trace r') = delivered (trace r)"
    "tunneled (trace r') = tunneled (trace r) @ map (\<lambda>k. (ack_frame k, sip)) ?nums"
    using len assms(13-15) by (auto simp: rx_of_def)
  have "\<forall>k\<in>set ?nums. is_uint 8 k" using len assms(13) by (auto simp: is_uint_def)
  then obtain w3 where w3: "pfor (\<lambda>k. datagram_received E (ack_frame k) q) ?nums w2 = (Inr (), w3)"
    "keys_of (unacked (peer_of w3 q)) = keys_of (unacked (peer_of w2 q)) - set ?nums"
    "send_seq (peer_of w3 q) = send_seq (peer_of w2 q)"
    by (rule acks_received)
  have "keys_of (unacked (peer_of w3 q)) = {}" unfolding w3(2) using w1(4) w2(3) by auto
  then have "unacked (peer_of w3 q) = []" by (simp add: keys_of_def)
  moreover have "sent_to q (trace w1) = frames 0 ?mine"
    using w1(2) by (simp add: forwarded_def listening_facts PeerState_def)
  ultimately show ?thesis
    using w1(1) w2(1) c r w3(1,3) unfolding Let_def start_serving_def by fastforce
qed

definition restoring_env :: env where
  "restoring_env = demo_env\<lparr>RESTORE_SNAPSHOT_ID := Some ''s1'', http_body := (\<lambda>_. snapshot_body ''s1''
     [cut_artifact demo_env ''complete'' ''s1'' {''10.24.24.11''} (\<lambda>_. Some 5) (\<lambda>_. Some 9) (\<lambda>_. [])])\<rparr>"

definition demo_resumed :: world where
  "demo_resumed = upd_peer ''10.24.24.10'' (\<lambda>p. p\<lparr>recv_seq := 5\<rparr>) demo_world"

theorem interrupted_restore_loses_datagrams_witness:
  "\<exists>w1 r'. handle_local_intercept restoring_env [] (listening restoring_env [demo_datagram]) = (Inr (), w1)
    \<and> sent_to ''10.24.24.11'' (trace w1) = [data_frame 0 5000 6000 demo_dst ''x'']
    \<and> datagram_received demo_env (data_frame 0 5000 6000 demo_dst ''x'') ''10.24.24.10'' demo_resumed = (Inr (), r')
    \<and> delivered (trace r') = []"
proof -
  have dst: "length demo_dst = 4" "take 3 demo_dst = mesh_prefix"
    by (simp_all add: demo_dst_def mesh_prefix_def)
  have E: "MESH_MEMBERS restoring_env = MESH_MEMBERS demo_env" "MESH_SELF restoring_env = MESH_SELF demo_env"
    by (simp_all add: restoring_env_def)
  have mem: "list_all (to_member restoring_env) [demo_datagram]"
    using dst by (simp add: demo_datagram_def quad_demo is_uint_def E)
  have plain: "list_all plain_datagram (map queued [demo_datagram])"
    by (simp add: demo_datagram_def plain_datagram_def START_def starts_with_def)
  have server: "is_server (listening restoring_env [demo_datagram])"
    by (simp add: listening_def start_listening_run self_ip_of_def E MeshProxy_def SnapshotController_def)
  have env: "RESTORE_SNAPSHOT_ID restoring_env = Some (CHR ''s'' # ''1'')"
    "CHECKPOINT_TARGET restoring_env = Some (container_id demo_env)"
    "\<forall>n. send_ok restoring_env n \<and> http_ok restoring_env n \<and> http_body restoring_env n = snapshot_body ''s1''
      ([] @ cut_artifact demo_env ''complete'' ''s1'' {''10.24.24.11''} (\<lambda>_. Some 5) (\<lambda>_. Some 9) (\<lambda>_. []) # [])"
    by (simp_all add: restoring_env_def container_id_def)
  have r: "tunnel_transport demo_resumed" "recv_seq (peer_of demo_resumed ''10.24.24.10'') = 5" "trace demo_resumed = []"
    by (simp_all add: demo_resumed_def)
  from interrupted_restore_loses_datagrams[OF server mem plain env _ _ _ _ _ _ _ r(1,2),
      where q = "''10.24.24.11''" and E' = demo_env] r(3)
  show ?thesis by (auto simp: Let_def demo_datagram_def quad_demo pseq_run pret_run split: prod.splits sum.splits)
qed

end
