(* ===== verification/Posting.thy ===== *)
theory Posting
  imports Sidecar
begin

text \<open>
  What a sidecar sends to the breakout receiver: every artifact it posts, in whatever state and
  after whatever errors, has the documented shape.
\<close>

definition posts_ok :: "world \<Rightarrow> bool" where
  "posts_ok w \<longleftrightarrow> list_all request_shape (requests (trace w))"

lemma posts_ok_other: "\<forall>req. e \<noteq> HttpReq req \<Longrightarrow> requests [e] = []"
  by (cases e) simp_all

interpretation posts: stable posts_ok
  by unfold_locales (simp_all add: posts_ok_def posts_ok_other del: data_header_pack.simps)

interpretation posts_receiving: receiving posts_ok E for E
  by unfold_locales (simp_all add: posts.process_and_deliver_rule, simp_all add: posts_ok_def)

lemma upd_peer_posts: "preserves posts_ok (pmod (upd_peer ip f))"
  by (rule preserves_pmod) (simp add: posts_ok_def)

lemma retransmit_tick_posts: "preserves posts_ok (retransmit_tick E)"
proof -
  have "preserves posts_ok (retransmit_peers now)" for now
    unfolding retransmit_peers_def retransmit_one_def
    by (intro preserves_intro posts.primitives upd_peer_posts)
  then show ?thesis
    unfolding retransmit_tick_def by (intro preserves_intro posts.check_timeout_rule)
qed

lemma start_posts: "preserves posts_ok (start_serving E)"
  by (rule restore_preserves)
    (auto intro!: posts.process_and_deliver_rule posts.primitives posts.http_call_rule upd_peer_posts
      simp: request_shape_def)

lemma listening_posts: "posts_ok (proxy (sidecar_started E))"
  by (simp add: sidecar_started_def start_listening_run posts_ok_def MeshProxy_def)

lemma event_step_posts:
  assumes "event_step E s t" and "posts_ok (proxy s)"
  shows "posts_ok (proxy t)"
proof -
  have "preserves posts_ok (handle_local_intercept E feed)" for feed
    by (rule posts.handle_local_intercept_rule) (simp add: posts_ok_def)
  then show ?thesis
    by (intro event_step_keeps[where P = posts_ok, OF assms])
      (simp_all add: posts_receiving.datagram_received_rule start_posts retransmit_tick_posts,
       simp_all add: posts_ok_def)
qed

text \<open>
  C12: Every artifact a sidecar posts is well typed. Whatever arrives in whatever order, and
  also after handlers that raised: a posted artifact is an object with exactly the documented
  keys, its snapshot id a non-empty string or null, its status complete or aborted, its peers
  sorted and without repetition, their coordinates integers or null, and every recorded
  message an object of integers, strings and a payload in whole base64 quads.
\<close>

theorem posted_artifacts_are_well_typed:
  assumes "reachable E s" and "PostSnapshotState artifact \<in> set (requests (trace (proxy s)))"
  shows "artifact_shape artifact"
proof -
  from assms(1) have "posts_ok (proxy s)"
    by (induction rule: reachable.induct) (auto intro: listening_posts event_step_posts)
  with assms(2) show ?thesis by (auto simp: posts_ok_def list_all_iff request_shape_def)
qed

definition solo_env :: env where
  "solo_env = demo_env\<lparr>MESH_MEMBERS := [''10.24.24.10'']\<rparr>"

definition solo_start :: intercepted where
  "solo_start = (''__START_SNAPSHOT__:s1'', [], (''10.24.24.10'', 40000))"

definition solo_artifact :: json where
  "solo_artifact = JObj [(''snapshot_id'', JStr ''s1''), (''node'', JStr ''app''),
     (''status'', JStr ''complete''), (''peers'', JObj [])]"

definition solo_waiting :: sidecar where
  "solo_waiting = (sidecar_started solo_env)\<lparr>proxy := snd (start_serving solo_env
     (proxy (sidecar_started solo_env))), serving := True, retransmitting := True\<rparr>"

definition solo_asked :: sidecar where
  "solo_asked = solo_waiting\<lparr>proxy := (proxy solo_waiting)\<lparr>local_sock := local_sock (proxy solo_waiting) @ [solo_start]\<rparr>\<rparr>"

definition solo_run :: sidecar where
  "solo_run = solo_asked\<lparr>proxy := snd (handle_local_intercept solo_env [] (proxy solo_asked)),
     disturbed := disturbed solo_asked \<or> \<not> serving solo_asked\<rparr>"

lemma solo_reachable: "reachable solo_env solo_run"
proof -
  have "event_step solo_env (sidecar_started solo_env) solo_waiting"
    unfolding solo_waiting_def by (rule event_step.Start_resumes) (simp add: sidecar_started_def)
  moreover have "event_step solo_env solo_waiting solo_asked"
    unfolding solo_asked_def by (rule event_step.App_sends)
  moreover have "event_step solo_env solo_asked solo_run"
    unfolding solo_run_def by (rule event_step.Intercept_readable)
  ultimately show ?thesis using reachable.intros by metis
qed

lemma solo_posts: "requests (trace (proxy solo_run)) =
    [PostCheckpoint ''app'' ''/tmp/snapshot-s1-app.tar.zst'', PostSnapshotState solo_artifact]"
  by code_simp

theorem posted_artifacts_are_well_typed_witness: "artifact_shape solo_artifact"
  by (rule posted_artifacts_are_well_typed[OF solo_reachable]) (simp add: solo_posts)

end
