(* ===== verification/Channels.thy ===== *)
theory Channels
  imports Routing Intercept
begin

text \<open>
  A sidecar up to its cut, and the channels between two of them: what it has put on each channel
  when it has sent its markers, from the datagrams of its application, the drain and the numbers
  of its peers; and what the other end makes of these packets when the tunnel hands them over in
  order.
\<close>

subsection \<open>What a sidecar forwards\<close>

text \<open>
  A datagram of the application: members are inside the mesh network, and the payload is neither
  a marker nor a request for a snapshot.
\<close>

fun proper_datagram :: "env \<Rightarrow> app_datagram \<Rightarrow> bool" where
  "proper_datagram E (dst, port, src, sp, data) \<longleftrightarrow>
     length dst = 4 \<and> is_uint 2 port \<and> port \<noteq> 0 \<and> is_uint 2 sp
     \<and> (quad dst \<in> set (MESH_MEMBERS E) \<longrightarrow> take 3 dst = mesh_prefix)
     \<and> \<not> starts_with MARKER data \<and> \<not> starts_with START data"

fun dgram_data :: "app_datagram \<Rightarrow> bytes" where
  "dgram_data (dst, port, src, sp, data) = data"

lemma frames_append: "frames n (a @ b) = frames n a @ frames (n + int (length a)) b"
  by (induction a arbitrary: n) (simp_all add: algebra_simps)

text \<open>The sidecar goes from \<open>w\<close> to \<open>v\<close> and numbers exactly the datagrams \<open>ds\<close> on the members' channels.\<close>

definition flows :: "env \<Rightarrow> app_datagram list \<Rightarrow> world \<Rightarrow> world \<Rightarrow> bool" where
  "flows E ds w v \<longleftrightarrow>
     (\<forall>p\<in>set (MESH_MEMBERS E). let mine = filter (\<lambda>d. dgram_ip d = p) ds in
        sent_to p (trace v) = sent_to p (trace w) @ frames (send_seq (peer_of w p)) mine
        \<and> send_seq (peer_of v p) = send_seq (peer_of w p) + int (length mine))
     \<and> requests (trace v) = requests (trace w) \<and> snapshot_ctrl v = snapshot_ctrl w
     \<and> tunnel_transport v = tunnel_transport w \<and> is_server v = is_server w \<and> base_inv v"

lemma flows_trans:
  assumes "flows E a w u" and "flows E b u v"
  shows "flows E (a @ b) w v"
  using assms by (simp add: flows_def Let_def frames_append)

lemma flows_hands_over:
  "hands_over w v ds \<Longrightarrow> snapshot_ctrl v = snapshot_ctrl w \<Longrightarrow> base_inv w \<Longrightarrow> flows E [] w v"
  by (simp add: flows_def hands_over_def peer_of_def sent_to_def)

text \<open>A sidecar that can number \<open>n\<close> more packets.\<close>

definition ready :: "env \<Rightarrow> world \<Rightarrow> nat \<Rightarrow> bool" where
  "ready E w n \<longleftrightarrow> base_inv w \<and> is_server w \<and> tunnel_transport w \<and> (\<forall>k. send_ok E k)
     \<and> (\<forall>p\<in>set (MESH_MEMBERS E). 0 \<le> send_seq (peer_of w p) \<and> send_seq (peer_of w p) + int n \<le> 256 ^ 8)"

lemma ready_flows:
  assumes "ready E w n" and "flows E ds w v" and "length ds + m \<le> n"
  shows "ready E v m"
proof -
  have "send_seq (peer_of v p) \<le> send_seq (peer_of w p) + int (length ds)" if "p \<in> set (MESH_MEMBERS E)" for p
    using assms(2) that length_filter_le[of "\<lambda>d. dgram_ip d = p" ds] by (simp add: flows_def Let_def)
  moreover have "int (length ds) + int m \<le> int n" using assms(3) by linarith
  ultimately show ?thesis
    using assms(1,2) unfolding ready_def flows_def Let_def by fastforce
qed

lemma forward_proper:
  assumes d: "proper_datagram E d" and w: "ready E w (Suc n)"
  shows "\<exists>v. take_forward E (queued d) w = (Inr (), v) \<and> flows E [d] w v"
proof -
  obtain dst port src sp data where x: "d = (dst, port, src, sp, data)" by (cases d)
  have dst: "length dst = 4" "is_uint 2 port" "port \<noteq> 0" "is_uint 2 sp" using d by (simp_all add: x)
  let ?w = "w\<lparr>local_sock := tl (local_sock w)\<rparr>"
  have base: "base_inv ?w" using w by (simp add: ready_def)
  have run: "take_forward E (queued d) w = forward_to E data (src, sp) (quad dst) port ?w"
    using forward_intercepted_to[OF dst(1-3)] by (simp add: x take_forward_def pseq_pmod)
  consider (out) "take 3 dst \<noteq> mesh_prefix" | (plain) "take 3 dst = mesh_prefix" "quad dst \<notin> set (MESH_MEMBERS E)"
    | (member) "quad dst \<in> set (MESH_MEMBERS E)" by blast
  then show ?thesis
  proof cases
    case out
    have "\<forall>k. send_ok E k" using w by (simp add: ready_def)
    then obtain v where v: "spoof_deliver E data src sp port (quad dst) ?w = (Inr (), v)"
      "hands_over ?w v [(data, quad dst, port)]" "snapshot_ctrl v = snapshot_ctrl ?w"
      by (rule spoof_deliver_run[OF base])
    have "quad dst \<notin> set (MESH_MEMBERS E)" using d out by (auto simp: x)
    then have "flows E [d] ?w v"
      using flows_hands_over[OF v(2,3) base, of E] by (auto simp: flows_def Let_def x)
    then have "flows E [d] w v" by (simp add: flows_def)
    with v(1) show ?thesis by (simp add: run forward_outside[OF dst(1) out])
  next
    case plain
    have "\<not> use_rudp E ?w (quad dst)" using plain by (simp add: use_rudp_def)
    moreover have "data_header_ok (2, 0, snd (src, sp), port, dst)" using dst by (simp add: is_uint_def)
    ultimately have "take_forward E (queued d) w = (Inr (), emit (TunnelSend (plain_frame sp port dst data) (quad dst)) ?w)"
      using forward_non_member[OF dst(1) plain(1), of E ?w "(src, sp)" port data] w by (simp add: run ready_def)
    moreover have "flows E [d] w (emit (TunnelSend (plain_frame sp port dst data) (quad dst)) ?w)"
      using plain(2) base by (auto simp: flows_def Let_def x)
    ultimately show ?thesis by blast
  next
    case member
    then have mesh: "take 3 dst = mesh_prefix" using d by (simp add: x)
    let ?n = "send_seq (peer_of w (quad dst))"
    let ?v = "sent_data (quad dst) (data_frame ?n sp port dst data) (ensured (quad dst) ?w)"
    have n: "is_uint 8 ?n"
    proof -
      have "0 \<le> ?n \<and> ?n + int (Suc n) \<le> 256 ^ 8" using w member unfolding ready_def by blast
      then show ?thesis unfolding is_uint_def by linarith
    qed
    have rudp: "use_rudp E ?w (quad dst)" using member w by (simp add: use_rudp_def ready_def)
    have ok: "data_header_ok (0, send_seq (peer_of ?w (quad dst)), snd (src, sp), port, dst)"
      using dst n by (simp add: is_uint_def)
    have go: "take_forward E (queued d) w = (Inr (), ?v)"
      using forward_member[OF dst(1) mesh rudp _ ok, of data] w by (simp add: run ready_def)
    have "preserves (frame (snapshot_ctrl w) (still w)) (take_forward E (queued d))"
      unfolding take_forward_def by (intro preserves_intro) (auto intro!: preserves_pmod simp: frame_def)
    from preserves_runD[OF this frameI go] have "base_inv ?v" using w by (simp add: ready_def frame_def)
    then have "flows E [d] w ?v" by (auto simp: flows_def Let_def x)
    with go show ?thesis by blast
  qed
qed

lemma pfor_forward_proper:
  assumes "list_all (proper_datagram E) ds" and "ready E w (length ds + n)"
  shows "\<exists>v. pfor (take_forward E) (map queued ds) w = (Inr (), v) \<and> flows E ds w v"
  using assms
proof (induction ds arbitrary: w)
  case Nil
  then show ?case by (simp add: pret_run flows_def Let_def ready_def)
next
  case (Cons d ds)
  have d: "proper_datagram E d" and ready: "ready E w (Suc (length ds + n))" using Cons.prems by simp_all
  obtain u where u: "take_forward E (queued d) w = (Inr (), u)" "flows E [d] w u"
    using forward_proper[OF d ready] by blast
  have "ready E u (length ds + n)" by (rule ready_flows[OF ready u(2)]) simp
  then obtain v where "pfor (take_forward E) (map queued ds) u = (Inr (), v)" "flows E ds u v"
    using Cons.IH[of u] Cons.prems by auto
  then show ?case using u flows_trans[OF u(2)] by (intro exI[of _ v]) (simp add: pseq_run)
qed

subsection \<open>A sidecar and its cut\<close>

text \<open>
  What happens to a sidecar before the cut: its application sends a batch and the reader runs,
  or the tunnel hands over a packet of a peer.
\<close>

datatype sidecar_op = From_app "app_datagram list" | From_peer arrival

fun run_op :: "env \<Rightarrow> sidecar_op \<Rightarrow> unit act" where
  "run_op E (From_app ds) =
     pseq (pmod (\<lambda>w. w\<lparr>local_sock := local_sock w @ map queued ds\<rparr>)) (handle_local_intercept E [])"
| "run_op E (From_peer x) = arrive E x"

fun op_sends :: "sidecar_op \<Rightarrow> app_datagram list" where
  "op_sends (From_app ds) = ds"
| "op_sends (From_peer x) = []"

fun op_gets :: "sidecar_op \<Rightarrow> arrival list" where
  "op_gets (From_app ds) = []"
| "op_gets (From_peer x) = [x]"

definition sends :: "sidecar_op list \<Rightarrow> app_datagram list" where "sends ops = concat (map op_sends ops)"
definition gets :: "sidecar_op list \<Rightarrow> arrival list" where "gets ops = concat (map op_gets ops)"

fun proper_op :: "env \<Rightarrow> sidecar_op \<Rightarrow> bool" where
  "proper_op E (From_app ds) \<longleftrightarrow> list_all (proper_datagram E) ds"
| "proper_op E (From_peer x) \<longleftrightarrow> \<not> is_marker x"

lemma proper_ops:
  "list_all (proper_op E) ops \<Longrightarrow> list_all (proper_datagram E) (sends ops) \<and> list_all (\<lambda>x. \<not> is_marker x) (gets ops)"
proof (induction ops)
  case (Cons op ops)
  then show ?case by (cases op) (simp_all add: sends_def gets_def)
qed (simp add: sends_def gets_def)

definition quiet :: "env \<Rightarrow> world \<Rightarrow> nat \<Rightarrow> bool" where
  "quiet E w n \<longleftrightarrow> ready E w n \<and> \<not> is_snapshotting (snapshot_ctrl w) \<and> local_sock w = []"

lemma run_op_flows:
  assumes op: "proper_op E op" and w: "quiet E w (length (op_sends op) + n)"
  shows "\<exists>v. run_op E op w = (Inr (), v) \<and> flows E (op_sends op) w v \<and> quiet E v n"
proof (cases op)
  case (From_app ds)
  let ?w = "w\<lparr>local_sock := map queued ds\<rparr>"
  have "ready E ?w (length ds + n)" using w by (simp add: From_app quiet_def ready_def)
  then obtain v where v: "pfor (take_forward E) (map queued ds) ?w = (Inr (), v)" "flows E ds ?w v"
    using pfor_forward_proper[of E ds ?w n] op by (auto simp: From_app)
  have plain: "list_all plain_datagram (map queued ds)"
    using op by (auto simp: From_app list_all_iff plain_datagram_def)
  have drain: "drain_intercept E ?w = (Inr (), v)" using v(1) by (simp add: drain_intercept_pfor)
  then have "handle_local_intercept E [] ?w = (Inr (), v)"
    by (intro intercept_drains(1)) (use plain in simp_all)
  then have "run_op E op w = (Inr (), v)" using w by (simp add: From_app quiet_def pseq_pmod)
  moreover have f: "flows E ds w v" using v(2) by (simp add: flows_def)
  moreover have "ready E v n"
    by (rule ready_flows[OF _ f, of "length ds + n"]) (use w in \<open>simp_all add: From_app quiet_def\<close>)
  moreover have "snapshot_ctrl v = snapshot_ctrl w" using f by (simp add: flows_def)
  ultimately show ?thesis
    using w drain_intercept_empties[OF drain] by (simp add: From_app quiet_def)
next
  case (From_peer x)
  have w': "base_inv w" "\<forall>k. send_ok E k" "\<not> is_snapshotting (snapshot_ctrl w)"
    using w by (simp_all add: From_peer quiet_def ready_def)
  obtain v where v: "spoof_deliver E (a_payload x) (a_ip x) (a_src_port x) (a_dst_port x) (a_local_ip x) w = (Inr (), v)"
    "hands_over w v [(a_payload x, a_local_ip x, a_dst_port x)]" "snapshot_ctrl v = snapshot_ctrl w"
    by (rule spoof_deliver_run[OF w'(1,2)])
  have "run_op E op w = (Inr (), v)"
    using v(1) op w'(3)
    by (simp add: From_peer arrive_def process_and_deliver_run process_message_pass is_marker_def)
  moreover have f: "flows E [] w v" by (rule flows_hands_over[OF v(2,3) w'(1)])
  moreover have "ready E v n" by (rule ready_flows[OF _ f, of n]) (use w in \<open>simp_all add: From_peer quiet_def\<close>)
  ultimately show ?thesis using w v(2,3) by (simp add: From_peer quiet_def hands_over_def)
qed

lemma run_ops_flow:
  assumes "list_all (proper_op E) ops" and "quiet E w (length (sends ops) + n)"
  shows "\<exists>v. pfor (run_op E) ops w = (Inr (), v) \<and> flows E (sends ops) w v \<and> quiet E v n"
  using assms
proof (induction ops arbitrary: w)
  case Nil
  then show ?case by (simp add: pret_run flows_def Let_def quiet_def ready_def sends_def)
next
  case (Cons op ops)
  have len: "length (sends (op # ops)) + n = length (op_sends op) + (length (sends ops) + n)"
    by (simp add: sends_def)
  obtain u where u: "run_op E op w = (Inr (), u)" "flows E (op_sends op) w u" "quiet E u (length (sends ops) + n)"
    using run_op_flows[of E op w "length (sends ops) + n"] Cons.prems unfolding len by auto
  obtain v where v: "pfor (run_op E) ops u = (Inr (), v)" "flows E (sends ops) u v" "quiet E v n"
    using Cons.IH[OF _ u(3)] Cons.prems by auto
  have "sends (op # ops) = op_sends op @ sends ops" by (simp add: sends_def)
  then show ?case using u v flows_trans[OF u(2) v(2)] by (intro exI[of _ v]) (simp add: pseq_run)
qed

text \<open>
  One sidecar in one snapshot: the host, a state in which it is idle, what happened from there to
  the cut, what its application has sent since then and waits in the intercept socket, the first
  marker, what arrives after it, and the last marker.
\<close>

record cut_side =
  sidecar_env :: env
  start_world :: world
  history :: "sidecar_op list"
  pending :: "app_datagram list"
  opener :: arrival
  inside :: "arrival list"
  closer :: arrival

definition first_world :: "'a cut_side_scheme \<Rightarrow> world" where
  "first_world c = (snd (pfor (run_op (sidecar_env c)) (history c) (start_world c)))
     \<lparr>local_sock := map queued (pending c)\<rparr>"

definition drained_world :: "bytes \<Rightarrow> 'a cut_side_scheme \<Rightarrow> world" where
  "drained_world i c =
     snd (drain_intercept (sidecar_env c) (recording_started (sidecar_env c) i (a_ip (opener c)) (first_world c)))"

definition opened_world :: "'a cut_side_scheme \<Rightarrow> world" where
  "opened_world c = snd (arrive (sidecar_env c) (opener c) (first_world c))"

text \<open>What the application has sent before the cut, and what arrived in the snapshot.\<close>

definition sent_before :: "'a cut_side_scheme \<Rightarrow> app_datagram list" where
  "sent_before c = sends (history c) @ pending c"

definition cut_window :: "'a cut_side_scheme \<Rightarrow> arrival list" where
  "cut_window c = opener c # inside c @ [closer c]"

definition sidecar_cut :: "bytes \<Rightarrow> string set \<Rightarrow> 'a cut_side_scheme \<Rightarrow> bool" where
  "sidecar_cut i rest c \<longleftrightarrow>
     world_inv (start_world c) \<and> quiet (sidecar_env c) (start_world c) (Suc (length (sent_before c)))
     \<and> distinct (MESH_MEMBERS (sidecar_env c)) \<and> (\<forall>xs. set (set_iter (sidecar_env c) xs) = set xs)
     \<and> list_all (proper_op (sidecar_env c)) (history c) \<and> list_all (proper_datagram (sidecar_env c)) (pending c)
     \<and> closes i (opener c) \<and> closes i (closer c) \<and> list_all readable (inside c)
     \<and> set (others (sidecar_env c) (start_world c)) = rest
     \<and> rest - {a_ip (opener c)} - closed i (inside c) = {a_ip (closer c)}"

lemma sidecar_cut_drains:
  assumes "sidecar_cut i rest c"
  shows "pfor (run_op (sidecar_env c)) (history c) (start_world c)
      = (Inr (), snd (pfor (run_op (sidecar_env c)) (history c) (start_world c)))"
    and "drain_intercept (sidecar_env c) (recording_started (sidecar_env c) i (a_ip (opener c)) (first_world c))
      = (Inr (), drained_world i c)"
    and "healthy (sidecar_env c) (first_world c) (drained_world i c)"
    and "others (sidecar_env c) (first_world c) = others (sidecar_env c) (start_world c)"
    and "q \<in> rest \<Longrightarrow> (let mine = filter (\<lambda>d. dgram_ip d = q) (sent_before c) in
      sent_to q (trace (drained_world i c)) = sent_to q (trace (start_world c)) @ frames (send_seq (peer_of (start_world c) q)) mine
      \<and> send_seq (peer_of (drained_world i c) q) = send_seq (peer_of (start_world c) q) + int (length mine))"
    and "requests (trace (drained_world i c)) = requests (trace (start_world c))"
proof -
  let ?E = "sidecar_env c" and ?w = "start_world c" and ?ip = "a_ip (opener c)"
  have len: "Suc (length (sent_before c)) = length (sends (history c)) + (length (pending c) + 1)"
    by (simp add: sent_before_def)
  obtain u where u: "pfor (run_op ?E) (history c) ?w = (Inr (), u)" "flows ?E (sends (history c)) ?w u"
    "quiet ?E u (length (pending c) + 1)"
    using run_ops_flow[of ?E "history c" ?w "length (pending c) + 1"] assms unfolding sidecar_cut_def len by blast
  then show "pfor (run_op ?E) (history c) ?w = (Inr (), snd (pfor (run_op ?E) (history c) ?w))" by simp
  have first: "first_world c = u\<lparr>local_sock := map queued (pending c)\<rparr>" using u(1) by (simp add: first_world_def)
  let ?r = "recording_started ?E i ?ip (first_world c)"
  have ready: "ready ?E ?r (length (pending c) + 1)"
    using u(3) by (simp add: first quiet_def ready_def recording_started_def)
  obtain v where v: "pfor (take_forward ?E) (map queued (pending c)) ?r = (Inr (), v)" "flows ?E (pending c) ?r v"
    using pfor_forward_proper[OF _ ready] assms by (auto simp: sidecar_cut_def)
  have "local_sock ?r = map queued (pending c)" by (simp add: first recording_started_def)
  with v(1) show drain: "drain_intercept ?E ?r = (Inr (), drained_world i c)"
    by (simp add: drained_world_def drain_intercept_pfor)
  with v(1) have d: "drained_world i c = v" by (simp add: drained_world_def drain_intercept_pfor \<open>local_sock ?r = _\<close>)
  have ctrl: "snapshot_ctrl (first_world c) = snapshot_ctrl ?w" using u(2) by (simp add: first flows_def)
  then show o: "others ?E (first_world c) = others ?E ?w" by (simp add: others_def)
  have both: "let mine = filter (\<lambda>d. dgram_ip d = q) (sent_before c) in
      sent_to q (trace v) = sent_to q (trace ?w) @ frames (send_seq (peer_of ?w q)) mine
      \<and> send_seq (peer_of v q) = send_seq (peer_of ?w q) + int (length mine)" if "q \<in> set (MESH_MEMBERS ?E)" for q
    using u(2) v(2) that
    by (simp add: flows_def Let_def sent_before_def first recording_started_def frames_append)
  have mem: "q \<in> set (MESH_MEMBERS ?E)" if "q \<in> set (others ?E ?w)" for q using that by (simp add: others_def)
  show "let mine = filter (\<lambda>d. dgram_ip d = q) (sent_before c) in
      sent_to q (trace (drained_world i c)) = sent_to q (trace ?w) @ frames (send_seq (peer_of ?w q)) mine
      \<and> send_seq (peer_of (drained_world i c) q) = send_seq (peer_of ?w q) + int (length mine)" if "q \<in> rest"
    using both mem that assms unfolding d sidecar_cut_def by blast
  show "requests (trace (drained_world i c)) = requests (trace ?w)"
    using u(2) v(2) by (simp add: d flows_def first recording_started_def)
  have "ready ?E v 1" by (rule ready_flows[OF ready v(2)]) simp
  then have "is_uint 8 (send_seq (peer_of v q))" if "q \<in> set (MESH_MEMBERS ?E)" for q
    using that by (auto simp: ready_def is_uint_def)
  then have "\<forall>q\<in>set (others ?E (first_world c)). is_uint 8 (send_seq (peer_of v q))" using mem o by simp
  moreover have "world_inv (first_world c)" "\<not> is_snapshotting (snapshot_ctrl (first_world c))"
    "tunnel_transport (first_world c)" "\<forall>k. send_ok ?E k"
    using assms u(3) ctrl by (simp_all add: sidecar_cut_def quiet_def ready_def world_inv_def first)
  ultimately show "healthy ?E (first_world c) (drained_world i c)"
    using assms unfolding healthy_def d sidecar_cut_def by blast
qed

text \<open>The cut itself: the markers follow the drain, with the next number of each channel.\<close>

lemma sidecar_cut_opens:
  assumes "sidecar_cut i rest c" and "utf8_valid i"
  shows "arrive (sidecar_env c) (opener c) (first_world c) = (Inr (), opened_world c)"
    and "opened (sidecar_env c) i (a_ip (opener c)) (a_seq (opener c)) (others (sidecar_env c) (start_world c))
      (drained_world i c) (opened_world c)"
proof -
  let ?E = "sidecar_env c" and ?x = "opener c"
  note d = sidecar_cut_drains[OF assms(1)]
  have "set (others ?E (first_world c)) - {a_ip ?x} \<noteq> {}"
    using assms(1) d(4) by (auto simp: sidecar_cut_def)
  from first_marker_run[OF d(3) assms(2) d(2) this, of "a_seq ?x" "a_src_port ?x" "a_dst_port ?x" "a_local_ip ?x"]
  obtain u where "process_message ?E (a_ip ?x) (a_seq ?x) (MARKER @ i) (a_src_port ?x) (a_dst_port ?x)
      (a_local_ip ?x) (first_world c) = (Inr True, u)"
    and o: "opened ?E i (a_ip ?x) (a_seq ?x) (others ?E (first_world c)) (drained_world i c) u" by blast
  then have run: "arrive ?E ?x (first_world c) = (Inr (), u)"
    using assms(1) by (simp add: arrive_def sidecar_cut_def closes_def process_and_deliver_run)
  then show "arrive ?E ?x (first_world c) = (Inr (), opened_world c)" by (simp add: opened_world_def)
  from run o show "opened ?E i (a_ip ?x) (a_seq ?x) (others ?E (start_world c)) (drained_world i c) (opened_world c)"
    by (simp add: opened_world_def d(4))
qed

subsection \<open>A channel\<close>

text \<open>What the sidecar has put on the channel to a peer from the start to its markers.\<close>

definition channel_sent :: "string \<Rightarrow> 'a cut_side_scheme \<Rightarrow> bytes list" where
  "channel_sent q c = drop (length (sent_to q (trace (start_world c)))) (sent_to q (trace (opened_world c)))"

lemma channel_sent_run:
  assumes c: "sidecar_cut i rest c" and i: "utf8_valid i" and q: "q \<in> rest"
  defines "mine \<equiv> filter (\<lambda>d. dgram_ip d = q) (sent_before c)" and "n \<equiv> send_seq (peer_of (start_world c) q)"
  shows "channel_sent q c = frames n mine @ [data_frame (n + int (length mine)) 0 0 ZERO_IP (MARKER @ i)]"
proof -
  let ?v = "drained_world i c" and ?ms = "others (sidecar_env c) (start_world c)"
  have v: "sent_to q (trace ?v) = sent_to q (trace (start_world c)) @ frames n mine"
    "send_seq (peer_of ?v q) = n + int (length mine)"
    using sidecar_cut_drains(5)[OF c q] by (simp_all add: Let_def mine_def n_def)
  have "q \<in> set ?ms" "distinct ?ms" using c q by (auto simp: sidecar_cut_def others_def)
  then have "sent_to q (trace (opened_world c)) = sent_to q (trace ?v) @ [marker_frame ?v (MARKER @ i) q]"
    using sidecar_cut_opens(2)[OF c i] by (simp add: opened_def Let_def sent_to_sends)
  then show ?thesis by (simp add: channel_sent_def v marker_frame_def data_frame_def del: data_header.simps)
qed

text \<open>What the receiving tunnel makes of a data packet of the peer \<open>p\<close>.\<close>

definition read_frame :: "string \<Rightarrow> bytes \<Rightarrow> arrival option" where
  "read_frame p f =
     (case data_header_unpack (take DATA_HEADER_size f) of Inl e \<Rightarrow> None
      | Inr (ty, seq, sp, dp, t) \<Rightarrow>
          if ty \<noteq> 0 then None
          else Some (to_arrival p (seq, drop DATA_HEADER_size f, sp, dp, quad t)))"

text \<open>
  The packets of \<open>p\<close> that arrived at \<open>q\<close>, before its cut and in the snapshot, are those of the
  channel, in order, from the start on: as far as its cut what \<open>p\<close> sent until then, and after
  that whatever it sent later.
\<close>

definition channel_arrivals :: "string \<Rightarrow> 'a cut_side_scheme \<Rightarrow> arrival list" where
  "channel_arrivals p c = filter (\<lambda>x. a_ip x = p) (gets (history c) @ cut_window c)"

definition channel_delivers :: "string \<Rightarrow> string \<Rightarrow> 'a cut_side_scheme \<Rightarrow> 'a cut_side_scheme \<Rightarrow> bytes list \<Rightarrow> bool" where
  "channel_delivers p q cp cq later \<longleftrightarrow>
     map Some (channel_arrivals p cq)
       = map (read_frame p) (take (length (channel_arrivals p cq)) (channel_sent q cp @ later))"

lemma read_frame_data:
  assumes "is_uint 8 n" "is_uint 2 sp" "is_uint 2 dp" "length t = 4"
  shows "read_frame p (data_frame n sp dp t payload) = Some (to_arrival p (n, payload, sp, dp, quad t))"
proof -
  have "data_header_ok (0, n, sp, dp, t)" using assms by (simp add: is_uint_def)
  from data_header_split[OF this, of payload] show ?thesis
    by (simp add: read_frame_def data_frame_def del: data_header.simps)
qed

lemma read_frame_payload: "read_frame p f = Some x \<Longrightarrow> a_payload x = drop DATA_HEADER_size f"
  by (auto simp: read_frame_def to_arrival_def split: sum.splits prod.splits if_splits)

lemma channel_delivers_payloads:
  assumes "channel_delivers p q cp cq later"
  shows "map a_payload (channel_arrivals p cq)
    = take (length (channel_arrivals p cq)) (map (drop DATA_HEADER_size) (channel_sent q cp @ later))"
proof -
  have "map a_payload xs = map (drop DATA_HEADER_size) fs" if "map Some xs = map (read_frame p) fs" for xs fs
    using that by (induction xs arbitrary: fs) (auto simp: Cons_eq_map_conv dest!: sym[of "Some _"] read_frame_payload)
  then show ?thesis using assms unfolding channel_delivers_def take_map by blast
qed

lemma data_frame_payload:
  assumes "is_uint 8 n" "is_uint 2 sp" "is_uint 2 dp" "length t = 4"
  shows "drop DATA_HEADER_size (data_frame n sp dp t payload) = payload"
proof -
  have "data_header_ok (0, n, sp, dp, t)" using assms by (simp add: is_uint_def)
  from data_header_split(3)[OF this] show ?thesis by (simp add: data_frame_def del: data_header.simps)
qed

lemma frames_payloads:
  assumes "list_all (proper_datagram E) ds" and "0 \<le> n" and "n + int (length ds) \<le> 256 ^ 8"
  shows "map (drop DATA_HEADER_size) (frames n ds) = map dgram_data ds"
  using assms
proof (induction ds arbitrary: n)
  case (Cons d ds)
  obtain dst port src sp data where d: "d = (dst, port, src, sp, data)" by (cases d)
  have "drop DATA_HEADER_size (dgram_frame n d) = dgram_data d"
    unfolding d dgram_frame.simps dgram_data.simps
    by (rule data_frame_payload) (use Cons.prems in \<open>auto simp: d is_uint_def\<close>)
  with Cons show ?case by simp
qed simp

lemma takeWhile_prefix:
  assumes "ps = take L (ds @ m # tail)" and "m \<in> set ps" and "m \<notin> set ds"
  shows "takeWhile (\<lambda>x. x \<noteq> m) ps = ds"
proof -
  have L: "length ds < L"
  proof (rule ccontr)
    assume "\<not> length ds < L"
    then have "ps = take L ds" using assms(1) by simp
    with assms(2,3) show False by (auto dest: in_set_takeD)
  qed
  then obtain k where "L - length ds = Suc k" by (metis Suc_diff_Suc)
  then have "ps = ds @ m # take k tail" using assms(1) L by simp
  moreover have "takeWhile (\<lambda>x. x \<noteq> m) (ds @ m # take k tail) = ds"
    using assms(3) by (subst takeWhile_append2) auto
  ultimately show ?thesis by simp
qed

text \<open>
  What \<open>p\<close>'s application sent to \<open>q\<close> before \<open>p\<close>'s cut is what arrived from \<open>p\<close> before \<open>q\<close>'s
  cut together with what \<open>q\<close> recorded of the channel.
\<close>

lemma channel_split:
  assumes cp: "sidecar_cut i rp cp" and cq: "sidecar_cut i rq cq" and i: "utf8_valid i"
    and q: "q \<in> rp" and p: "p \<in> rq" and ch: "channel_delivers p q cp cq later"
  shows "map dgram_data (filter (\<lambda>d. dgram_ip d = q) (sent_before cp))
    = map a_payload (filter (\<lambda>x. a_ip x = p) (gets (history cq))) @ map m_payload (channel_part i p (cut_window cq))"
proof -
  let ?mine = "filter (\<lambda>d. dgram_ip d = q) (sent_before cp)" and ?n = "send_seq (peer_of (start_world cp) q)"
  let ?e = "filter (\<lambda>x. a_ip x = p) (gets (history cq))" and ?w = "filter (\<lambda>x. a_ip x = p) (cut_window cq)"
  let ?m = "MARKER @ i" and ?E = "sidecar_env cp"
  have proper: "list_all (proper_datagram ?E) (sent_before cp)"
    using cp proper_ops by (simp add: sidecar_cut_def sent_before_def)
  then have mine: "list_all (proper_datagram ?E) ?mine" by (auto simp: list_all_iff)
  have "q \<in> set (MESH_MEMBERS ?E)" using cp q by (auto simp: sidecar_cut_def others_def)
  then have n: "0 \<le> ?n \<and> ?n + int (Suc (length (sent_before cp))) \<le> 256 ^ 8"
    using cp unfolding sidecar_cut_def quiet_def ready_def by blast
  have len: "length ?mine \<le> length (sent_before cp)" by simp
  have pay: "map (drop DATA_HEADER_size) (channel_sent q cp @ later)
      = map dgram_data ?mine @ ?m # map (drop DATA_HEADER_size) later"
  proof -
    have "map (drop DATA_HEADER_size) (frames ?n ?mine) = map dgram_data ?mine"
      by (rule frames_payloads[OF mine]) (use n len in linarith)+
    moreover have "drop DATA_HEADER_size (data_frame (?n + int (length ?mine)) 0 0 ZERO_IP ?m) = ?m"
    proof (rule data_frame_payload)
      have "int (length ?mine) \<le> int (length (sent_before cp))" by simp
      with n show "is_uint 8 (?n + int (length ?mine))" unfolding is_uint_def by linarith
    qed (simp_all add: is_uint_def)
    ultimately show ?thesis by (simp add: channel_sent_run[OF cp i q])
  qed
  have no: "\<not> starts_with MARKER y" if "y \<in> set (map dgram_data ?mine)" for y
    using that mine by (auto simp: list_all_iff)
  then have notin: "?m \<notin> set (map dgram_data ?mine)" by (metis starts_with_append)
  have "p = a_ip (opener cq) \<or> p \<in> closed i (inside cq) \<or> p = a_ip (closer cq)"
    using cq p unfolding sidecar_cut_def by blast
  then obtain x where "x \<in> set (cut_window cq)" "a_ip x = p" "closes i x"
    using cq by (auto simp: sidecar_cut_def closed_def cut_window_def)
  then have "x \<in> set (channel_arrivals p cq)" "a_payload x = ?m"
    by (simp_all add: channel_arrivals_def closes_def)
  then have "?m \<in> set (map a_payload (channel_arrivals p cq))" by (metis image_eqI set_map)
  from takeWhile_prefix[OF channel_delivers_payloads[OF ch, unfolded pay] this notin]
  have tw: "map dgram_data ?mine = map a_payload (takeWhile (\<lambda>x. \<not> closes i x) (?e @ ?w))"
    by (simp add: takeWhile_map channel_arrivals_def closes_def comp_def del: map_append)
  have early: "\<not> is_marker x" if "x \<in> set (gets (history cq))" for x
    using cq that proper_ops[of "sidecar_env cq" "history cq"] by (simp add: sidecar_cut_def list_all_iff)
  then have "\<forall>x\<in>set ?e. \<not> closes i x" by (auto dest: closes_marker)
  then have split: "takeWhile (\<lambda>x. \<not> closes i x) (?e @ ?w) = ?e @ takeWhile (\<lambda>x. \<not> closes i x) ?w"
    by (subst takeWhile_append2) auto
  have "\<not> is_marker x" if "x \<in> set (takeWhile (\<lambda>x. \<not> closes i x) ?w)" for x
  proof -
    have "a_payload x \<in> set (map dgram_data ?mine)" unfolding tw split using that by simp
    from no[OF this] show ?thesis by (simp add: is_marker_def)
  qed
  then have "filter (\<lambda>x. \<not> is_marker x) (takeWhile (\<lambda>x. \<not> closes i x) ?w) = takeWhile (\<lambda>x. \<not> closes i x) ?w"
    by simp
  then show ?thesis unfolding tw split by (simp add: channel_part_def to_msg_def comp_def)
qed

end
