(* ===== verification/Bank.thy ===== *)
theory Bank
  imports Counter
begin

text \<open>
  The counters of the demo application are money: a TRANSFER debits one node and sends a CREDIT
  to another. What a datagram is worth, what a node does to the sum of its counter and the
  datagrams it sends, and the invariance of the total under every interleaving of a network.
\<close>

subsection \<open>What a datagram is worth\<close>

text \<open>The amount a node adds to its counter when it receives the datagram.\<close>

definition worth :: "bytes \<Rightarrow> int" where
  "worth d =
     (case decode (take BUF d) of Inl e \<Rightarrow> 0
      | Inr buf \<Rightarrow>
          (let parts = split_ws buf in
           if starts_with ''CREDIT '' buf \<and> 4 \<le> length parts then
             (case parse_int (parts ! 3) of Inl e \<Rightarrow> 0 | Inr amount \<Rightarrow> amount)
           else 0))"

text \<open>
  A request that moves money: neither a RESET, which creates it, nor a TRANSFER to a port that
  \<open>sendto\<close> refuses, which burns it.
\<close>

definition sound_request :: "bytes \<Rightarrow> bool" where
  "sound_request d =
     (case decode (take BUF d) of Inl e \<Rightarrow> True
      | Inr buf \<Rightarrow>
          \<not> starts_with ''RESET '' buf
          \<and> (let parts = split_ws buf in
             \<not> (starts_with ''TRANSFER '' buf \<and> 5 \<le> length parts)
             \<or> (case parse_int (parts ! 3) of Inl e \<Rightarrow> False | Inr p \<Rightarrow> valid_port p)))"

lemma take_BUF_Cons: "take BUF (c # d) = c # take 511 d"
  by (simp add: BUF_def)

lemma starts_with_hd: "starts_with (c # p) (x # s) \<Longrightarrow> x = c"
  by (simp add: starts_with_def)

lemma worthless: "c \<noteq> CHR ''C'' \<Longrightarrow> worth (c # d) = 0"
  using starts_with_hd[of "CHR ''C''" "''REDIT ''" c "take 511 d"]
  by (auto simp: worth_def take_BUF_Cons decode_def Let_def simp del: utf8_valid.simps(2))

lemma sound_other: "c \<noteq> CHR ''R'' \<Longrightarrow> c \<noteq> CHR ''T'' \<Longrightarrow> sound_request (c # d)"
  using starts_with_hd[of "CHR ''R''" "''ESET ''" c "take 511 d"]
    starts_with_hd[of "CHR ''T''" "''RANSFER ''" c "take 511 d"]
  by (auto simp: sound_request_def take_BUF_Cons decode_def Let_def simp del: utf8_valid.simps(2))

text \<open>A well-named node: its credit messages fit into a datagram and split back into words.\<close>

definition good_name :: "string \<Rightarrow> bool" where
  "good_name n \<longleftrightarrow> token n \<and> length n \<le> 5 \<and> utf8_valid n"

subsection \<open>A credit message is read back\<close>

lemma show_nat_length: "0 < k \<Longrightarrow> n < 10 ^ k \<Longrightarrow> length (show_nat n) \<le> k"
proof (induction n arbitrary: k rule: show_nat.induct)
  case (1 n)
  show ?case
  proof (cases "n < 10")
    case True
    with 1(2) show ?thesis by (subst show_nat.simps) simp
  next
    case False
    with 1(2,3) obtain j where k: "k = Suc j" "0 < j" by (cases k; cases "k - 1") auto
    with 1(3) have "n div 10 < 10 ^ j" by (simp add: less_mult_imp_div_less mult.commute)
    with 1(1)[OF False, of j] k have "length (show_nat (n div 10)) \<le> j" by simp
    with False k show ?thesis by (subst show_nat.simps) simp
  qed
qed

lemma read_digits_bound: "read_digits acc s = Some n \<Longrightarrow> n < (acc + 1) * 10 ^ length s"
proof (induction s arbitrary: acc)
  case (Cons c s)
  then obtain d where d: "char_digit c = Some d" and r: "read_digits (10 * acc + d) s = Some n"
    by (auto split: option.splits)
  from d have "d < 10" by (auto simp: char_digit_def Let_def split: if_splits)
  then have "(10 * acc + d + 1) * 10 ^ length s \<le> (10 * (acc + 1)) * 10 ^ length s"
    by (intro mult_right_mono) simp_all
  with Cons.IH[OF r] have "n < (10 * (acc + 1)) * 10 ^ length s" by (rule less_le_trans)
  then show ?case by (simp add: algebra_simps)
qed simp

lemma length_concat_split_on: "length (concat (split_on c s)) \<le> length s"
proof (induction s)
  case (Cons x s)
  then show ?case by (cases "split_on c s") auto
qed simp

lemma parse_digits_length:
  assumes "parse_digits s = Some n"
  shows "length (show_nat (nat n)) \<le> length s" and "0 \<le> n"
proof -
  let ?d = "concat (split_on (CHR ''_'') s)"
  from assms obtain m where m: "read_nat ?d = Some m" "n = int m"
    by (auto simp: parse_digits_def Let_def split: if_splits)
  then have "?d \<noteq> []" and r: "read_digits 0 ?d = Some m" by (auto simp: read_nat_def split: if_splits)
  then have "length (show_nat m) \<le> length ?d" using read_digits_bound[OF r] by (intro show_nat_length) simp_all
  with m length_concat_split_on[of "CHR ''_''" s] show "length (show_nat (nat n)) \<le> length s" by simp
  show "0 \<le> n" using m by simp
qed

lemma length_strip: "length (strip s) \<le> length s"
  unfolding strip_def
  by (metis length_dropWhile_le length_rev order_trans)

lemma parse_int_length:
  assumes "parse_int s = Inr n"
  shows "length (show_int n) \<le> length s"
proof -
  obtain c cs where t: "strip s = c # cs" using assms by (cases "strip s") (simp_all add: parse_int_def)
  have "length (show_int n) \<le> length (c # cs)"
  proof (cases "c = CHR ''-''")
    case True
    with assms t obtain m where m: "parse_digits cs = Some m" "n = - m"
      by (auto simp: parse_int_def split: option.splits)
    with parse_digits_length[OF m(1)] show ?thesis by (auto simp: show_int_def)
  next
    case False
    with assms t obtain ds where ds: "parse_digits ds = Some n" "length ds \<le> length (c # cs)"
      by (auto simp: parse_int_def split: option.splits if_splits)
    with parse_digits_length[OF ds(1)] show ?thesis by (auto simp: show_int_def)
  qed
  with length_strip[of s] t show ?thesis by simp
qed

lemma split_ws_length:
  "sum_list (map length (split_ws s)) + length (split_ws s) \<le> Suc (length s)"
proof (induction s rule: length_induct)
  case (1 s)
  show ?case
  proof (cases "\<exists>c cs. s = c # cs \<and> \<not> is_space c")
    case False
    then show ?thesis using 1 by (cases s) force+
  next
    case True
    then obtain c cs where s: "s = c # cs" "\<not> is_space c" by blast
    let ?w = "takeWhile (\<lambda>x. \<not> is_space x) cs" and ?r = "dropWhile (\<lambda>x. \<not> is_space x) cs"
    have l: "length cs = length ?w + length ?r"
      by (metis length_append takeWhile_dropWhile_id)
    show ?thesis
    proof (cases ?r)
      case Nil
      then have "split_ws ?r = []" by (simp only: split_ws.simps)
      with s l show ?thesis by simp
    next
      case (Cons x xs)
      then have "is_space x" by (metis hd_dropWhile list.discI list.sel(1))
      then have "split_ws ?r = split_ws xs" unfolding Cons by simp
      moreover have "length xs < length s" using s l Cons by simp
      ultimately have "sum_list (map length (split_ws ?r)) + length (split_ws ?r) \<le> length ?r"
        using 1 Cons by fastforce
      with s l show ?thesis by simp
    qed
  qed
qed

text \<open>The words of a TRANSFER, and the credit message built from them.\<close>

lemma token_literal: "token ''CREDIT''"
  by (simp add: token_def is_space_def)

lemma worth_credit:
  assumes "token txid" "utf8_valid txid" and "good_name n"
    and "length (credit_msg txid n amount) \<le> BUF"
  shows "worth (credit_msg txid n amount) = amount"
proof -
  let ?m = "credit_msg txid n amount"
  have n: "token n" "utf8_valid n" using assms(3) by (simp_all add: good_name_def)
  have "split_ws ?m = [''CREDIT'', txid, n, show_int amount]"
    using split_ws_token[OF token_literal, of "txid @ '' '' @ n @ '' '' @ show_int amount"]
      split_ws_token[OF assms(1), of "n @ '' '' @ show_int amount"]
      split_ws_token[OF n(1), of "show_int amount"] split_ws_last[OF show_int_token]
    by (simp add: credit_msg_def del: split_ws.simps)
  moreover have "utf8_valid ?m"
    using utf8_valid_words[of "''CREDIT''" "txid @ '' '' @ n @ '' '' @ show_int amount"]
      utf8_valid_words[OF assms(2), of "n @ '' '' @ show_int amount"]
      utf8_valid_words[OF n(2), of "show_int amount"] show_int_valid
    by (simp add: credit_msg_def)
  moreover have "take BUF ?m = ?m" using assms(4) by simp
  moreover have "starts_with ''CREDIT '' ?m"
    using starts_with_append[of "''CREDIT ''"] by (simp add: credit_msg_def)
  ultimately show ?thesis by (simp add: worth_def)
qed

lemma credit_fits:
  assumes "starts_with ''TRANSFER '' buf" "length buf \<le> BUF"
    and "5 \<le> length (split_ws buf)" and "parse_int (split_ws buf ! 4) = Inr amount"
    and "length n \<le> 5"
  shows "length (credit_msg (split_ws buf ! 1) n amount) \<le> BUF"
proof -
  let ?w = "split_ws buf"
  from assms(1) obtain t where buf: "buf = ''TRANSFER'' @ CHR '' '' # t" by (auto elim: starts_withE)
  have "token ''TRANSFER''" by (simp add: token_def is_space_def)
  then have w0: "?w ! 0 = ''TRANSFER''" using split_ws_token buf by (metis nth_Cons_0)
  obtain w0' w1 w2 w3 w4 ws where w: "?w = w0' # w1 # w2 # w3 # w4 # ws"
    using assms(3) by (auto simp: numeral_eq_Suc Suc_le_length_iff)
  then have "w2 \<noteq> []" "w3 \<noteq> []" using split_ws_tokens[of _ buf] by (auto simp: token_def)
  then have "1 \<le> length w2" "1 \<le> length w3" by (cases w2; cases w3; simp)+
  moreover have "length (show_int amount) \<le> length w4" using parse_int_length assms(4) w by simp
  moreover have "w0' = ''TRANSFER''" using w0 w by simp
  ultimately show ?thesis using split_ws_length[of buf] w assms(2,5) by (simp add: credit_msg_def)
qed

subsection \<open>One request\<close>

fun sends :: "effect list \<Rightarrow> (address \<times> bytes) list" where
  "sends [] = []"
| "sends (SendTo a d # xs) = (a, d) # sends xs"
| "sends (Print t # xs) = sends xs"
| "sends (PrintErr t # xs) = sends xs"

text \<open>The node after a request, and the datagrams it sent.\<close>

definition node_step :: "udp \<times> address \<Rightarrow> proc \<Rightarrow> address \<times> bytes \<Rightarrow> proc \<times> (address \<times> bytes) list" where
  "node_step e s m =
     (let t = snd (serve (fst e) (snd m) (snd e) s) in (t, sends (drop (length (out s)) (out t))))"

definition able :: "udp \<times> address \<Rightarrow> bool" where
  "able e \<longleftrightarrow> (\<forall>k. send_ok (fst e) k) \<and> valid_port (snd (snd e))"

lemma sock_sendto_able:
  "\<forall>k. send_ok E k \<Longrightarrow> valid_port (snd a) \<Longrightarrow>
   sock_sendto E a d s = (Inr (), s\<lparr>attempts := Suc (attempts s), out := out s @ [SendTo a d]\<rparr>)"
  by (simp add: sock_sendto_def emit_out_def py_run)

lemma send_udp_able:
  "\<forall>k. send_ok E k \<Longrightarrow> parse_int port = Inr p \<Longrightarrow> valid_port p \<Longrightarrow>
   send_udp E host port d s =
     (Inr 0, s\<lparr>attempts := Suc (attempts s), out := out s @ [SendTo (host, p) d]\<rparr>)"
  by (simp add: send_udp_def pcatch_def pbind_def pseq_run pret_run plift_run sock_sendto_able)

text \<open>What a node does to the money when it handles a request.\<close>

definition keeps_total :: "proc \<Rightarrow> bytes \<Rightarrow> proc \<Rightarrow> bool" where
  "keeps_total s d t \<longleftrightarrow>
     (\<exists>acts. out t = out s @ acts \<and> node_name t = node_name s
       \<and> counter t + sum_list (map (worth \<circ> snd) (sends acts)) = counter s + worth d
       \<and> list_all (sound_request \<circ> snd) (sends acts))"

lemma keeps_totalI:
  "out t = out s @ acts \<Longrightarrow> node_name t = node_name s \<Longrightarrow>
   counter t + sum_list (map (worth \<circ> snd) (sends acts)) = counter s + worth d \<Longrightarrow>
   list_all (sound_request \<circ> snd) (sends acts) \<Longrightarrow> keeps_total s d t"
  by (auto simp: keeps_total_def)

lemma keeps_total_refl: "worth d = 0 \<Longrightarrow> keeps_total s d s"
  by (rule keeps_totalI[of _ _ "[]"]) simp_all

lemma on_credit_keeps:
  assumes "\<forall>k. send_ok E k" "valid_port (snd a)"
    and buf: "decode (take BUF d) = Inr buf" "starts_with ''CREDIT '' buf"
  shows "keeps_total s d (snd (on_credit E buf a s))"
proof (cases "4 \<le> length (split_ws buf)")
  case False
  with buf show ?thesis by (simp add: on_credit_def Let_def pret_run worth_def keeps_total_refl)
next
  case True
  show ?thesis
  proof (cases "parse_int (split_ws buf ! 3)")
    case (Inl e)
    with True buf show ?thesis
      by (simp add: on_credit_def Let_def praise_run worth_def keeps_total_refl)
  next
    case (Inr n)
    with True buf have "worth d = n" by (simp add: worth_def Let_def)
    with True Inr show ?thesis
      by (intro keeps_totalI[of _ _ "drop (length (out s)) (out (snd (on_credit E buf a s)))"])
        (simp_all add: on_credit_def Let_def py_run emit_out_def sock_sendto_able[OF assms(1,2)]
          worthless sound_other)
  qed
qed

lemma decoded_length: "decode (take BUF d) = Inr buf \<Longrightarrow> length buf \<le> BUF \<and> utf8_valid buf"
  by (auto simp: decode_def split: if_splits)

lemma starts_with_differ: "p \<noteq> q \<Longrightarrow> length p = length q \<Longrightarrow> starts_with p s \<Longrightarrow> \<not> starts_with q s"
  by (simp add: starts_with_def)

lemma worth_not_credit:
  "decode (take BUF d) = Inr buf \<Longrightarrow> \<not> starts_with ''CREDIT '' buf \<Longrightarrow> worth d = 0"
  by (simp add: worth_def Let_def)

lemma on_transfer_keeps:
  assumes E: "\<forall>k. send_ok E k" "valid_port (snd a)"
    and buf: "decode (take BUF d) = Inr buf" "starts_with ''TRANSFER '' buf"
    and d: "sound_request d" "worth d = 0" and n: "good_name (node_name s)"
  shows "keeps_total s d (snd (on_transfer E buf a s))"
proof (cases "5 \<le> length (split_ws buf)")
  case False
  with d show ?thesis by (simp add: on_transfer_def Let_def pret_run keeps_total_refl)
next
  case True
  let ?w = "split_ws buf"
  from True buf d obtain p where p: "parse_int (?w ! 3) = Inr p" "valid_port p"
    by (auto simp: sound_request_def Let_def split: sum.splits)
  show ?thesis
  proof (cases "parse_int (?w ! 4)")
    case (Inl e)
    with True d show ?thesis by (simp add: on_transfer_def Let_def praise_run keeps_total_refl)
  next
    case (Inr x)
    have w1: "?w ! 1 \<in> set ?w" using True by simp
    have "length (credit_msg (?w ! 1) (node_name s) x) \<le> BUF"
      using credit_fits[OF buf(2) _ True Inr] decoded_length[OF buf(1)] n by (simp add: good_name_def)
    then have "worth (credit_msg (?w ! 1) (node_name s) x) = x"
      using worth_credit split_ws_tokens[OF w1] split_ws_valid[OF _ w1] decoded_length[OF buf(1)] n
      by blast
    moreover have "sound_request (credit_msg (?w ! 1) (node_name s) x)"
      by (simp add: credit_msg_def sound_other)
    ultimately show ?thesis using True Inr p d
      by (intro keeps_totalI[of _ _ "drop (length (out s)) (out (snd (on_transfer E buf a s)))"])
        (simp_all add: on_transfer_def Let_def py_run emit_out_def sock_sendto_able[OF E]
          send_udp_able[OF E(1) p] worthless sound_other)
  qed
qed

lemma serve_keeps:
  assumes E: "\<forall>k. send_ok E k" "valid_port (snd a)"
    and d: "sound_request d" and n: "good_name (node_name s)"
  shows "keeps_total s d (snd (serve E d a s))"
proof -
  have snd: "snd (serve E d a s) = snd (handle_request E d a s)"
    by (auto simp: serve_def pcatch_def pret_run split: prod.splits sum.splits)
  show ?thesis
  proof (cases "decode (take BUF d)")
    case (Inl e)
    then show ?thesis
      by (simp add: snd handle_request_def praise_run worth_def keeps_total_refl)
  next
    case (Inr buf)
    then have w: "\<not> starts_with ''CREDIT '' buf \<Longrightarrow> worth d = 0" by (rule worth_not_credit)
    have reply: "keeps_total s d (snd (sock_sendto E a (c # r) s))"
      if "\<not> starts_with ''CREDIT '' buf" "c \<noteq> CHR ''C''" "c \<noteq> CHR ''R''" "c \<noteq> CHR ''T''" for c r
      using that w by (intro keeps_totalI[of _ _ "[SendTo a (c # r)]"])
        (simp_all add: sock_sendto_able[OF E] worthless sound_other)
    have reset: "\<not> starts_with ''RESET '' buf" using d Inr by (simp add: sound_request_def)
    consider "starts_with ''STATE'' buf" | "\<not> starts_with ''STATE'' buf" "starts_with ''CREDIT '' buf"
      | "\<not> starts_with ''STATE'' buf" "\<not> starts_with ''CREDIT '' buf" "starts_with ''TRANSFER '' buf"
      | "\<not> starts_with ''STATE'' buf" "\<not> starts_with ''CREDIT '' buf" "\<not> starts_with ''TRANSFER '' buf"
      by blast
    then show ?thesis
    proof cases
      case 1
      then have "\<not> starts_with ''CREDIT '' buf" by (cases buf) (auto dest: starts_with_hd simp: starts_with_def)
      with 1 Inr reply show ?thesis
        by (simp add: snd handle_request_def on_state_def state_reply_def pbind_run pget_run)
    next
      case 2
      with Inr on_credit_keeps[OF E Inr] show ?thesis by (simp add: snd handle_request_def)
    next
      case 3
      with Inr on_transfer_keeps[OF E Inr _ d w n] show ?thesis by (simp add: snd handle_request_def)
    next
      case 4
      with Inr reset reply show ?thesis by (simp add: snd handle_request_def)
    qed
  qed
qed

text \<open>A node over a list of requests, each with its sender: where it ends and what it sends.\<close>

fun app_run :: "udp \<Rightarrow> proc \<Rightarrow> (address \<times> bytes) list \<Rightarrow> proc \<times> (address \<times> bytes) list" where
  "app_run E s [] = (s, [])"
| "app_run E s ((src, d) # rs) =
     (let (t, ms) = node_step (E, src) s (src, d); (u, ms') = app_run E t rs in (u, ms @ ms'))"

definition obliging :: "udp \<Rightarrow> bool" where
  "obliging E \<longleftrightarrow> (\<forall>k. send_ok E k)"

definition proper_request :: "address \<times> bytes \<Rightarrow> bool" where
  "proper_request r \<longleftrightarrow> valid_port (snd (fst r)) \<and> sound_request (snd r)"

lemma node_step_keeps:
  assumes "able e" "good_name (node_name s)" "sound_request (snd m)" "node_step e s m = (t, ms)"
  shows "counter t + sum_list (map (worth \<circ> snd) ms) = counter s + worth (snd m)"
    and "node_name t = node_name s" and "list_all (sound_request \<circ> snd) ms"
proof -
  have "keeps_total s (snd m) t"
    using serve_keeps[of "fst e" "snd e" "snd m" s] assms by (auto simp: able_def node_step_def Let_def)
  then obtain acts where k: "out t = out s @ acts" "node_name t = node_name s"
      "counter t + sum_list (map (worth \<circ> snd) (sends acts)) = counter s + worth (snd m)"
      "list_all (sound_request \<circ> snd) (sends acts)"
    by (auto simp: keeps_total_def)
  moreover have "ms = sends acts" using assms(4) k(1) by (auto simp: node_step_def Let_def)
  ultimately show "counter t + sum_list (map (worth \<circ> snd) ms) = counter s + worth (snd m)"
    "node_name t = node_name s" "list_all (sound_request \<circ> snd) ms" by simp_all
qed

lemma app_run_keeps:
  assumes "obliging E" "good_name (node_name s)" "list_all proper_request rs" "app_run E s rs = (t, ms)"
  shows "counter t + sum_list (map (worth \<circ> snd) ms) = counter s + sum_list (map (worth \<circ> snd) rs)"
  using assms(2-4)
proof (induction rs arbitrary: s t ms)
  case (Cons r rs)
  obtain src d where r: "r = (src, d)" by (cases r)
  obtain u ms1 where 1: "node_step (E, src) s (src, d) = (u, ms1)" by fastforce
  obtain ms2 where 2: "app_run E u rs = (t, ms2)" "ms = ms1 @ ms2"
    using Cons.prems(3) 1 by (auto simp: r split: prod.splits)
  have able: "able (E, src)" "sound_request (snd (src, d))"
    using assms(1) Cons.prems(2) by (simp_all add: able_def obliging_def r proper_request_def)
  note k = node_step_keeps[OF able(1) Cons.prems(1) able(2) 1]
  have "counter t + sum_list (map (worth \<circ> snd) ms2) = counter u + sum_list (map (worth \<circ> snd) rs)"
    by (rule Cons.IH) (use Cons.prems 2 k(2) in simp_all)
  with k(1) 2(2) show ?case by (simp add: r o_def)
qed simp

subsection \<open>The network\<close>

text \<open>
  Nodes that handle messages one at a time, and a bag of messages in flight. A message for the
  node at \<open>site m\<close> may be handled at any time; anybody may send, and the network may lose or
  duplicate, a message in \<open>free\<close>.
\<close>

inductive net_step ::
  "('e \<Rightarrow> 's \<Rightarrow> 'm \<Rightarrow> 's \<times> 'm list) \<Rightarrow> ('e \<Rightarrow> bool) \<Rightarrow> ('m \<Rightarrow> nat option) \<Rightarrow> ('m \<Rightarrow> bool)
   \<Rightarrow> 's list \<times> 'm list \<Rightarrow> 's list \<times> 'm list \<Rightarrow> bool"
  for handle allowed site free where
  handled: "site m = Some i \<Longrightarrow> i < length ns \<Longrightarrow> allowed e \<Longrightarrow> handle e (ns ! i) m = (t, ms)
    \<Longrightarrow> net_step handle allowed site free (ns, xs @ m # ys) (ns[i := t], xs @ ys @ ms)"
| sent: "free m \<Longrightarrow> net_step handle allowed site free (ns, xs) (ns, m # xs)"
| lost: "free m \<Longrightarrow> net_step handle allowed site free (ns, xs @ m # ys) (ns, xs @ ys)"

lemma sum_list_replace:
  "i < length xs \<Longrightarrow> sum_list (xs[i := x :: int]) = sum_list xs + x - xs ! i"
  by (induction xs arbitrary: i) (auto simp: nth_Cons split: nat.split)

text \<open>A handler that moves a quantity between its state and the messages it sends.\<close>

locale conserving =
  fixes handle :: "'e \<Rightarrow> 's \<Rightarrow> 'm \<Rightarrow> 's \<times> 'm list"
    and allowed :: "'e \<Rightarrow> bool" and free :: "'m \<Rightarrow> bool"
    and holds :: "'s \<Rightarrow> int" and carries :: "'m \<Rightarrow> int"
    and good :: "'s \<Rightarrow> bool" and sound :: "'m \<Rightarrow> bool"
  assumes handle_total: "allowed e \<Longrightarrow> good s \<Longrightarrow> sound m \<Longrightarrow> handle e s m = (t, ms)
      \<Longrightarrow> holds t + sum_list (map carries ms) = holds s + carries m"
    and handle_good: "allowed e \<Longrightarrow> good s \<Longrightarrow> sound m \<Longrightarrow> handle e s m = (t, ms)
      \<Longrightarrow> good t \<and> list_all sound ms"
    and free_zero: "free m \<Longrightarrow> carries m = 0 \<and> sound m"
begin

definition total :: "'s list \<times> 'm list \<Rightarrow> int" where
  "total c = sum_list (map holds (fst c)) + sum_list (map carries (snd c))"

definition regular :: "'s list \<times> 'm list \<Rightarrow> bool" where
  "regular c \<longleftrightarrow> list_all good (fst c) \<and> list_all sound (snd c)"

lemma step_total:
  assumes "net_step handle allowed site free c d" and "regular c"
  shows "regular d \<and> total d = total c"
  using assms
proof (induction rule: net_step.induct)
  case (handled m i ns e t ms xs ys)
  have s: "good (ns ! i)" "sound m" using handled by (auto simp: regular_def list_all_iff)
  have "sum_list (map holds (ns[i := t])) = sum_list (map holds ns) + holds t - holds (ns ! i)"
    using handled(2) by (simp add: map_update sum_list_replace)
  then have "total (ns[i := t], xs @ ys @ ms) = total (ns, xs @ m # ys)"
    using handle_total[OF handled(3) s handled(4)] by (simp add: total_def)
  moreover have "set (ns[i := t]) \<subseteq> insert t (set ns)" by (rule set_update_subset_insert)
  then have "regular (ns[i := t], xs @ ys @ ms)"
    using handle_good[OF handled(3) s handled(4)] handled(5) by (auto simp: regular_def list_all_iff)
  ultimately show ?case by simp
next
  case (sent m ns xs)
  with free_zero[of m] show ?case by (simp add: total_def regular_def)
next
  case (lost m ns xs ys)
  with free_zero[of m] show ?case by (simp add: total_def regular_def)
qed

lemma total_invariant:
  assumes "(net_step handle allowed site free)\<^sup>*\<^sup>* c d" and "regular c"
  shows "regular d \<and> total d = total c"
  using assms by (induction rule: rtranclp_induct) (auto dest: step_total)

end

text \<open>
  Anybody may send the network a message that carries no money and moves it soundly, such as a
  TRANSFER request, a STATE request or an acknowledgement, and such messages may be lost.
\<close>

definition harmless :: "address \<times> bytes \<Rightarrow> bool" where
  "harmless m \<longleftrightarrow> worth (snd m) = 0 \<and> sound_request (snd m)"

definition bank_step ::
  "(address \<Rightarrow> nat option) \<Rightarrow> proc list \<times> (address \<times> bytes) list
   \<Rightarrow> proc list \<times> (address \<times> bytes) list \<Rightarrow> bool" where
  "bank_step site = net_step node_step able (\<lambda>m. site (fst m)) harmless"

interpretation bank: conserving node_step able harmless counter "worth \<circ> snd"
  "good_name \<circ> node_name" "sound_request \<circ> snd"
proof
  fix e s m t ms
  assume "able e" "(good_name \<circ> node_name) s" "(sound_request \<circ> snd) m" and st: "node_step e s m = (t, ms)"
  then show "counter t + sum_list (map (worth \<circ> snd) ms) = counter s + (worth \<circ> snd) m"
    and "(good_name \<circ> node_name) t \<and> list_all (sound_request \<circ> snd) ms"
    using node_step_keeps[of e s m t ms] by simp_all
next
  fix m assume "harmless m"
  then show "(worth \<circ> snd) m = 0 \<and> (sound_request \<circ> snd) m" by (simp add: harmless_def)
qed

text \<open>
  C10: money is conserved. Nodes with well-formed names of at most five characters, connected
  by a network that delivers in any order: whatever requests anybody sends (except RESET,
  forged CREDITs and transfers to a malformed port), the sum of the counters and of the CREDIT
  messages in flight never changes; once no credit is in flight, the counters alone add up to
  the initial total. It needs that \<open>sendto\<close> succeeds and that no CREDIT is lost.
\<close>

theorem transfers_conserve_the_sum:
  assumes "(bank_step site)\<^sup>*\<^sup>* (ns, wire) (ns', wire')"
    and "\<forall>n\<in>set ns. good_name (node_name n)" and "\<forall>m\<in>set wire. sound_request (snd m)"
  shows "sum_list (map counter ns') + sum_list (map (worth \<circ> snd) wire')
       = sum_list (map counter ns) + sum_list (map (worth \<circ> snd) wire)
     \<and> ((\<forall>m\<in>set wire'. worth (snd m) = 0) \<longrightarrow>
       sum_list (map counter ns') = sum_list (map counter ns) + sum_list (map (worth \<circ> snd) wire))"
proof -
  have "bank.regular (ns, wire)" using assms(2,3) by (simp add: bank.regular_def list_all_iff)
  then have "bank.total (ns', wire') = bank.total (ns, wire)"
    using bank.total_invariant[of "\<lambda>m. site (fst m)"] assms(1) by (simp add: bank_step_def)
  then have eq: "sum_list (map counter ns') + sum_list (map (worth \<circ> snd) wire')
       = sum_list (map counter ns) + sum_list (map (worth \<circ> snd) wire)"
    by (simp add: bank.total_def)
  have zero: "sum_list (map (worth \<circ> snd) wire') = 0" if "\<forall>m\<in>set wire'. worth (snd m) = 0"
    using that by (induction wire') simp_all
  show ?thesis using eq zero by (metis add.right_neutral)
qed

definition demo_udp :: udp where
  "demo_udp = \<lparr>send_ok = (\<lambda>k. True), bind_ok = True, arrivals = [], answer_to = (\<lambda>k. Failed)\<rparr>"

definition demo_node :: "string \<Rightarrow> int \<Rightarrow> proc" where
  "demo_node n c = \<lparr>node_name = n, counter = c, out = [], attempts = 0, asked = 0, slept = 0\<rparr>"

definition demo_site :: "address \<Rightarrow> nat option" where
  "demo_site a = (if a = (''h1'', 5000) then Some 0 else if a = (''h2'', 5000) then Some 1 else None)"

definition demo_transfer :: "address \<times> bytes" where
  "demo_transfer = ((''h1'', 5000), ''TRANSFER tx1 h2 5000 4'')"

definition demo_credit :: "address \<times> bytes" where
  "demo_credit = ((''h2'', 5000), ''CREDIT tx1 a 4'')"

definition demo_client :: address where "demo_client = (''h9'', 40000)"

definition demo_payer :: proc where
  "demo_payer = (demo_node ''a'' 6)\<lparr>out := [Print ''a DEBIT tx=tx1 to=h2:5000 amount=4 counter=6'',
     SendTo (''h2'', 5000) ''CREDIT tx1 a 4'', SendTo demo_client ''OK TRANSFER tx1''], attempts := 2\<rparr>"

definition demo_payee :: proc where
  "demo_payee = (demo_node ''b'' 4)\<lparr>out := [Print ''b CREDIT tx=tx1 from=a amount=4 counter=4'',
     SendTo demo_client ''OK CREDIT tx1''], attempts := 1\<rparr>"

lemma demo_debit:
  "node_step (demo_udp, demo_client) (demo_node ''a'' 10) demo_transfer =
   (demo_payer, [demo_credit, (demo_client, ''OK TRANSFER tx1'')])"
  by code_simp

lemma demo_paid:
  "node_step (demo_udp, demo_client) (demo_node ''b'' 0) demo_credit =
   (demo_payee, [(demo_client, ''OK CREDIT tx1'')])"
  by code_simp

lemma demo_payment:
  "(bank_step demo_site)\<^sup>*\<^sup>* ([demo_node ''a'' 10, demo_node ''b'' 0], [demo_transfer])
     ([demo_payer, demo_payee], [(demo_client, ''OK TRANSFER tx1''), (demo_client, ''OK CREDIT tx1'')])"
proof (rule rtranclp_trans)
  have able: "able (demo_udp, demo_client)" by (simp add: able_def demo_udp_def demo_client_def valid_port_def)
  have "bank_step demo_site ([demo_node ''a'' 10, demo_node ''b'' 0], [] @ demo_transfer # [])
     ([demo_node ''a'' 10, demo_node ''b'' 0][0 := demo_payer],
      [] @ [] @ [demo_credit, (demo_client, ''OK TRANSFER tx1'')])"
    unfolding bank_step_def
    by (rule net_step.handled[where e = "(demo_udp, demo_client)"])
      (simp_all add: able demo_debit, simp add: demo_transfer_def demo_site_def)
  then show "(bank_step demo_site)\<^sup>*\<^sup>* ([demo_node ''a'' 10, demo_node ''b'' 0], [demo_transfer])
     ([demo_payer, demo_node ''b'' 0], [demo_credit, (demo_client, ''OK TRANSFER tx1'')])" by simp
  have "bank_step demo_site ([demo_payer, demo_node ''b'' 0], [] @ demo_credit # [(demo_client, ''OK TRANSFER tx1'')])
     ([demo_payer, demo_node ''b'' 0][1 := demo_payee],
      [] @ [(demo_client, ''OK TRANSFER tx1'')] @ [(demo_client, ''OK CREDIT tx1'')])"
    unfolding bank_step_def
    by (rule net_step.handled[where e = "(demo_udp, demo_client)"])
      (simp_all add: able demo_paid, simp add: demo_credit_def demo_site_def)
  then show "(bank_step demo_site)\<^sup>*\<^sup>*
     ([demo_payer, demo_node ''b'' 0], [demo_credit, (demo_client, ''OK TRANSFER tx1'')])
     ([demo_payer, demo_payee], [(demo_client, ''OK TRANSFER tx1''), (demo_client, ''OK CREDIT tx1'')])" by simp
qed

theorem transfers_conserve_the_sum_witness:
  "sum_list (map counter [demo_payer, demo_payee]) = 10"
proof -
  have "good_name ''a''" "good_name ''b''" by code_simp+
  then have names: "\<forall>n\<in>set [demo_node ''a'' 10, demo_node ''b'' 0]. good_name (node_name n)"
    by (simp add: demo_node_def)
  have "sound_request (snd demo_transfer)" "worth (snd demo_transfer) = 0" by code_simp+
  moreover have "worth (snd (demo_client, ''OK TRANSFER tx1'')) = 0" "worth (snd (demo_client, ''OK CREDIT tx1'')) = 0"
    by (simp_all add: worthless)
  ultimately show ?thesis
    using transfers_conserve_the_sum[OF demo_payment names] by (simp add: demo_node_def)
qed

text \<open>
  The send that cannot be made: the error is swallowed, and only a call of \<open>sendto\<close> counts as an
  attempt.
\<close>

definition refuses :: "udp \<Rightarrow> nat \<Rightarrow> string \<Rightarrow> bool" where
  "refuses E k port =
     (case parse_int port of Inl e \<Rightarrow> True | Inr p \<Rightarrow> \<not> valid_port p \<or> \<not> send_ok E k)"

definition next_attempt :: "nat \<Rightarrow> string \<Rightarrow> nat" where
  "next_attempt k port = (case parse_int port of Inl e \<Rightarrow> k | Inr p \<Rightarrow> Suc k)"

lemma send_udp_refused:
  assumes "refuses E (attempts u) port"
  shows "send_udp E host port m u = (Inr (-1), u\<lparr>attempts := next_attempt (attempts u) port\<rparr>)"
  using assms
  by (cases "parse_int port")
    (auto simp: refuses_def next_attempt_def send_udp_def pcatch_def py_run sock_sendto_def)

text \<open>What a node prints when it debits itself.\<close>

definition debit_line :: "proc \<Rightarrow> string \<Rightarrow> int \<Rightarrow> string" where
  "debit_line s buf amount = node_name s @ '' DEBIT tx='' @ (split_ws buf ! 1) @ '' to='' @ (split_ws buf ! 2)
     @ '':'' @ (split_ws buf ! 3) @ '' amount='' @ show_int amount @ '' counter='' @ show_int (counter s - amount)"

text \<open>
  C27: a failing send burns money. When the CREDIT of a TRANSFER cannot be sent, because the
  port is not a number or out of range or \<open>sendto\<close> fails, the sender's counter has already
  been debited and stays so, no credit goes to anybody, and yet the client is answered
  OK TRANSFER: the debit line and that answer are all the node puts out.
\<close>

theorem failed_credit_burns_money:
  assumes "decode (take BUF d) = Inr buf" "starts_with ''TRANSFER '' buf"
    and "5 \<le> length (split_ws buf)" "parse_int (split_ws buf ! 4) = Inr amount"
    and "refuses E (attempts s) (split_ws buf ! 3)"
    and "valid_port (snd addr)" "send_ok E (next_attempt (attempts s) (split_ws buf ! 3))"
  shows "\<exists>t. serve E d addr s = (Inr (), t) \<and> counter t = counter s - amount
      \<and> out t = out s @ [Print (debit_line s buf amount), SendTo addr (''OK TRANSFER '' @ (split_ws buf ! 1))]"
proof -
  let ?s = "s\<lparr>counter := counter s - amount, out := out s @ [Print (debit_line s buf amount)]\<rparr>"
  have no: "\<not> starts_with ''STATE'' buf" "\<not> starts_with ''CREDIT '' buf"
    using assms(2) by (cases buf; auto simp: starts_with_def)+
  have send: "send_udp E (split_ws buf ! 2) (split_ws buf ! 3) m ?s
      = (Inr (-1), ?s\<lparr>attempts := next_attempt (attempts s) (split_ws buf ! 3)\<rparr>)" for m
    using send_udp_refused[where u = ?s] assms(5) by simp
  have "handle_request E d addr s = sock_sendto E addr (''OK TRANSFER '' @ (split_ws buf ! 1))
      (?s\<lparr>attempts := next_attempt (attempts s) (split_ws buf ! 3)\<rparr>)"
    using assms(1-4) no send
    by (simp add: handle_request_def on_transfer_def Let_def py_run emit_out_def debit_line_def)
  then show ?thesis
    using assms(6,7) by (simp add: serve_def pcatch_def sock_sendto_def emit_out_def py_run)
qed

theorem failed_credit_burns_money_witness:
  "\<exists>t. serve demo_udp ''TRANSFER tx1 h2 x 4'' demo_client (demo_node ''a'' 10) = (Inr (), t)
      \<and> counter t = 6 \<and> out t = [Print ''a DEBIT tx=tx1 to=h2:x amount=4 counter=6'',
          SendTo demo_client ''OK TRANSFER tx1'']"
proof -
  let ?d = "''TRANSFER tx1 h2 x 4''"
  have w: "split_ws ?d = [''TRANSFER'', ''tx1'', ''h2'', ''x'', ''4'']" by code_simp
  have "decode (take BUF ?d) = Inr ?d" "starts_with ''TRANSFER '' ?d"
    "parse_int ''4'' = Inr 4" "parse_int ''x'' = Inl ValueError" "valid_port (snd demo_client)"
    "debit_line (demo_node ''a'' 10) ?d 4 = ''a DEBIT tx=tx1 to=h2:x amount=4 counter=6''" by code_simp+
  then show ?thesis
    using failed_credit_burns_money[of ?d ?d 4 demo_udp "demo_node ''a'' 10" demo_client]
    by (simp add: w demo_node_def demo_udp_def refuses_def del: split_ws.simps)
qed

end
