(* ===== verification/Mesh.thy ===== *)
theory Mesh
  imports Channels Restore Bank
begin

text \<open>
  The whole mesh: sidecars that take one snapshot each, the counter nodes behind them, and the
  channels between them. The money of the checkpointed counters and of the recorded credits,
  against what there was before: none is counted twice, and what is missing is what an
  application sent after its sidecar's drain or had not read when it was frozen.
\<close>

subsection \<open>The money in an artifact\<close>

text \<open>The recorded messages of an artifact, read as the restore reads them.\<close>

definition artifact_channel :: "json \<Rightarrow> json list" where
  "artifact_channel peer =
     (case peer of JObj f \<Rightarrow> (case map_of f ''channel'' of Some (JArr ms) \<Rightarrow> ms | _ \<Rightarrow> []) | _ \<Rightarrow> [])"

definition artifact_worth :: "json \<Rightarrow> int" where
  "artifact_worth artifact =
     (case artifact of JObj f \<Rightarrow>
        (case map_of f ''peers'' of
           Some (JObj ps) \<Rightarrow> sum_list (map (\<lambda>x. sum_list (map (\<lambda>m.
             (case read_msg m of Inl e \<Rightarrow> 0 | Inr r \<Rightarrow> worth (m_payload r))) (artifact_channel (snd x)))) ps)
         | _ \<Rightarrow> 0)
      | _ \<Rightarrow> 0)"

lemma artifact_worth_cut:
  assumes "finite ps"
  shows "artifact_worth (cut_artifact E st i ps send recv ch)
    = (\<Sum>p\<in>ps. sum_list (map (\<lambda>m. worth (m_payload m)) (ch p)))"
proof -
  have "artifact_worth (cut_artifact E st i ps send recv ch)
      = sum_list (map (\<lambda>p. sum_list (map (\<lambda>m. worth (m_payload m)) (ch p))) (sorted_list_of_set ps))"
    by (simp add: artifact_worth_def cut_artifact_def cut_peer_json_def artifact_channel_def o_def)
  also have "\<dots> = (\<Sum>p\<in>ps. sum_list (map (\<lambda>m. worth (m_payload m)) (ch p)))"
    using assms by (simp add: sum_list_distinct_conv_sum_set)
  finally show ?thesis .
qed

lemma sum_list_by_host:
  fixes w :: "'a \<Rightarrow> int"
  assumes "finite Q" and "\<forall>x\<in>set xs. h x \<notin> Q \<longrightarrow> w x = 0"
  shows "sum_list (map w xs) = (\<Sum>q\<in>Q. sum_list (map w (filter (\<lambda>x. h x = q) xs)))"
  using assms(2)
proof (induction xs)
  case (Cons x xs)
  have "(\<Sum>q\<in>Q. sum_list (map w (filter (\<lambda>x. h x = q) (x # xs))))
      = (\<Sum>q\<in>Q. (if h x = q then w x else 0) + sum_list (map w (filter (\<lambda>x. h x = q) xs)))"
    by (intro sum.cong) auto
  also have "\<dots> = (if h x \<in> Q then w x else 0) + sum_list (map w xs)"
    using Cons assms(1) by (simp add: sum.distrib)
  finally show ?case using Cons.prems by simp
qed simp

subsection \<open>The mesh\<close>

text \<open>
  The application behind a sidecar: where it started, where the checkpoint froze it, the requests
  it handled until then, those that were delivered to its socket and not read, and what it sent
  after the drain of its sidecar and before the checkpoint.
\<close>

record node_cut = cut_side +
  app_before :: proc
  app_after :: proc
  handled :: "(address \<times> bytes) list"
  unread :: "(address \<times> bytes) list"
  late :: "(address \<times> bytes) list"

fun app_message :: "app_datagram \<Rightarrow> address \<times> bytes" where
  "app_message (dst, port, src, sp, data) = ((quad dst, port), data)"

text \<open>
  Everything the application sent passes through its sidecar, before the cut or too late for it.
  Of the money, it comes from and goes to other members only.
\<close>

definition from_members :: "string set \<Rightarrow> (address \<times> bytes) list \<Rightarrow> bool" where
  "from_members rest ms \<longleftrightarrow> list_all (\<lambda>m. fst (fst m) \<in> rest \<or> worth (snd m) = 0) ms"

definition app_cut :: "udp \<Rightarrow> string set \<Rightarrow> node_cut \<Rightarrow> bool" where
  "app_cut U rest c \<longleftrightarrow>
     good_name (node_name (app_before c)) \<and> list_all proper_request (handled c)
     \<and> app_run U (app_before c) (handled c) = (app_after c, map app_message (sent_before c) @ late c)
     \<and> from_members rest (handled c @ unread c) \<and> from_members rest (map app_message (sent_before c))"

text \<open>What arrived from a member before the cut is what the application has read of it and what it has not.\<close>

definition app_reads :: "string \<Rightarrow> node_cut \<Rightarrow> bool" where
  "app_reads p c \<longleftrightarrow>
     map snd (filter (\<lambda>m. fst (fst m) = p) (handled c @ unread c))
       = map a_payload (filter (\<lambda>x. a_ip x = p) (gets (history c)))"

definition posted_cut :: "bytes \<Rightarrow> node_cut \<Rightarrow> json" where
  "posted_cut i c = cut_of (sidecar_env c) i (others (sidecar_env c) (start_world c)) (drained_world i c) (cut_window c)"

text \<open>What a list of datagrams is worth, all of it and of one host.\<close>

definition total_worth :: "(address \<times> bytes) list \<Rightarrow> int" where
  "total_worth ms = sum_list (map (worth \<circ> snd) ms)"

definition host_worth :: "string \<Rightarrow> (address \<times> bytes) list \<Rightarrow> int" where
  "host_worth h ms = total_worth (filter (\<lambda>m. fst (fst m) = h) ms)"

definition recorded_worth :: "bytes \<Rightarrow> string \<Rightarrow> node_cut \<Rightarrow> int" where
  "recorded_worth i p c = sum_list (map (\<lambda>m. worth (m_payload m)) (channel_part i p (cut_window c)))"

lemma total_worth_append [simp]: "total_worth (a @ b) = total_worth a + total_worth b"
  by (simp add: total_worth_def)

lemma from_members_total:
  "finite rest \<Longrightarrow> from_members rest ms \<Longrightarrow> total_worth ms = (\<Sum>q\<in>rest. host_worth q ms)"
  unfolding total_worth_def host_worth_def
  by (rule sum_list_by_host) (auto simp: from_members_def list_all_iff)

lemma app_cut_total:
  assumes "app_cut U rest c" "obliging U" "finite rest"
  shows "counter (app_after c) + (\<Sum>q\<in>rest. host_worth q (map app_message (sent_before c)))
      + total_worth (late c) + total_worth (unread c)
    = counter (app_before c) + (\<Sum>q\<in>rest. host_worth q (handled c @ unread c))"
proof -
  have "total_worth (map app_message (sent_before c)) = (\<Sum>q\<in>rest. host_worth q (map app_message (sent_before c)))"
    "total_worth (handled c @ unread c) = (\<Sum>q\<in>rest. host_worth q (handled c @ unread c))"
    by (rule from_members_total[OF assms(3)], use assms(1) in \<open>simp add: app_cut_def\<close>)+
  moreover have "counter (app_after c) + total_worth (map app_message (sent_before c) @ late c)
      = counter (app_before c) + total_worth (handled c)"
    using app_run_keeps[OF assms(2), of "app_before c" "handled c" "app_after c" "map app_message (sent_before c) @ late c"]
      assms(1) by (simp add: app_cut_def total_worth_def)
  ultimately show ?thesis by simp
qed

lemma host_worth_map: "host_worth h ms = sum_list (map worth (map snd (filter (\<lambda>m. fst (fst m) = h) ms)))"
  by (simp add: host_worth_def total_worth_def)

lemma sent_to_host:
  "map snd (filter (\<lambda>m. fst (fst m) = q) (map app_message ds)) = map dgram_data (filter (\<lambda>d. dgram_ip d = q) ds)"
  by (induction ds) auto

lemma channel_worth:
  assumes "sidecar_cut i rp cp" "sidecar_cut i rq cq" "utf8_valid i" "q \<in> rp" "p \<in> rq"
    and "channel_delivers p q cp cq later" "app_reads p cq"
  shows "host_worth q (map app_message (sent_before cp)) = host_worth p (handled cq @ unread cq) + recorded_worth i p cq"
proof -
  have "map snd (filter (\<lambda>m. fst (fst m) = q) (map app_message (sent_before cp)))
      = map snd (filter (\<lambda>m. fst (fst m) = p) (handled cq @ unread cq)) @ map m_payload (channel_part i p (cut_window cq))"
    using channel_split[OF assms(1-6)] assms(7) by (simp add: sent_to_host app_reads_def)
  then have "sum_list (map worth (map snd (filter (\<lambda>m. fst (fst m) = q) (map app_message (sent_before cp)))))
      = sum_list (map worth (map snd (filter (\<lambda>m. fst (fst m) = p) (handled cq @ unread cq))))
        + sum_list (map worth (map m_payload (channel_part i p (cut_window cq))))"
    by (simp only: map_append sum_list_append)
  then show ?thesis unfolding host_worth_map recorded_worth_def by (simp add: comp_def)
qed

lemma sidecar_cut_posts:
  assumes "sidecar_cut i rest c" "utf8_valid i"
  shows "\<exists>h u. pfor (run_op (sidecar_env c)) (history c) (start_world c) = (Inr (), h)
      \<and> pfor (arrive (sidecar_env c)) (cut_window c) (h\<lparr>local_sock := map queued (pending c)\<rparr>) = (Inr (), u)
      \<and> requests (trace u) = requests (trace (start_world c))
          @ [checkpoint_req (sidecar_env c) i, PostSnapshotState (posted_cut i c)]"
    and "artifact_worth (posted_cut i c) = (\<Sum>p\<in>rest. recorded_worth i p c)"
proof -
  let ?E = "sidecar_env c"
  note d = sidecar_cut_drains[OF assms(1)]
  have inside: "\<forall>x\<in>set (inside c). readable x" and last: "set (others ?E (first_world c)) - {a_ip (opener c)}
      - closed i (inside c) = {a_ip (closer c)}" and close: "closes i (opener c)" "closes i (closer c)"
    using assms(1) d(4) by (simp_all add: sidecar_cut_def list_all_iff)
  obtain u where u: "pfor (arrive ?E) (opener c # inside c @ [closer c]) (first_world c) = (Inr (), u)"
    "requests (trace u) = requests (trace (drained_world i c)) @ [checkpoint_req ?E i,
      PostSnapshotState (cut_of ?E i (others ?E (first_world c)) (drained_world i c) (opener c # inside c @ [closer c]))]"
    by (rule snapshot_run[OF refl d(3) assms(2) d(2) close(1) inside close(2) last])
  have first: "(snd (pfor (run_op ?E) (history c) (start_world c)))\<lparr>local_sock := map queued (pending c)\<rparr> = first_world c"
    by (simp add: first_world_def)
  show "\<exists>h u. pfor (run_op ?E) (history c) (start_world c) = (Inr (), h)
      \<and> pfor (arrive ?E) (cut_window c) (h\<lparr>local_sock := map queued (pending c)\<rparr>) = (Inr (), u)
      \<and> requests (trace u) = requests (trace (start_world c)) @ [checkpoint_req ?E i, PostSnapshotState (posted_cut i c)]"
    by (intro exI conjI, rule d(1), simp only: first cut_window_def u(1))
      (simp only: u(2) d(4,6) posted_cut_def cut_window_def)
  have "finite rest" using assms(1) finite_set[of "others ?E (start_world c)"] by (simp add: sidecar_cut_def)
  then show "artifact_worth (posted_cut i c) = (\<Sum>p\<in>rest. recorded_worth i p c)"
    using assms(1) by (simp add: posted_cut_def cut_of_def artifact_worth_cut recorded_worth_def sidecar_cut_def)
qed

lemma sum_pairs_swap:
  fixes f :: "'a \<Rightarrow> 'a \<Rightarrow> int"
  assumes "finite M"
  shows "(\<Sum>p\<in>M. \<Sum>q\<in>M - {p}. f p q) = (\<Sum>q\<in>M. \<Sum>p\<in>M - {q}. f p q)"
proof -
  have "{y. y \<in> M \<and> x \<noteq> y} = M - {x}" "{x'. x' \<in> M \<and> x' \<noteq> x} = M - {x}" for x by auto
  then show ?thesis using sum.swap_restrict[OF assms assms, of f "\<lambda>p q. p \<noteq> q"] by simp
qed

subsection \<open>Three nodes and two transfers\<close>

text \<open>
  The third node triggers the snapshot. The first pays 4 to the second before its sidecar drains,
  and the credit arrives after the second has cut; and it pays 3 to the third after the drain.
\<close>

abbreviation host_a :: string where "host_a \<equiv> ''10.24.24.10''"
abbreviation host_b :: string where "host_b \<equiv> ''10.24.24.11''"
abbreviation host_c :: string where "host_c \<equiv> ''10.24.24.12''"

definition mesh_client :: address where "mesh_client = (''10.0.0.9'', 40000)"

definition mesh_requests :: "(address \<times> bytes) list" where
  "mesh_requests = [(mesh_client, ''TRANSFER tx1 10.24.24.11 5000 4''), (mesh_client, ''TRANSFER tx2 10.24.24.12 5000 3'')]"

definition mesh_credit :: app_datagram where
  "mesh_credit = (demo_dst, 5000, host_a, 5000, ''CREDIT tx1 a 4'')"

definition mesh_answer :: app_datagram where
  "mesh_answer = ([CHR 0x0A, CHR 0x00, CHR 0x00, CHR 0x09], 40000, host_a, 5000, ''OK TRANSFER tx1'')"

definition mesh_late :: "(address \<times> bytes) list" where
  "mesh_late = [((host_c, 5000), ''CREDIT tx2 a 3''), (mesh_client, ''OK TRANSFER tx2'')]"

definition mesh_marker :: "string \<Rightarrow> int \<Rightarrow> arrival" where
  "mesh_marker p n = to_arrival p (n, MARKER @ ''s1'', 0, 0, quad ZERO_IP)"

definition mesh_paid :: arrival where
  "mesh_paid = to_arrival host_a (0, ''CREDIT tx1 a 4'', 5000, 5000, quad demo_dst)"

definition idle_cut :: "string \<Rightarrow> proc \<Rightarrow> arrival \<Rightarrow> arrival list \<Rightarrow> arrival \<Rightarrow> node_cut" where
  "idle_cut ip app x xs y =
     \<lparr>sidecar_env = demo_env\<lparr>MESH_SELF := Some ip\<rparr>, start_world = demo_world, history = [], pending = [],
      opener = x, inside = xs, closer = y, app_before = app, app_after = app, handled = [], unread = [], late = []\<rparr>"

definition mesh_payer :: proc where
  "mesh_payer = fst (app_run demo_udp (demo_node ''a'' 10) mesh_requests)"

definition demo_mesh :: "string \<Rightarrow> node_cut" where
  "demo_mesh q =
     (if q = host_a then (idle_cut host_a (demo_node ''a'' 10) (mesh_marker host_c 0) [] (mesh_marker host_b 0))
        \<lparr>pending := [mesh_credit, mesh_answer], app_after := mesh_payer, handled := mesh_requests, late := mesh_late\<rparr>
      else if q = host_b then idle_cut host_b (demo_node ''b'' 0) (mesh_marker host_c 0) [mesh_paid] (mesh_marker host_a 1)
      else idle_cut host_c (demo_node ''c'' 0) (demo_arrival ''127.0.0.1'' 0 (MARKER @ ''s1''))
        [mesh_marker host_a 0] (mesh_marker host_b 0))"

lemma mesh_quads: "quad [CHR 0x0A, CHR 0x00, CHR 0x00, CHR 0x09] = ''10.0.0.9''" "quad demo_dst = host_b"
  unfolding demo_dst_def by code_simp+

lemma mesh_messages: "map app_message [mesh_credit, mesh_answer] = [((host_b, 5000), ''CREDIT tx1 a 4''), (mesh_client, ''OK TRANSFER tx1'')]"
  by (simp add: mesh_credit_def mesh_answer_def mesh_quads mesh_client_def)

lemma mesh_payer_run:
  "app_run demo_udp (demo_node ''a'' 10) mesh_requests
    = (mesh_payer, map app_message [mesh_credit, mesh_answer] @ mesh_late)"
  "counter mesh_payer = 3"
proof -
  have "snd (app_run demo_udp (demo_node ''a'' 10) mesh_requests)
      = [((host_b, 5000), ''CREDIT tx1 a 4''), (mesh_client, ''OK TRANSFER tx1'')] @ mesh_late" by code_simp
  then show "app_run demo_udp (demo_node ''a'' 10) mesh_requests
      = (mesh_payer, map app_message [mesh_credit, mesh_answer] @ mesh_late)"
    unfolding mesh_messages by (metis mesh_payer_def prod.collapse)
  show "counter mesh_payer = 3" by code_simp
qed

lemma mesh_arrivals [simp]:
  "a_ip (mesh_marker p n) = p" "a_ip mesh_paid = host_a" "a_ip (demo_arrival jp n x) = jp"
  "closes ''s1'' (mesh_marker p n)" "closes ''s1'' (demo_arrival jp n (MARKER @ ''s1''))"
  "readable (mesh_marker p n)" "readable mesh_paid" "\<not> closes ''s1'' mesh_paid"
proof -
  have "\<not> is_marker mesh_paid"
    by (simp add: is_marker_def mesh_paid_def to_arrival_def MARKER_def starts_with_def)
  then show "readable mesh_paid" "\<not> closes ''s1'' mesh_paid" by (auto simp: readable_def dest: closes_marker)
qed (simp_all add: mesh_marker_def mesh_paid_def to_arrival_def demo_arrival_def closes_def readable_def
      utf8_valid_ascii)

lemma mesh_proper:
  "proper_datagram (demo_env\<lparr>MESH_SELF := Some ip\<rparr>) mesh_credit" "proper_datagram (demo_env\<lparr>MESH_SELF := Some ip\<rparr>) mesh_answer"
  by (simp_all add: mesh_credit_def mesh_answer_def mesh_quads is_uint_def MARKER_def START_def starts_with_def
      mesh_prefix_def) (simp_all add: demo_dst_def)

lemma mesh_others: "ip \<noteq> [] \<Longrightarrow> others (demo_env\<lparr>MESH_SELF := Some ip\<rparr>) demo_world = filter (\<lambda>jp. jp \<noteq> ip) [host_a, host_b, host_c]"
  by (cases ip) (auto simp: others_def self_ip_of_def)

lemma demo_mesh_sidecars:
  assumes "q \<in> {host_a, host_b, host_c}"
  shows "sidecar_cut ''s1'' ({host_a, host_b, host_c} - {q}) (demo_mesh q)"
proof -
  have quiet: "quiet (demo_env\<lparr>MESH_SELF := Some ip\<rparr>) demo_world n" if "n \<le> 9" for ip n
    using that demo_base_inv by (simp add: quiet_def ready_def SnapshotController_def PeerState_def)
  from assms consider "q = host_a" | "q = host_b" | "q = host_c" by blast
  then show ?thesis
    by cases (auto simp: sidecar_cut_def demo_mesh_def idle_cut_def demo_world_inv quiet mesh_proper mesh_others
        closed_def sent_before_def sends_def)
qed

lemma demo_mesh_apps:
  assumes "q \<in> {host_a, host_b, host_c}"
  shows "app_cut demo_udp ({host_a, host_b, host_c} - {q}) (demo_mesh q)"
proof -
  have n: "good_name ''a''" "good_name ''b''" "good_name ''c''" by code_simp+
  have r: "list_all proper_request mesh_requests" by code_simp
  have w: "from_members rest mesh_requests" for rest
    by (simp add: from_members_def mesh_requests_def worthless)
  have m: "from_members {host_b, host_c} (map app_message [mesh_credit, mesh_answer])"
    unfolding mesh_messages by (simp add: from_members_def worthless)
  have a: "app_cut demo_udp {host_b, host_c} (demo_mesh host_a)"
    using mesh_payer_run(1) w m r by (simp add: app_cut_def demo_mesh_def idle_cut_def sent_before_def sends_def n)
      (simp add: demo_node_def n)
  from assms consider "q = host_a" | "q = host_b" | "q = host_c" by blast
  then show ?thesis
  proof cases
    case 1
    moreover have "{host_a, host_b, host_c} - {host_a} = {host_b, host_c}" by auto
    ultimately show ?thesis using a by simp
  qed (simp_all add: app_cut_def demo_mesh_def idle_cut_def from_members_def sent_before_def sends_def demo_node_def n)
qed

lemma demo_mesh_sent:
  assumes "p \<in> {host_a, host_b, host_c}" "q \<in> {host_a, host_b, host_c} - {p}"
  shows "channel_sent q (demo_mesh p) = (if p = host_a \<and> q = host_b
      then [data_frame 0 5000 5000 demo_dst ''CREDIT tx1 a 4'', data_frame 1 0 0 ZERO_IP (MARKER @ ''s1'')]
      else [data_frame 0 0 0 ZERO_IP (MARKER @ ''s1'')])"
proof -
  have "utf8_valid ''s1''" by (simp add: utf8_valid_ascii)
  note run = channel_sent_run[OF demo_mesh_sidecars[OF assms(1)] this assms(2)]
  have start: "start_world (demo_mesh p) = demo_world" by (simp add: demo_mesh_def idle_cut_def)
  have "filter (\<lambda>d. dgram_ip d = q) (sent_before (demo_mesh p)) = (if p = host_a \<and> q = host_b then [mesh_credit] else [])"
    using assms by (auto simp: demo_mesh_def idle_cut_def sent_before_def sends_def mesh_credit_def mesh_answer_def mesh_quads)
  then show ?thesis by (simp add: run start PeerState_def mesh_credit_def)
qed

lemma demo_mesh_channels:
  assumes "p \<in> {host_a, host_b, host_c}" "q \<in> {host_a, host_b, host_c} - {p}"
  shows "channel_delivers p q (demo_mesh p) (demo_mesh q) [] \<and> app_reads p (demo_mesh q)"
proof
  have read: "read_frame p (data_frame n 0 0 ZERO_IP (MARKER @ ''s1'')) = Some (mesh_marker p n)" if "n \<in> {0, 1}" for p n
    using that by (auto simp: read_frame_data is_uint_def mesh_marker_def)
  have "length demo_dst = 4" by (simp add: demo_dst_def)
  then have paid: "read_frame host_a (data_frame 0 5000 5000 demo_dst ''CREDIT tx1 a 4'') = Some mesh_paid"
    by (simp add: read_frame_data is_uint_def mesh_paid_def)
  have pairs: "(p, q) \<in> {(host_a, host_b), (host_a, host_c), (host_b, host_a), (host_b, host_c),
      (host_c, host_a), (host_c, host_b)}" using assms by auto
  show "channel_delivers p q (demo_mesh p) (demo_mesh q) []"
    unfolding channel_delivers_def demo_mesh_sent[OF assms] using pairs
    by (elim insertE emptyE) (simp_all add: channel_arrivals_def demo_mesh_def idle_cut_def gets_def
        cut_window_def read paid)
  show "app_reads p (demo_mesh q)"
    using pairs by (elim insertE emptyE)
      (simp_all add: app_reads_def demo_mesh_def idle_cut_def gets_def mesh_requests_def mesh_client_def)
qed

subsection \<open>Properties\<close>

text \<open>
  C3: The snapshot of the counter mesh accounts for the money. Nodes take one snapshot, each after
  any history of forwarded datagrams and deliveries and with any datagrams still queued at its
  sidecar; every sidecar drains, checkpoints its counter, sends its markers and posts an artifact
  with the messages it recorded. Provided that the tunnel hands over each channel in order and
  that the kernel delivers the datagrams of the sidecar to the application's socket in order, the
  checkpointed counters and the credits in the artifacts are together worth what the counters
  were worth at the start, whatever transfers were under way, less exactly two things: what the
  application sent between the drain of its sidecar and its checkpoint, and what had been
  delivered to its socket and was not yet read. In particular no credit is in the cut twice.
\<close>

theorem snapshot_conserves_the_money:
  assumes "finite M" and "utf8_valid i" and "obliging U"
    and "\<forall>q\<in>M. sidecar_cut i (M - {q}) (C q) \<and> app_cut U (M - {q}) (C q)"
    and "\<forall>p\<in>M. \<forall>q\<in>M - {p}. channel_delivers p q (C p) (C q) (later p q) \<and> app_reads p (C q)"
  shows "(\<forall>q\<in>M. \<exists>h u. pfor (run_op (sidecar_env (C q))) (history (C q)) (start_world (C q)) = (Inr (), h)
        \<and> pfor (arrive (sidecar_env (C q))) (cut_window (C q)) (h\<lparr>local_sock := map queued (pending (C q))\<rparr>) = (Inr (), u)
        \<and> requests (trace u) = requests (trace (start_world (C q)))
            @ [checkpoint_req (sidecar_env (C q)) i, PostSnapshotState (posted_cut i (C q))])
    \<and> (\<Sum>q\<in>M. counter (app_after (C q))) + (\<Sum>q\<in>M. artifact_worth (posted_cut i (C q)))
        + (\<Sum>q\<in>M. total_worth (late (C q)) + total_worth (unread (C q)))
      = (\<Sum>q\<in>M. counter (app_before (C q)))"
proof
  show "\<forall>q\<in>M. \<exists>h u. pfor (run_op (sidecar_env (C q))) (history (C q)) (start_world (C q)) = (Inr (), h)
        \<and> pfor (arrive (sidecar_env (C q))) (cut_window (C q)) (h\<lparr>local_sock := map queued (pending (C q))\<rparr>) = (Inr (), u)
        \<and> requests (trace u) = requests (trace (start_world (C q)))
            @ [checkpoint_req (sidecar_env (C q)) i, PostSnapshotState (posted_cut i (C q))]"
    using assms(2,4) sidecar_cut_posts(1) by blast
  let ?S = "\<lambda>p q. host_worth q (map app_message (sent_before (C p)))"
    and ?R = "\<lambda>p q. host_worth p (handled (C q) @ unread (C q))" and ?X = "\<lambda>p q. recorded_worth i p (C q)"
    and ?L = "\<lambda>q. total_worth (late (C q)) + total_worth (unread (C q))"
  have X: "(\<Sum>q\<in>M. artifact_worth (posted_cut i (C q))) = (\<Sum>q\<in>M. \<Sum>p\<in>M - {q}. ?X p q)"
    using assms(2,4) sidecar_cut_posts(2) by (intro sum.cong refl) blast
  have SRX: "?S p q = ?R p q + ?X p q" if "p \<in> M" "q \<in> M - {p}" for p q
    by (rule channel_worth[where i = i and rp = "M - {p}" and rq = "M - {q}" and later = "later p q"])
      (use assms that in blast)+
  have "(\<Sum>p\<in>M. counter (app_after (C p)) + (\<Sum>q\<in>M - {p}. ?S p q) + ?L p)
      = (\<Sum>p\<in>M. counter (app_before (C p)) + (\<Sum>q\<in>M - {p}. ?R q p))"
    using assms(1,3,4) app_cut_total by (intro sum.cong refl) (fastforce simp: add.assoc)
  then have "(\<Sum>p\<in>M. counter (app_after (C p))) + (\<Sum>p\<in>M. \<Sum>q\<in>M - {p}. ?S p q) + (\<Sum>p\<in>M. ?L p)
      = (\<Sum>p\<in>M. counter (app_before (C p))) + (\<Sum>p\<in>M. \<Sum>q\<in>M - {p}. ?R q p)"
    by (simp only: sum.distrib)
  moreover have "(\<Sum>p\<in>M. \<Sum>q\<in>M - {p}. ?S p q)
      = (\<Sum>p\<in>M. \<Sum>q\<in>M - {p}. ?R p q) + (\<Sum>p\<in>M. \<Sum>q\<in>M - {p}. ?X p q)"
    unfolding sum.distrib[symmetric] by (intro sum.cong refl SRX)
  moreover have "(\<Sum>p\<in>M. \<Sum>q\<in>M - {p}. ?R p q) = (\<Sum>p\<in>M. \<Sum>q\<in>M - {p}. ?R q p)"
    by (rule sum_pairs_swap[OF assms(1)])
  moreover have "(\<Sum>p\<in>M. \<Sum>q\<in>M - {p}. ?X p q) = (\<Sum>q\<in>M. \<Sum>p\<in>M - {q}. ?X p q)"
    by (rule sum_pairs_swap[OF assms(1)])
  ultimately show "(\<Sum>q\<in>M. counter (app_after (C q))) + (\<Sum>q\<in>M. artifact_worth (posted_cut i (C q)))
      + (\<Sum>q\<in>M. ?L q) = (\<Sum>q\<in>M. counter (app_before (C q)))"
    unfolding X by linarith
qed

theorem snapshot_conserves_the_money_witness:
  "(\<Sum>q\<in>{host_a, host_b, host_c}. artifact_worth (posted_cut ''s1'' (demo_mesh q))) = 4
    \<and> (\<Sum>q\<in>{host_a, host_b, host_c}. counter (app_after (demo_mesh q))) = 3
    \<and> total_worth (late (demo_mesh host_a)) = 3"
proof -
  let ?M = "{host_a, host_b, host_c}"
  have fin: "finite ?M" by simp
  have u: "utf8_valid ''s1''" and ob: "obliging demo_udp" by (simp_all add: utf8_valid_ascii obliging_def demo_udp_def)
  have nodes: "\<forall>q\<in>?M. sidecar_cut ''s1'' (?M - {q}) (demo_mesh q) \<and> app_cut demo_udp (?M - {q}) (demo_mesh q)"
    using demo_mesh_sidecars demo_mesh_apps by blast
  have channels: "\<forall>p\<in>?M. \<forall>q\<in>?M - {p}. channel_delivers p q (demo_mesh p) (demo_mesh q) [] \<and> app_reads p (demo_mesh q)"
    using demo_mesh_channels by blast
  have "total_worth mesh_late = 3" by code_simp
  then have "(\<Sum>q\<in>?M. counter (app_before (demo_mesh q))) = 10" "(\<Sum>q\<in>?M. counter (app_after (demo_mesh q))) = 3"
    "(\<Sum>q\<in>?M. total_worth (late (demo_mesh q)) + total_worth (unread (demo_mesh q))) = 3"
    "total_worth (late (demo_mesh host_a)) = 3"
    by (simp_all add: demo_mesh_def idle_cut_def demo_node_def mesh_payer_run(2) total_worth_def)
  with snapshot_conserves_the_money[OF fin u ob nodes channels, THEN conjunct2] show ?thesis by linarith
qed

end
