(* ===== verification/Spec2Isabelle.thy ===== *)
theory Spec2Isabelle
  imports Snapshot_Run Agreement Faults Breakout Polls Interrupted Posting Mesh
begin

text \<open>
  A verification development for \<open>dead-nodes-tell-no-tales\<close>: whole-system checkpoint and
  restore of a mesh of UDP applications. Every application container has a sidecar that
  intercepts its datagrams and tunnels them to the other sidecars over a reliable in-order
  protocol; the sidecars take Chandy-Lamport snapshots of the mesh, publish the recorded
  channels as JSON artifacts through an HTTP service on the host that also runs podman, and a
  restored sidecar resumes from its artifact. The demo application keeps a counter per node
  and moves amounts between them, so that a consistent cut preserves their sum.

  \<^bold>\<open>The program's parts and the theories that model them.\<close>

  \<^item> \<^verbatim>\<open>proxy/config.py\<close>: \<open>Config\<close> (constants, with times in milliseconds, the member list, and
    the subnet test of the \<open>ipaddress\<close> module on 32-bit words).
  \<^item> The \<open>struct\<close> formats of \<^verbatim>\<open>proxy/mesh_proxy.py\<close>: \<open>Wire\<close>; \<open>base64\<close>: \<open>Base64\<close>.
  \<^item> The objects \<open>MeshProxy\<close>, \<open>PeerState\<close> and \<open>SnapshotController\<close>: the records \<open>world\<close>,
    \<open>peer_state\<close> and \<open>controller\<close> of \<open>World\<close>. One \<open>world\<close> is one sidecar process; what it does
    to the outside is its \<open>trace\<close> of events, what it reads of the host is the record \<open>env\<close>.
  \<^item> \<open>MeshProxy.get_spoof_sock\<close>: \<open>Spoof\<close>. \<open>get_peer\<close>, \<open>send_data\<close>, \<open>send_plain\<close> and the inside of
    \<open>_retransmit_loop\<close>: \<open>Peers\<close>. \<open>_use_rudp\<close>, \<open>_forward_intercepted\<close>, \<open>drain_intercept\<close>:
    \<open>Forward\<close>. \<open>TunnelProtocol.datagram_received\<close>: \<open>Tunnel\<close>. \<open>_handle_local_intercept\<close>,
    one round of \<open>_retransmit_loop\<close> and the two parts of \<open>start\<close>, before and after its await
    (\<open>start_listening\<close>, \<open>start_serving\<close>): \<open>Intercept\<close>.
  \<^item> \<^verbatim>\<open>proxy/snapshot_handler.py\<close>: \<open>Controller\<close>, with \<open>MeshProxy.process_and_deliver\<close>, which the
    controller calls back; \<open>restore_from_artifact\<close>: \<open>Restore\<close>.
  \<^item> \<^verbatim>\<open>proxy/breakout_receiver.py\<close>: \<open>Breakout\<close>.
  \<^item> \<^verbatim>\<open>src/counter.py\<close>: \<open>Counter\<close>, over the text operations of \<open>Pytext\<close>.

  A Python function is a definition of the same name in the state-and-exception monad of
  \<open>Prelude\<close>: it returns or raises, and what it assigned before a raise stays assigned. A dict
  is an association list in insertion order, an object that is never replaced is its key, a
  \<open>str\<close> is the list of its UTF-8 bytes.

  \<^bold>\<open>What the other theories show.\<close>

  \<^item> \<open>Snapshot\<close>, \<open>Delivery\<close>, \<open>Cut\<close>, \<open>Recording\<close>, \<open>Snapshot_Run\<close>: the controller. The invariant of
    its state, the run of a whole snapshot from its first to its last marker, the artifact it
    posts, and that no message is lost or repeated by it.
  \<^item> \<open>Reassembly\<close>: the receive side of the tunnel as a pure machine behind the contract
    \<open>in_order_receiver\<close>; \<open>Tunnel\<close> proves that the packet handler implements it, and with it
    in-order, exactly-once delivery. \<open>Lossless\<close> puts both ends together: progress, and the end
    of the sequence space.
  \<^item> \<open>Schema\<close>, \<open>Posting\<close>: the JSON shape of the artifacts, on every path that posts one.
  \<^item> \<open>Routing\<close>: where an intercepted datagram goes, and the order of the application's datagrams
    and the markers. \<open>Agreement\<close>: the two ends of a channel record the same cut of it.
  \<^item> \<open>Stable\<close>, \<open>Sidecar\<close>: the sidecar as a transition system whose steps are the callbacks of the
    event loop in any order, also while \<open>start\<close> waits; invariants of its reachable states.
    \<open>Interrupted\<close>: what that wait costs a sidecar that restores. \<open>Faults\<close>: what remains when a
    handler raises halfway, in every later state.
  \<^item> \<open>Breakout\<close>, second half: what can reach podman, what the statuses mean, and the way of an
    artifact from the sidecar through the file system to the restored sidecar.
  \<^item> \<open>Bank\<close>, \<open>Polls\<close>: the counter application. Conservation of the sum under every interleaving
    of a network, and the verdict of the client that checks it.
  \<^item> \<open>Channels\<close>: what a sidecar has put on each channel when it has sent its markers, after any
    history and with any datagrams still queued, and what the other end records of it. \<open>Mesh\<close>: the
    sidecars and applications of a whole mesh in one snapshot: what the checkpointed counters and
    the posted artifacts hold together is what the counters held before, less what an
    application sent between drain and checkpoint and what it had not read.
  \<^item> \<open>Demo\<close>: the concrete host and process the witnesses run on.

  \<^bold>\<open>Interfaces.\<close> \<open>dict\<close> (\<open>Prelude\<close>), \<open>codec\<close> and \<open>fixed_codec\<close> (\<open>Wire\<close>), the LRU contract
  \<open>lru_cache\<close> (\<open>Spoof\<close>), \<open>in_order_receiver\<close> (\<open>Reassembly\<close>), the calculi \<open>carried\<close>, \<open>stable\<close> and
  \<open>receiving\<close> for properties that the elementary effects keep, and \<open>conserving\<close> (\<open>Bank\<close>). Each is
  interpreted on the model's own definitions.

  \<^bold>\<open>Loops and their bounds.\<close> A \<open>while\<close> loop is a recursion with a bound on its iterations that
  the state determines, and running out of it raises \<open>RecursionError\<close>, which no proof
  excludes by assumption: \<open>flush_loop\<close> gets the size of the reassembly buffer plus one and
  \<open>drain_loop\<close> the length of the queue plus one. The socket that \<open>intercept_loop\<close> reads is refilled
  while it runs: it gets a finite but arbitrary feed of datagrams that arrive between its calls of
  \<open>recvmsg\<close>, and the length of the queue and the feed plus one. All are enough because each
  round takes an entry (\<open>flush_buffer_run\<close>, \<open>drain_intercept_pfor\<close>, \<open>intercept_loop_bound\<close>). The
  replay calls the message handler from inside itself: \<open>process_message_n\<close> is the handler with
  a limit on the nesting, and two levels suffice, because a recorded message is no marker and is
  replayed outside a snapshot (\<open>process_message_nesting\<close>: more levels change nothing). \<open>sum_loop\<close> terminates by its time limit.

  \<^bold>\<open>Assumptions about the outside.\<close> They are the fields of \<open>env\<close>, \<open>host\<close> and \<open>udp\<close>: whether a
  bind, a send or an HTTP request succeeds, how long it blocks, what it answers, what podman
  returns. Hypotheses of properties restrict them by name. The clock moves only between
  events and during HTTP requests.

  \<^bold>\<open>Not modelled.\<close> The scheduling of asyncio and of the HTTP server, beyond one callback and
  one request at a time in any order; datagrams that arrive inside the drain of a marker (they wait
  for the next round of the reader); kernel errors other than those of bind and sendto, except
  that any exception of a command of the receiver counts as uncaught; sequence numbers and ports of
  an artifact that are no JSON integers (\<open>Restore\<close>); floats, duplicate keys and non-ASCII escapes in JSON;
  non-ASCII white space and digits; podman, CRIU, iptables and the files they use; the
  parsing of the receiver's command line; the traffic generators \<^verbatim>\<open>proxy/chat.py\<close> and
  \<^verbatim>\<open>proxy/udp_script.py\<close>, which only print and send; the C programs and the shell scripts.

  \<^bold>\<open>Left to do.\<close> In \<open>Mesh\<close> the order of a channel is a hypothesis (\<open>channel_delivers\<close>), which \<open>Tunnel\<close>
  and \<open>Lossless\<close> show for its two ends; one transition system of all sidecars and a network would
  compose them. The restart of the whole mesh from such a cut; the snapshot file system shared by
  several receivers.
\<close>

end
